(* ===== verification/Eph_Prelude.thy ===== *)
theory Eph_Prelude
  imports Main "HOL-Library.Word" "HOL-Library.Code_Target_Nat"
begin

text \<open>
  Shared vocabulary of the development: the machine integers of the C++ sources as words of
  their width, byte sequences, big-endian and little-endian byte composition (the shift/or loops
  the wire formats use), the \<open>std::expected\<close> results as a sum with the error on the
  left, and the collections \<open>wire_simps\<close>, \<open>codec_simps\<close> and \<open>inv_intros\<close> the component
  proofs draw on.
\<close>

unbundle bit_operations_syntax

type_synonym u8 = "8 word"
type_synonym u16 = "16 word"
type_synonym u32 = "32 word"
type_synonym u64 = "64 word"
type_synonym bytes = "u8 list"

text \<open>\<open>std::expected<'a, 'e>\<close>: \<open>Inr\<close> is the value, \<open>Inl\<close> the error.\<close>

type_synonym ('e, 'a) expected = "'e + 'a"

named_theorems wire_simps \<open>byte composition and decomposition\<close>
named_theorems codec_simps \<open>frame and codec equations\<close>
named_theorems inv_intros \<open>invariant preservation\<close>

section \<open>Big-endian and little-endian composition\<close>

text \<open>
  \<open>be_bytes n w\<close> is the loop \<open>for (i = n-1; i >= 0; --i) out[pos++] = (w >> (8*i)) & 0xFF\<close>,
  \<open>be_val\<close> the loop \<open>v = (v << 8) | p[i]\<close>; the little-endian pair reads the other way round.
\<close>

primrec be_bytes :: "nat \<Rightarrow> u64 \<Rightarrow> bytes" where
  "be_bytes 0 w = []"
| "be_bytes (Suc i) w = ucast (drop_bit (8 * i) w) # be_bytes i w"

definition be_val :: "bytes \<Rightarrow> u64" where
  "be_val bs = foldl (\<lambda>acc b. push_bit 8 acc OR ucast b) 0 bs"

definition le_bytes :: "nat \<Rightarrow> u64 \<Rightarrow> bytes" where
  "le_bytes n w = rev (be_bytes n w)"

definition le_val :: "bytes \<Rightarrow> u64" where
  "le_val bs = be_val (rev bs)"

text \<open>The number a byte string denotes, without wrap-around.\<close>

definition be_nat :: "bytes \<Rightarrow> nat" where
  "be_nat bs = foldl (\<lambda>acc b. acc * 256 + unat b) 0 bs"

lemma length_be_bytes [simp]: "length (be_bytes n w) = n"
  by (induction n) auto

lemma length_le_bytes [simp]: "length (le_bytes n w) = n"
  by (simp add: le_bytes_def)

lemma be_nat_foldl: "foldl (\<lambda>acc b. acc * 256 + unat b) a bs = a * 256 ^ length bs + be_nat bs"
proof (induction bs arbitrary: a rule: rev_induct)
  case Nil
  show ?case by (simp add: be_nat_def)
next
  case (snoc b bs)
  have "be_nat (bs @ [b]) = be_nat bs * 256 + unat b"
    by (simp add: be_nat_def)
  with snoc show ?case by (simp add: algebra_simps)
qed

lemma be_nat_Nil [simp]: "be_nat [] = 0"
  by (simp add: be_nat_def)

lemma be_nat_Cons: "be_nat (b # bs) = unat b * 256 ^ length bs + be_nat bs"
  using be_nat_foldl [of "unat b" bs] by (simp add: be_nat_def)

lemma be_nat_snoc: "be_nat (bs @ [b]) = be_nat bs * 256 + unat b"
  by (simp add: be_nat_def)

lemma unat_u8_less [simp]: "unat (b :: u8) < 256"
  using unsigned_less [of b, where ?'a = nat] by simp

lemma be_nat_less: "be_nat bs < 256 ^ length bs"
proof (induction bs)
  case Nil
  show ?case by simp
next
  case (Cons b bs)
  have "unat b + 1 \<le> 256" using unat_u8_less [of b] by linarith
  then have "(unat b + 1) * 256 ^ length bs \<le> 256 * 256 ^ length bs"
    by (rule mult_right_mono) simp
  then have "unat b * 256 ^ length bs + 256 ^ length bs \<le> 256 * 256 ^ length bs"
    by (simp add: algebra_simps)
  with Cons show ?case unfolding be_nat_Cons length_Cons power_Suc by linarith
qed

lemma shift8_or: "push_bit 8 (a :: u64) OR ucast (b :: u8) = a * 256 + ucast b"
proof -
  have "push_bit 8 a AND ucast b = 0"
    by (rule bit_eqI) (auto simp: bit_simps dest: bit_imp_le_length)
  then have "push_bit 8 a OR ucast b = push_bit 8 a + ucast b"
    by (simp add: disjunctive_add_eq_or)
  then show ?thesis by (simp add: push_bit_eq_mult)
qed

lemma be_val_eq: "be_val bs = of_nat (be_nat bs)"
proof (induction bs rule: rev_induct)
  case Nil
  show ?case by (simp add: be_val_def)
next
  case (snoc b bs)
  have "be_val (bs @ [b]) = be_val bs * 256 + ucast b"
    by (simp add: be_val_def shift8_or)
  also have "\<dots> = of_nat (be_nat (bs @ [b]))"
    by (simp add: snoc be_nat_snoc)
  finally show ?case .
qed

lemma unat_be_val: "length bs \<le> 8 \<Longrightarrow> unat (be_val bs) = be_nat bs"
proof -
  assume "length bs \<le> 8"
  then have "(256::nat) ^ length bs \<le> 256 ^ 8"
    by (rule power_increasing) simp
  with be_nat_less [of bs] have "be_nat bs < 2 ^ 64" by simp
  then show ?thesis by (simp add: be_val_eq unat_of_nat)
qed

lemma unat_byte: "unat (ucast (drop_bit (8 * i) w :: u64) :: u8) = unat w div 256 ^ i mod 256"
proof -
  have "(2::nat) ^ (8 * i) = 256 ^ i" by (simp add: power_mult)
  then show ?thesis
    by (simp add: unsigned_ucast_eq unat_drop_bit_eq take_bit_eq_mod) (simp add: drop_bit_eq_div)
qed

lemma be_nat_be_bytes: "be_nat (be_bytes n w) = unat w mod 256 ^ n"
proof (induction n)
  case 0
  show ?case by simp
next
  case (Suc n)
  have "unat w mod 256 ^ Suc n = 256 ^ n * (unat w div 256 ^ n mod 256) + unat w mod 256 ^ n"
    using mod_mult2_eq [of "unat w" "256 ^ n" 256] by (simp add: ac_simps)
  with Suc show ?case by (simp add: be_nat_Cons unat_byte)
qed

lemma be_val_be_bytes [wire_simps]: "n \<le> 8 \<Longrightarrow> unat w < 256 ^ n \<Longrightarrow> be_val (be_bytes n w) = w"
  by (simp add: be_val_eq be_nat_be_bytes)

lemma be_val_be_bytes8 [simp]: "be_val (be_bytes 8 w) = w"
  using unsigned_less [of w, where ?'a = nat] by (simp add: be_val_be_bytes)

lemma le_val_le_bytes [wire_simps]: "n \<le> 8 \<Longrightarrow> unat w < 256 ^ n \<Longrightarrow> le_val (le_bytes n w) = w"
  by (simp add: le_val_def le_bytes_def be_val_be_bytes)

lemma be_nat_inject: "length as = length bs \<Longrightarrow> be_nat as = be_nat bs \<Longrightarrow> as = bs"
proof (induction as arbitrary: bs rule: rev_induct)
  case Nil
  then show ?case by simp
next
  case (snoc a as)
  then obtain b bs' where bs: "bs = bs' @ [b]"
    by (metis append_butlast_last_id length_0_conv snoc_eq_iff_butlast)
  with snoc.prems have eq: "be_nat as * 256 + unat a = be_nat bs' * 256 + unat b"
    by (simp add: be_nat_snoc)
  have "(be_nat as * 256 + unat a) mod 256 = unat a" "(be_nat bs' * 256 + unat b) mod 256 = unat b"
    by simp_all
  with eq have "unat a = unat b" by metis
  moreover from this eq have "be_nat as = be_nat bs'" by simp
  moreover from \<open>unat a = unat b\<close> have "a = b" by (simp add: word_unat_eq_iff)
  ultimately show ?case using snoc bs by simp
qed

lemma be_bytes_be_val: "length bs = n \<Longrightarrow> n \<le> 8 \<Longrightarrow> be_bytes n (be_val bs) = bs"
proof (rule be_nat_inject)
  assume n: "length bs = n" "n \<le> 8"
  show "length (be_bytes n (be_val bs)) = length bs" using n by simp
  show "be_nat (be_bytes n (be_val bs)) = be_nat bs"
    using n be_nat_less [of bs] by (simp add: be_nat_be_bytes unat_be_val)
qed

section \<open>Fixed-width loads and stores\<close>

text \<open>
  The shift/or expressions the sources write out for 16- and 32-bit big-endian fields, at their
  own width.
\<close>

definition be_u16 :: "u8 \<Rightarrow> u8 \<Rightarrow> u16" where
  "be_u16 a b = push_bit 8 (ucast a) OR ucast b"

definition be_u32 :: "u8 \<Rightarrow> u8 \<Rightarrow> u8 \<Rightarrow> u8 \<Rightarrow> u32" where
  "be_u32 a b c d = push_bit 24 (ucast a) OR push_bit 16 (ucast b) OR push_bit 8 (ucast c) OR ucast d"

definition u16_bytes :: "u16 \<Rightarrow> bytes" where
  "u16_bytes n = [ucast (drop_bit 8 n), ucast n]"

definition u32_bytes :: "u32 \<Rightarrow> bytes" where
  "u32_bytes n = [ucast (drop_bit 24 n), ucast (drop_bit 16 n), ucast (drop_bit 8 n), ucast n]"

lemma length_u16_bytes [simp]: "length (u16_bytes n) = 2"
  by (simp add: u16_bytes_def)

lemma length_u32_bytes [simp]: "length (u32_bytes n) = 4"
  by (simp add: u32_bytes_def)

lemma ucast_be_u16: "ucast (be_u16 a b) = be_val [a, b]"
  by (rule bit_eqI) (auto simp: be_u16_def be_val_def bit_simps dest: bit_imp_le_length)

lemma ucast_be_u32: "ucast (be_u32 a b c d) = be_val [a, b, c, d]"
  by (rule bit_eqI) (auto simp: be_u32_def be_val_def bit_simps dest: bit_imp_le_length)

lemma unat_be_u16: "unat (be_u16 a b) = be_nat [a, b]"
proof -
  have "unat (ucast (be_u16 a b) :: u64) = be_nat [a, b]"
    by (simp add: ucast_be_u16 unat_be_val)
  moreover have "unat (be_u16 a b) < 2 ^ 16" using unsigned_less [of "be_u16 a b", where ?'a = nat] by simp
  ultimately show ?thesis by (simp add: unsigned_ucast_eq take_bit_nat_eq_self)
qed

lemma unat_be_u32: "unat (be_u32 a b c d) = be_nat [a, b, c, d]"
proof -
  have "unat (ucast (be_u32 a b c d) :: u64) = be_nat [a, b, c, d]"
    by (simp add: ucast_be_u32 unat_be_val)
  moreover have "unat (be_u32 a b c d) < 2 ^ 32" using unsigned_less [of "be_u32 a b c d", where ?'a = nat] by simp
  ultimately show ?thesis by (simp add: unsigned_ucast_eq take_bit_nat_eq_self)
qed

lemma bit_u8_out [simp]: "8 \<le> n \<Longrightarrow> \<not> bit (b :: u8) n"
  using bit_imp_le_length [of b n] by auto

lemma be_u16_bytes [wire_simps]:
  "be_u16 (ucast (drop_bit 8 n)) (ucast (n :: u16)) = n"
  by (rule bit_eqI) (auto simp: be_u16_def bit_simps dest: bit_imp_le_length)

lemma be_u32_bytes [wire_simps]:
  "be_u32 (ucast (drop_bit 24 n)) (ucast (drop_bit 16 n)) (ucast (drop_bit 8 n)) (ucast (n :: u32)) = n"
proof (rule bit_word_eqI)
  fix i
  assume "i < LENGTH(32)"
  then consider "i < 8" | "8 \<le> i" "i < 16" | "16 \<le> i" "i < 24" | "24 \<le> i" "i < 32"
    by fastforce
  then show "bit (be_u32 (ucast (drop_bit 24 n)) (ucast (drop_bit 16 n)) (ucast (drop_bit 8 n)) (ucast n)) i
      \<longleftrightarrow> bit n i"
    by cases (auto simp: be_u32_def bit_simps)
qed

lemma u16_bytes_be [wire_simps]: "u16_bytes (be_u16 a b) = [a, b]"
  by (auto intro!: bit_eqI simp: u16_bytes_def be_u16_def bit_simps dest: bit_imp_le_length)

lemma u32_bytes_be [wire_simps]: "u32_bytes (be_u32 a b c d) = [a, b, c, d]"
  by (auto intro!: bit_eqI simp: u32_bytes_def be_u32_def bit_simps dest: bit_imp_le_length)

section \<open>Lists\<close>

lemma take_drop_append_exact [simp]:
  "length xs = n \<Longrightarrow> take n (xs @ ys) = xs"
  "length xs = n \<Longrightarrow> drop n (xs @ ys) = ys"
  by auto

text \<open>Reading \<open>p[i]\<close> from a buffer the code has bounds-checked; \<open>0\<close> outside it.\<close>

definition byte_at :: "bytes \<Rightarrow> nat \<Rightarrow> u8" where
  "byte_at bs i = (if i < length bs then bs ! i else 0)"

lemma byte_at_0 [simp]: "byte_at (b # bs) 0 = b"
  by (simp add: byte_at_def)

lemma byte_at_Suc [simp]: "byte_at (b # bs) (Suc i) = byte_at bs i"
  by (simp add: byte_at_def)

lemma be_u16_at [wire_simps]:
  "be_u16 (byte_at (u16_bytes n @ ys) 0) (byte_at (u16_bytes n @ ys) (Suc 0)) = n"
  by (simp add: u16_bytes_def be_u16_bytes)

lemma be_u32_at [wire_simps]:
  "be_u32 (byte_at (u32_bytes n @ ys) 0) (byte_at (u32_bytes n @ ys) (Suc 0))
     (byte_at (u32_bytes n @ ys) 2) (byte_at (u32_bytes n @ ys) 3) = n"
  by (simp add: u32_bytes_def be_u32_bytes byte_at_def)

definition slice :: "'a list \<Rightarrow> nat \<Rightarrow> nat \<Rightarrow> 'a list" where
  "slice xs pos n = take n (drop pos xs)"

lemma length_slice [simp]: "length (slice xs pos n) = min n (length xs - pos)"
  by (simp add: slice_def)

lemma slice_0_append [simp]: "length xs = n \<Longrightarrow> slice (xs @ ys) 0 n = xs"
  by (simp add: slice_def)

lemma slice_append_skip: "length xs = pos \<Longrightarrow> slice (xs @ ys) pos n = take n ys"
  by (simp add: slice_def)

lemma byte_at_append: "i < length xs \<Longrightarrow> byte_at (xs @ ys) i = byte_at xs i"
  by (simp add: byte_at_def nth_append)

lemma slice_append: "pos + n \<le> length xs \<Longrightarrow> slice (xs @ ys) pos n = slice xs pos n"
  by (simp add: slice_def)

lemma be_bytes_2: "be_bytes 2 w = [ucast (drop_bit 8 w), ucast w]"
  by (simp add: numeral_2_eq_2)

section \<open>Text\<close>

text \<open>\<open>std::to_chars\<close> on an unsigned integer.\<close>

definition digit_char :: "nat \<Rightarrow> char" where
  "digit_char d = char_of (if d < 10 then 48 + d else 87 + d)"

function to_chars :: "nat \<Rightarrow> nat \<Rightarrow> string" where
  "to_chars base n =
     (if base < 2 \<or> n < base then [digit_char n]
      else to_chars base (n div base) @ [digit_char (n mod base)])"
  by pat_completeness auto
termination
  by (relation "measure snd") auto

declare to_chars.simps [simp del]

end
