(* ===== verification/Core_Codec.thy ===== *)
theory Core_Codec
  imports Eph_Prelude
begin

text \<open>
  The contract layer of \<^verbatim>\<open>eph-core\<close>: the error type every fallible call returns
  (\<^verbatim>\<open>core/error.hpp\<close>), the \<open>OutputBuffer\<close> a codec writes auto-responses into
  (\<^verbatim>\<open>core/codec.hpp\<close>), the \<open>PacketView\<close> window it reads from
  (\<^verbatim>\<open>codec/detail/span_packet_view.hpp\<close>), and the \<open>StreamCodec\<close> contract as the locales
  \<open>stream_codec\<close> and \<open>framing_codec\<close>, which the concrete codecs interpret and the kernel
  stream's receive loop relies on.
\<close>

section \<open>Errors\<close>

datatype Error =
    Ok
  | ConnectFailed | Disconnected | Timeout | NotAttached
  | TlsHandshakeFailed | TlsRecordBad | TlsCipherFailed
  | WsHandshakeFailed | WsFrameBad | WsCloseReceived
  | CodecBad | CodecOverflow
  | WouldBlock | BufferFull
  | InvalidConfig | OutOfMemory
  | ProxyConnectFailed | ProxyHandshakeFailed | ProxyAuthRequired
  | NotFound
  | DaemonDisconnected

datatype ErrorInfo = ErrorInfo (err_code: Error) (err_detail: string)

fun error_name :: "Error \<Rightarrow> string" where
  "error_name Ok = ''OK''"
| "error_name ConnectFailed = ''CONNECT_FAILED''"
| "error_name Disconnected = ''DISCONNECTED''"
| "error_name Timeout = ''TIMEOUT''"
| "error_name NotAttached = ''NOT_ATTACHED''"
| "error_name TlsHandshakeFailed = ''TLS_HANDSHAKE_FAILED''"
| "error_name TlsRecordBad = ''TLS_RECORD_BAD''"
| "error_name TlsCipherFailed = ''TLS_CIPHER_FAILED''"
| "error_name WsHandshakeFailed = ''WS_HANDSHAKE_FAILED''"
| "error_name WsFrameBad = ''WS_FRAME_BAD''"
| "error_name WsCloseReceived = ''WS_CLOSE_RECEIVED''"
| "error_name CodecBad = ''CODEC_BAD''"
| "error_name CodecOverflow = ''CODEC_OVERFLOW''"
| "error_name WouldBlock = ''WOULD_BLOCK''"
| "error_name BufferFull = ''BUFFER_FULL''"
| "error_name InvalidConfig = ''INVALID_CONFIG''"
| "error_name OutOfMemory = ''OUT_OF_MEMORY''"
| "error_name ProxyConnectFailed = ''PROXY_CONNECT_FAILED''"
| "error_name ProxyHandshakeFailed = ''PROXY_HANDSHAKE_FAILED''"
| "error_name ProxyAuthRequired = ''PROXY_AUTH_REQUIRED''"
| "error_name NotFound = ''NOT_FOUND''"
| "error_name DaemonDisconnected = ''DAEMON_DISCONNECTED''"

text \<open>\<open>format_as\<close> (and the stream insertion and formatter kept in lockstep with it).\<close>

definition format_as :: "ErrorInfo \<Rightarrow> string" where
  "format_as e = (if err_detail e \<noteq> [] then error_name (err_code e) @ '': '' @ err_detail e
                  else error_name (err_code e))"

section \<open>OutputBuffer\<close>

text \<open>
  A window over caller-owned memory: \<open>ob_base\<close> is the region of \<open>ob_cap\<close> bytes behind the
  pointer, \<open>ob_len\<close> the number committed.
\<close>

record OutputBuffer =
  ob_base :: bytes
  ob_cap :: nat
  ob_len :: nat

definition ob_make :: "bytes \<Rightarrow> OutputBuffer" where
  "ob_make mem = \<lparr>ob_base = mem, ob_cap = length mem, ob_len = 0\<rparr>"

definition blit :: "'a list \<Rightarrow> nat \<Rightarrow> 'a list \<Rightarrow> 'a list" where
  "blit mem off src = take off mem @ src @ drop (off + length src) mem"

definition append_ob :: "OutputBuffer \<Rightarrow> bytes \<Rightarrow> (ErrorInfo, unit) expected \<times> OutputBuffer" where
  "append_ob b src =
     (if length src > ob_cap b - ob_len b
      then (Inl (ErrorInfo BufferFull ''OutputBuffer::append: capacity exceeded''), b)
      else if src \<noteq> []
      then (Inr (), b\<lparr>ob_base := blit (ob_base b) (ob_len b) src, ob_len := ob_len b + length src\<rparr>)
      else (Inr (), b))"

definition reserve_ob :: "OutputBuffer \<Rightarrow> nat \<Rightarrow> (ErrorInfo, unit) expected" where
  "reserve_ob b n =
     (if n > ob_cap b - ob_len b
      then Inl (ErrorInfo BufferFull ''OutputBuffer::reserve: insufficient capacity'')
      else Inr ())"

text \<open>\<open>writable_tail\<close> returns the offset of the tail in the region, or \<open>nullptr\<close>.\<close>

definition writable_tail :: "OutputBuffer \<Rightarrow> nat \<Rightarrow> nat option" where
  "writable_tail b n = (if n > ob_cap b - ob_len b then None else Some (ob_len b))"

definition commit_ob :: "OutputBuffer \<Rightarrow> nat \<Rightarrow> OutputBuffer" where
  "commit_ob b n = b\<lparr>ob_len := ob_len b + n\<rparr>"

definition available_ob :: "OutputBuffer \<Rightarrow> nat" where
  "available_ob b = ob_cap b - ob_len b"

definition ob_data :: "OutputBuffer \<Rightarrow> bytes" where
  "ob_data b = take (ob_len b) (ob_base b)"

definition ob_wf :: "OutputBuffer \<Rightarrow> bool" where
  "ob_wf b \<longleftrightarrow> length (ob_base b) = ob_cap b \<and> ob_len b \<le> ob_cap b"

lemma ob_make_wf [simp]: "ob_wf (ob_make mem)"
  by (simp add: ob_wf_def ob_make_def)

lemma ob_make_data [simp]: "ob_data (ob_make mem) = []"
  by (simp add: ob_data_def ob_make_def)

lemma ob_make_cap [simp]: "ob_cap (ob_make mem) = length mem" "ob_len (ob_make mem) = 0"
  by (simp_all add: ob_make_def)

lemma length_blit: "off + length src \<le> length mem \<Longrightarrow> length (blit mem off src) = length mem"
  by (simp add: blit_def)

lemma take_blit: "off + length src \<le> length mem \<Longrightarrow> take (off + length src) (blit mem off src) = take off mem @ src"
  by (simp add: blit_def)

lemma length_ob_data: "ob_wf b \<Longrightarrow> length (ob_data b) = ob_len b"
  by (simp add: ob_data_def ob_wf_def)

lemma append_ob_ok:
  assumes "ob_wf b" and "length src \<le> ob_cap b - ob_len b"
  shows "fst (append_ob b src) = Inr ()"
    and "ob_wf (snd (append_ob b src))"
    and "ob_data (snd (append_ob b src)) = ob_data b @ src"
    and "ob_cap (snd (append_ob b src)) = ob_cap b"
    and "ob_len (snd (append_ob b src)) = ob_len b + length src"
  using assms
  by (auto simp: append_ob_def ob_wf_def ob_data_def length_blit take_blit)

lemma append_ob_wf [inv_intros]: "ob_wf b \<Longrightarrow> ob_wf (snd (append_ob b src))"
proof (cases "length src \<le> ob_cap b - ob_len b")
  case True
  then show "ob_wf b \<Longrightarrow> ?thesis" by (simp add: append_ob_ok)
next
  case False
  then show "ob_wf b \<Longrightarrow> ?thesis" by (simp add: append_ob_def)
qed

lemma append_ob_err: "length src > ob_cap b - ob_len b \<Longrightarrow>
    append_ob b src = (Inl (ErrorInfo BufferFull ''OutputBuffer::append: capacity exceeded''), b)"
  by (simp add: append_ob_def)

section \<open>PacketView\<close>

text \<open>
  \<open>SpanPacketView\<close> (and, with the same operations, the kernel backend's \<open>SpanView\<close>): a
  moving window \<open>[head, tail)\<close> over a caller-owned buffer.
\<close>

record SpanPacketView =
  sv_base :: bytes
  sv_head :: nat
  sv_tail :: nat

definition sv_make :: "bytes \<Rightarrow> SpanPacketView" where
  "sv_make bs = \<lparr>sv_base = bs, sv_head = 0, sv_tail = length bs\<rparr>"

definition view_length :: "SpanPacketView \<Rightarrow> nat" where
  "view_length v = sv_tail v - sv_head v"

text \<open>The bytes behind \<open>data()\<close> for \<open>length()\<close> bytes.\<close>

definition view_data :: "SpanPacketView \<Rightarrow> bytes" where
  "view_data v = slice (sv_base v) (sv_head v) (view_length v)"

definition trim_front :: "nat \<Rightarrow> SpanPacketView \<Rightarrow> SpanPacketView" where
  "trim_front n v = v\<lparr>sv_head := sv_head v +
      (if n > sv_tail v - sv_head v then sv_tail v - sv_head v else n)\<rparr>"

definition trim_back :: "nat \<Rightarrow> SpanPacketView \<Rightarrow> SpanPacketView" where
  "trim_back n v = v\<lparr>sv_tail := sv_tail v -
      (if n > sv_tail v - sv_head v then sv_tail v - sv_head v else n)\<rparr>"

definition view_wf :: "SpanPacketView \<Rightarrow> bool" where
  "view_wf v \<longleftrightarrow> sv_head v \<le> sv_tail v \<and> sv_tail v \<le> length (sv_base v)"

lemma sv_make_wf [simp]: "view_wf (sv_make bs)"
  by (simp add: view_wf_def sv_make_def)

lemma sv_make_data [simp]: "view_data (sv_make bs) = bs" "view_length (sv_make bs) = length bs"
  by (simp_all add: view_data_def sv_make_def view_length_def slice_def)

lemma length_view_data [simp]: "view_wf v \<Longrightarrow> length (view_data v) = view_length v"
  by (auto simp: view_data_def view_wf_def view_length_def min_def)

lemma trim_front_wf [simp]: "view_wf v \<Longrightarrow> view_wf (trim_front n v)"
  by (auto simp: view_wf_def trim_front_def)

lemma trim_back_wf [simp]: "view_wf v \<Longrightarrow> view_wf (trim_back n v)"
  by (auto simp: view_wf_def trim_back_def)

lemma trim_front_length [simp]: "view_length (trim_front n v) = view_length v - n"
  by (simp add: view_length_def trim_front_def)

lemma trim_front_0 [simp]: "view_wf v \<Longrightarrow> trim_front 0 v = v"
  by (simp add: trim_front_def)

lemma trim_front_data [simp]: "view_wf v \<Longrightarrow> view_data (trim_front n v) = drop n (view_data v)"
  by (auto simp: view_data_def trim_front_def view_length_def view_wf_def slice_def
      drop_take add.commute)

lemma trim_back_data: "view_wf v \<Longrightarrow> view_data (trim_back n v) = take (view_length v - n) (view_data v)"
  by (auto simp: view_data_def trim_back_def view_length_def view_wf_def slice_def min_def add.commute)

lemma trims_none [inv_intros]: "view_wf v \<Longrightarrow> \<exists>n\<le>view_length v. v = trim_front n v"
  by (rule exI [of _ 0]) simp

lemma trims_some [inv_intros]: "n \<le> view_length v \<Longrightarrow> \<exists>m\<le>view_length v. trim_front n v = trim_front m v"
  by blast

text \<open>
  The window never escapes its buffer and an over-trim collapses it to empty: whatever
  \<open>n\<close>, \<open>trim_front\<close> drops exactly the first \<open>min n length()\<close> bytes of the window and
  \<open>trim_back\<close> exactly the last ones, and both keep \<open>head \<le> tail \<le> size\<close>.
\<close>

theorem packet_view_trim:
  assumes "view_wf v"
  shows "view_wf (trim_front n v) \<and> view_data (trim_front n v) = drop n (view_data v) \<and>
    view_wf (trim_back n v) \<and>
    view_data (trim_back n v) = take (view_length v - n) (view_data v) \<and>
    view_length (trim_front n v) = view_length v - n"
  using assms by (simp add: trim_back_data)

text \<open>
  \<open>OutputBuffer\<close> is an append-only bounded log: an append either fits, and then the committed
  bytes are the old ones followed by the new, or is refused with \<open>BufferFull\<close> and changes
  nothing; \<open>reserve\<close>, \<open>writable_tail\<close> and \<open>available\<close> agree with that outcome.
\<close>

theorem output_buffer_append:
  assumes "ob_wf b"
  shows "ob_wf (snd (append_ob b src)) \<and>
    (if length src \<le> available_ob b
     then fst (append_ob b src) = Inr () \<and> ob_data (snd (append_ob b src)) = ob_data b @ src
       \<and> available_ob (snd (append_ob b src)) = available_ob b - length src
       \<and> reserve_ob b (length src) = Inr () \<and> writable_tail b (length src) = Some (ob_len b)
     else (\<exists>d. fst (append_ob b src) = Inl (ErrorInfo BufferFull d)) \<and> snd (append_ob b src) = b
       \<and> writable_tail b (length src) = None)"
  using assms append_ob_ok [of b src]
  by (simp add: available_ob_def reserve_ob_def writable_tail_def append_ob_err append_ob_wf)

section \<open>The StreamCodec contract\<close>

text \<open>
  \<open>decode(view, out)\<close> of a codec in state \<open>'c\<close>: the result, the state, view and sink after.
  \<open>'k\<close> is what the call may draw from outside (the next WebSocket mask key; \<open>unit\<close> elsewhere).
\<close>

type_synonym ('k, 'c) decoder =
  "'k \<Rightarrow> 'c \<Rightarrow> SpanPacketView \<Rightarrow> OutputBuffer \<Rightarrow>
     (ErrorInfo, bytes option) expected \<times> 'c \<times> SpanPacketView \<times> OutputBuffer"

text \<open>
  What any receive loop may rely on: \<open>decode\<close> only advances the front of the view, keeps the
  sink well-formed and its capacity, and a result that consumed nothing and delivered nothing left the codec and
  the sink untouched ("need more bytes").
\<close>

locale stream_codec =
  fixes decode :: "('k, 'c) decoder"
  assumes decode_trims:
      "view_wf v \<Longrightarrow> decode k c v out = (r, c', v', out') \<Longrightarrow> \<exists>n\<le>view_length v. v' = trim_front n v"
    and decode_out_wf:
      "ob_wf out \<Longrightarrow> decode k c v out = (r, c', v', out') \<Longrightarrow> ob_wf out' \<and> ob_cap out' = ob_cap out"
    and decode_need_more:
      "view_wf v \<Longrightarrow> decode k c v out = (Inr None, c', v', out') \<Longrightarrow>
       view_length v' = view_length v \<Longrightarrow> c' = c \<and> out' = out"
begin

lemma decode_wf: "view_wf v \<Longrightarrow> decode k c v out = (r, c', v', out') \<Longrightarrow> view_wf v'"
  using decode_trims by fastforce

lemma decode_length: "view_wf v \<Longrightarrow> decode k c v out = (r, c', v', out') \<Longrightarrow> view_length v' \<le> view_length v"
  using decode_trims by fastforce

lemma decode_drop:
  assumes "view_wf v" and "decode k c v out = (r, c', v', out')"
  shows "view_data v' = drop (view_length v - view_length v') (view_data v)"
proof -
  obtain n where "n \<le> view_length v" "v' = trim_front n v"
    using decode_trims [OF assms] by blast
  with assms(1) show ?thesis by simp
qed

end

text \<open>
  A codec that finds its own message boundaries promises more: a verdict (a frame, a consumed
  control frame, an error) depends only on the bytes it has seen, so bytes that arrive later do
  not change it, and a delivered frame has consumed bytes.
\<close>

locale framing_codec = stream_codec decode for decode :: "('k, 'c) decoder" +
  assumes decode_stable:
      "view_wf v \<Longrightarrow> view_wf w \<Longrightarrow> view_data w = view_data v @ ys \<Longrightarrow>
       decode k c v out = (r, c', v', out') \<Longrightarrow>
       r \<noteq> Inr None \<or> view_length v' < view_length v \<Longrightarrow>
       decode k c w out = (r, c', trim_front (view_length v - view_length v') w, out')"
    and decode_progress:
      "view_wf v \<Longrightarrow> decode k c v out = (Inr (Some m), c', v', out') \<Longrightarrow> view_length v' < view_length v"
begin

lemma decode_same_data:
  assumes "view_wf v" "view_wf w" "view_data w = view_data v"
    and "decode k c v out = (r, c', v', out')" "r \<noteq> Inr None \<or> view_length v' < view_length v"
  shows "decode k c w out = (r, c', trim_front (view_length v - view_length v') w, out')"
  using decode_stable [of v w "[]"] assms by simp

end

end
