(* ===== verification/Framing.thy ===== *)
theory Framing
  imports Core_Codec
begin

text \<open>
  Message framers and the small codecs: the \<open>MessageFramer\<close> contract of
  \<^verbatim>\<open>core/framer_concept.hpp\<close> as the locale \<open>message_framer\<close>, the two-byte
  \<open>LengthPrefixFramer\<close>, the four-byte \<open>LengthPrefixCodec\<close>, and the pass-through
  \<open>RawStreamCodec\<close> and \<open>RawDatagramCodec\<close>.
\<close>

section \<open>MessageFramer\<close>

datatype FrameError = kIncomplete | kInvalidFormat | kPayloadTooLarge

text \<open>\<open>net::DecodedFrame\<close>; the zero-copy payload pointer is the bytes it points at.\<close>

record FramedMessage =
  fm_payload :: bytes
  fm_payload_len :: nat
  fm_msg_type :: u8
  fm_is_control :: bool
  fm_total_len :: nat

text \<open>Draining a receive buffer with a framer: the messages, and the bytes left over.\<close>

function parse_frames :: "(bytes \<Rightarrow> (FrameError, FramedMessage) expected) \<Rightarrow> bytes \<Rightarrow> FramedMessage list \<times> bytes" where
  "parse_frames dec bs =
     (case dec bs of
        Inl e \<Rightarrow> ([], bs)
      | Inr f \<Rightarrow> if 0 < fm_total_len f \<and> fm_total_len f \<le> length bs
                then (let (fs, rest) = parse_frames dec (drop (fm_total_len f) bs) in (f # fs, rest))
                else ([], bs))"
  by pat_completeness auto
termination
  by (relation "measure (\<lambda>(dec, bs). length bs)") auto

declare parse_frames.simps [simp del]

locale message_framer =
  fixes decode :: "bytes \<Rightarrow> (FrameError, FramedMessage) expected"
    and encode :: "bytes \<Rightarrow> bytes"
    and ok :: "bytes \<Rightarrow> bool"
  assumes total_len: "decode bs = Inr f \<Longrightarrow> 0 < fm_total_len f \<and> fm_total_len f \<le> length bs"
    and frame_stable: "decode bs = Inr f \<Longrightarrow> decode (bs @ ys) = Inr f"
    and error_stable: "decode bs = Inl e \<Longrightarrow> e \<noteq> kIncomplete \<Longrightarrow> decode (bs @ ys) = Inl e"
    and round_trip: "ok p \<Longrightarrow> \<exists>f. decode (encode p) = Inr f \<and> fm_payload f = p \<and> fm_total_len f = length (encode p)"
    and empty_incomplete: "decode [] = Inl kIncomplete"
begin

lemma parse_Cons:
  assumes "decode bs = Inr f"
  shows "parse_frames decode (bs @ ys) =
    (let (fs, rest) = parse_frames decode (drop (fm_total_len f) (bs @ ys)) in (f # fs, rest))"
  using frame_stable [OF assms, of ys] total_len [OF assms]
  by (subst parse_frames.simps) simp

text \<open>A pipelined burst of encoded messages comes apart into exactly the messages.\<close>

lemma parse_encoded:
  "list_all ok ps \<Longrightarrow>
   map fm_payload (fst (parse_frames decode (concat (map encode ps)))) = ps \<and>
   snd (parse_frames decode (concat (map encode ps))) = []"
proof (induction ps)
  case Nil
  show ?case by (subst (1 2) parse_frames.simps) (simp add: empty_incomplete)
next
  case (Cons p ps)
  then obtain f where f: "decode (encode p) = Inr f" "fm_payload f = p" "fm_total_len f = length (encode p)"
    using round_trip by fastforce
  with Cons show ?case
    using parse_Cons [OF f(1), of "concat (map encode ps)"]
    by (simp add: case_prod_unfold Let_def)
qed

text \<open>A message that has not arrived in full is never taken for anything else.\<close>

lemma prefix_incomplete:
  assumes "ok p" "encode p = q @ z" "z \<noteq> []"
  shows "decode q = Inl kIncomplete"
proof (cases "decode q")
  case (Inr f)
  from frame_stable [OF this, of z] total_len [OF this] round_trip [OF assms(1)] assms(2,3) show ?thesis by auto
next
  case (Inl e)
  from error_stable [OF this, of z] round_trip [OF assms(1)] assms(2) Inl show ?thesis by (cases "e = kIncomplete") auto
qed

text \<open>Where the burst is cut by the network does not matter.\<close>

lemma parse_chunks:
  "parse_frames decode xs = (fs, rest) \<Longrightarrow>
   parse_frames decode (xs @ ys) = (fs @ fst (parse_frames decode (rest @ ys)), snd (parse_frames decode (rest @ ys)))"
proof (induction "length xs" arbitrary: xs fs rule: less_induct)
  case less
  show ?case
  proof (cases "decode xs")
    case (Inl e)
    then have "fs = []" "rest = xs"
      using less.prems by (auto simp: parse_frames.simps [of decode xs])
    then show ?thesis by simp
  next
    case (Inr f)
    note bnd = total_len [OF Inr]
    let ?xs = "drop (fm_total_len f) xs"
    obtain fs' rest' where rec: "parse_frames decode ?xs = (fs', rest')" by fastforce
    with less.prems Inr bnd have eq: "fs = f # fs'" "rest = rest'"
      by (auto simp: parse_frames.simps [of decode xs])
    have "length ?xs < length xs" using bnd by auto
    from less.hyps [OF this rec [unfolded eq(2) [symmetric]]]
    have "parse_frames decode (?xs @ ys) =
        (fs' @ fst (parse_frames decode (rest @ ys)), snd (parse_frames decode (rest @ ys)))" .
    moreover have "parse_frames decode (xs @ ys) =
        (let (fs, rest) = parse_frames decode (?xs @ ys) in (f # fs, rest))"
      using parse_Cons [OF Inr, of ys] bnd by simp
    ultimately show ?thesis by (simp add: eq(1))
  qed
qed

end

section \<open>LengthPrefixFramer\<close>

text \<open>
  \<open>encode\<close> returns the number of bytes written, \<open>0\<close> for a refused payload; the model returns the
  bytes, so the refusal is the empty list. \<open>None\<close> is a null \<open>data\<close> pointer.
\<close>

definition lpf_encode :: "bytes option \<Rightarrow> bytes" where
  "lpf_encode data =
     (case data of
        None \<Rightarrow> []
      | Some p \<Rightarrow>
          let len = length p in
          if len > 65535 \<or> len = 0 then []
          else [ucast (drop_bit 8 (of_nat len :: u64)), ucast (of_nat len :: u64)] @ p)"

definition lpf_decode :: "bytes \<Rightarrow> (FrameError, FramedMessage) expected" where
  "lpf_decode data =
     (let len = length data in
      if len < 2 then Inl kIncomplete
      else
        let msg_len = be_u16 (byte_at data 0) (byte_at data 1) in
        if msg_len = 0 then Inl kInvalidFormat
        else if len < 2 + unat msg_len then Inl kIncomplete
        else Inr \<lparr>fm_payload = slice data 2 (unat msg_len), fm_payload_len = unat msg_len,
                  fm_msg_type = byte_at data 2, fm_is_control = False,
                  fm_total_len = 2 + unat msg_len\<rparr>)"

lemma lpf_encode_eq:
  "0 < length p \<Longrightarrow> length p \<le> 65535 \<Longrightarrow> lpf_encode (Some p) = be_bytes 2 (of_nat (length p)) @ p"
  by (simp add: lpf_encode_def numeral_2_eq_2 Let_def)

lemma unat_be_u16_bytes2: "unat w < 65536 \<Longrightarrow> unat (be_u16 (ucast (drop_bit 8 w)) (ucast (w :: u64))) = unat w"
  using be_nat_be_bytes [of 2 w] by (simp add: unat_be_u16 be_bytes_2)

lemma lpf_round_trip:
  assumes "0 < length p" "length p \<le> 65535"
  shows "lpf_decode (lpf_encode (Some p)) =
    Inr \<lparr>fm_payload = p, fm_payload_len = length p, fm_msg_type = hd p, fm_is_control = False,
         fm_total_len = 2 + length p\<rparr>"
proof -
  have u: "unat (of_nat (length p) :: u64) = length p"
    using assms by (simp add: unat_of_nat)
  then have m: "unat (be_u16 (ucast (drop_bit 8 (of_nat (length p) :: u64))) (ucast (of_nat (length p) :: u64))) = length p"
    using assms unat_be_u16_bytes2 [of "of_nat (length p)"] by simp
  with assms have "be_u16 (ucast (drop_bit 8 (of_nat (length p) :: u64))) (ucast (of_nat (length p) :: u64)) \<noteq> 0"
    by (metis unat_0 less_numeral_extra(3))
  with m show ?thesis
    using assms by (cases p) (auto simp: lpf_decode_def lpf_encode_eq be_bytes_2 byte_at_def slice_def)
qed

interpretation lpf: message_framer lpf_decode "\<lambda>p. lpf_encode (Some p)" "\<lambda>p. 0 < length p \<and> length p \<le> 65535"
proof
  fix bs ys f e p
  show "lpf_decode bs = Inr f \<Longrightarrow> 0 < fm_total_len f \<and> fm_total_len f \<le> length bs"
    by (auto simp: lpf_decode_def Let_def split: if_splits)
  have hd: "byte_at (bs @ ys) 0 = byte_at bs 0" "byte_at (bs @ ys) 1 = byte_at bs 1" if "\<not> length bs < 2"
    using that by (auto intro!: byte_at_append)
  show "lpf_decode (bs @ ys) = Inr f" if *: "lpf_decode bs = Inr f"
  proof -
    from * have l: "\<not> length bs < 2" "be_u16 (byte_at bs 0) (byte_at bs 1) \<noteq> 0"
        "2 + unat (be_u16 (byte_at bs 0) (byte_at bs 1)) \<le> length bs"
      by (auto simp: lpf_decode_def Let_def split: if_splits)
    then have "2 < length bs" by (metis unat_eq_zero add.right_neutral le_neq_implies_less less_le_trans linorder_not_less nat_add_left_cancel_less not_gr_zero)
    with * l hd [OF l(1)] show ?thesis by (simp add: lpf_decode_def Let_def byte_at_append slice_append)
  qed
  show "lpf_decode bs = Inl e \<Longrightarrow> e \<noteq> kIncomplete \<Longrightarrow> lpf_decode (bs @ ys) = Inl e"
    using hd by (auto simp: lpf_decode_def Let_def split: if_splits)
  show "0 < length p \<and> length p \<le> 65535 \<Longrightarrow> \<exists>f. lpf_decode (lpf_encode (Some p)) = Inr f \<and> fm_payload f = p \<and>
       fm_total_len f = length (lpf_encode (Some p))"
    using lpf_round_trip [of p] by (auto simp: lpf_encode_eq)
  show "lpf_decode [] = Inl kIncomplete"
    by (simp add: lpf_decode_def)
qed

text \<open>
  C40. Any burst of non-empty payloads of at most 65535 bytes, encoded back to back by
  \<open>LengthPrefixFramer::encode\<close> and then delivered with an arbitrary cut in the middle, is decoded
  into exactly those payloads in order, whatever the cut; nothing is left over.
\<close>

theorem length_prefix_pipeline:
  assumes "\<forall>p \<in> set ps. 0 < length p \<and> length p \<le> 65535"
    and "xs @ ys = concat (map (\<lambda>p. lpf_encode (Some p)) ps)"
    and "parse_frames lpf_decode xs = (fs, rest)"
    and "parse_frames lpf_decode (rest @ ys) = (gs, rest')"
  shows "map fm_payload (fs @ gs) = ps \<and> rest' = []"
proof -
  have "list_all (\<lambda>p. 0 < length p \<and> length p \<le> 65535) ps"
    using assms(1) by (simp add: list_all_iff)
  note all = lpf.parse_encoded [OF this]
  have "parse_frames lpf_decode (xs @ ys) = (fs @ gs, rest')"
    using lpf.parse_chunks [OF assms(3), of ys] assms(4) by simp
  then show ?thesis using all by (simp add: assms(2) [symmetric])
qed

theorem length_prefix_pipeline_witness:
  "map fm_payload (fst (parse_frames lpf_decode [0, 1]) @
      fst (parse_frames lpf_decode (snd (parse_frames lpf_decode [0, 1]) @ [65, 0, 2, 66, 67]))) = [[65], [66, 67]]"
proof -
  have enc: "[0, 1] @ [65, 0, 2, 66, 67] = concat (map (\<lambda>p. lpf_encode (Some p)) [[65], [66, 67]])"
    by (simp add: lpf_encode_def)
  show ?thesis
    using length_prefix_pipeline [OF _ enc, of "fst (parse_frames lpf_decode [0, 1])"
        "snd (parse_frames lpf_decode [0, 1])" "fst (parse_frames lpf_decode (snd (parse_frames lpf_decode [0, 1]) @ [65, 0, 2, 66, 67]))"
        "snd (parse_frames lpf_decode (snd (parse_frames lpf_decode [0, 1]) @ [65, 0, 2, 66, 67]))"] by simp
qed

section \<open>LengthPrefixCodec\<close>

definition lpc_kMaxFrameLen :: nat where
  "lpc_kMaxFrameLen = 16 * 1024 * 1024"

definition lpc_decode :: "(unit, unit) decoder" where
  "lpc_decode k c view out =
     (let avail = view_length view in
      if avail < 4 then (Inr None, c, view, out)
      else
        let p = view_data view;
            payload_len = be_u32 (byte_at p 0) (byte_at p 1) (byte_at p 2) (byte_at p 3) in
        if unat payload_len > lpc_kMaxFrameLen
        then (Inl (ErrorInfo CodecOverflow ''LengthPrefixCodec: frame length exceeds kMaxFrameLen''), c, view, out)
        else
          let needed = 4 + unat payload_len in
          if avail < needed then (Inr None, c, view, out)
          else (Inr (Some (slice p 4 (unat payload_len))), c, trim_front needed view, out))"

text \<open>\<open>encode\<close> into a buffer of \<open>cap\<close> bytes: the bytes written.\<close>

definition lpc_encode :: "nat \<Rightarrow> bytes \<Rightarrow> (ErrorInfo, bytes) expected" where
  "lpc_encode cap payload =
     (if length payload > lpc_kMaxFrameLen
      then Inl (ErrorInfo CodecOverflow ''LengthPrefixCodec: payload exceeds kMaxFrameLen'')
      else
        let needed = 4 + length payload in
        if needed > cap
        then Inl (ErrorInfo BufferFull ''LengthPrefixCodec::encode: destination buffer too small'')
        else Inr (u32_bytes (of_nat (length payload)) @ payload))"

interpretation lpc: framing_codec lpc_decode
proof
  fix v w ys k c out r c' v' out'
  show "view_wf v \<Longrightarrow> lpc_decode k c v out = (r, c', v', out') \<Longrightarrow> \<exists>n\<le>view_length v. v' = trim_front n v"
    by (auto simp: lpc_decode_def Let_def split: if_splits intro: inv_intros)
  show "ob_wf out \<Longrightarrow> lpc_decode k c v out = (r, c', v', out') \<Longrightarrow> ob_wf out' \<and> ob_cap out' = ob_cap out"
    by (auto simp: lpc_decode_def Let_def split: if_splits)
  show "view_wf v \<Longrightarrow> lpc_decode k c v out = (Inr None, c', v', out') \<Longrightarrow>
      view_length v' = view_length v \<Longrightarrow> c' = c \<and> out' = out"
    by (auto simp: lpc_decode_def Let_def split: if_splits)
  show "view_wf v \<Longrightarrow> lpc_decode k c v out = (Inr (Some m), c', v', out') \<Longrightarrow> view_length v' < view_length v" for m
    by (auto simp: lpc_decode_def Let_def split: if_splits)
  assume v: "view_wf v" and w: "view_wf w" and d: "view_data w = view_data v @ ys"
    and dec: "lpc_decode k c v out = (r, c', v', out')"
    and prog: "r \<noteq> Inr None \<or> view_length v' < view_length v"
  have len: "view_length w = view_length v + length ys"
    using length_view_data [OF w] length_view_data [OF v] d by simp
  show "lpc_decode k c w out = (r, c', trim_front (view_length v - view_length v') w, out')"
    using dec prog v w length_view_data [OF v]
    by (auto simp: lpc_decode_def Let_def d len byte_at_append slice_append split: if_splits)
qed

text \<open>
  \<open>LengthPrefixCodec\<close>: what \<open>encode\<close> wrote, followed by anything, decodes to the payload and
  consumes exactly the frame; \<open>encode\<close> refuses exactly payloads over 16 MiB (\<open>CodecOverflow\<close>) and
  buffers that are too small (\<open>BufferFull\<close>).
\<close>

theorem length_prefix_codec_round_trip:
  assumes "lpc_encode cap payload = Inr wire"
  shows "length wire = 4 + length payload \<and> length wire \<le> cap \<and>
    lpc_decode k c (sv_make (wire @ rest)) out =
      (Inr (Some payload), c, trim_front (length wire) (sv_make (wire @ rest)), out) \<and>
    view_data (trim_front (length wire) (sv_make (wire @ rest))) = rest"
proof -
  from assms have le: "length payload \<le> lpc_kMaxFrameLen" and cap: "4 + length payload \<le> cap"
    and wire: "wire = u32_bytes (of_nat (length payload)) @ payload"
    by (auto simp: lpc_encode_def Let_def split: if_splits)
  have "unat (of_nat (length payload) :: u32) = length payload"
    using le by (simp add: lpc_kMaxFrameLen_def unat_of_nat)
  then show ?thesis
    using le cap wire
    by (simp add: lpc_decode_def Let_def be_u32_at slice_append_skip)
qed

section \<open>Raw codecs\<close>

definition raw_decode :: "(unit, unit) decoder" where
  "raw_decode k c view out =
     (let n = view_length view in
      if n = 0 then (Inr None, c, view, out)
      else (Inr (Some (view_data view)), c, trim_front n view, out))"

definition raw_encode :: "nat \<Rightarrow> bytes \<Rightarrow> (ErrorInfo, bytes) expected" where
  "raw_encode cap payload =
     (if length payload > cap
      then Inl (ErrorInfo BufferFull ''RawStreamCodec::encode: destination buffer too small'')
      else Inr payload)"

interpretation raw: stream_codec raw_decode
proof
  fix v k c out r c' v' out'
  show "view_wf v \<Longrightarrow> raw_decode k c v out = (r, c', v', out') \<Longrightarrow> \<exists>n\<le>view_length v. v' = trim_front n v"
    by (auto simp: raw_decode_def Let_def split: if_splits intro: inv_intros)
  show "ob_wf out \<Longrightarrow> raw_decode k c v out = (r, c', v', out') \<Longrightarrow> ob_wf out' \<and> ob_cap out' = ob_cap out"
    by (auto simp: raw_decode_def Let_def split: if_splits)
  show "view_wf v \<Longrightarrow> raw_decode k c v out = (Inr None, c', v', out') \<Longrightarrow>
      view_length v' = view_length v \<Longrightarrow> c' = c \<and> out' = out"
    by (auto simp: raw_decode_def Let_def split: if_splits)
qed

text \<open>
  \<open>RawDatagramCodec::decode\<close>: the result, the frames handed to \<open>sink\<close> and the datagram window
  after; \<open>has_sink\<close> is whether the \<open>std::function\<close> is non-empty.
\<close>

definition rawd_decode ::
    "SpanPacketView \<Rightarrow> bool \<Rightarrow> (ErrorInfo, nat) expected \<times> bytes list \<times> SpanPacketView" where
  "rawd_decode dgram has_sink =
     (let n = view_length dgram in
      if n = 0 then (Inl (ErrorInfo CodecBad ''RawDatagramCodec: empty datagram''), [], dgram)
      else
        let frame = view_data dgram;
            dgram = trim_front n dgram in
        if \<not> has_sink
        then (Inl (ErrorInfo InvalidConfig ''RawDatagramCodec::decode: sink is empty''), [], dgram)
        else (Inr 1, [frame], dgram))"

definition rawd_encode :: "nat \<Rightarrow> bytes \<Rightarrow> (ErrorInfo, bytes) expected" where
  "rawd_encode cap payload =
     (if length payload > cap
      then Inl (ErrorInfo BufferFull ''RawDatagramCodec::encode: destination buffer too small'')
      else Inr payload)"

end
