(* ===== verification/Ws_Wire.thy ===== *)
theory Ws_Wire
  imports Core_Codec
begin

text \<open>
  The WebSocket wire layer (RFC 6455), \<^verbatim>\<open>eph-net/include/eph/net/detail/websocket.hpp\<close>:
  opcodes and close codes, the optimised masking loops, the frame encoder and decoder, the control
  frame builders and the mask key cache. A masked write returns the bytes it put into the output
  buffer; a refusal (return value 0) is the empty list. The mask key, which the code draws from
  \<open>getrandom(2)\<close>, is an argument. The lemmas show that the blockwise masking loops compute the
  octet-wise masking of the RFC, that the decoder inverts the encoder, accepts only canonical
  frames and never changes its mind when more bytes arrive.
\<close>

section \<open>Constants\<close>

definition kContinuation :: u8 where [simp]: "kContinuation = 0x0"
definition kText :: u8 where [simp]: "kText = 0x1"
definition kBinary :: u8 where [simp]: "kBinary = 0x2"
definition kClose :: u8 where [simp]: "kClose = 0x8"
definition kPing :: u8 where [simp]: "kPing = 0x9"
definition kPong :: u8 where [simp]: "kPong = 0xA"

definition kNormal :: u16 where "kNormal = 1000"
definition kGoingAway :: u16 where "kGoingAway = 1001"
definition kProtocolError :: u16 where "kProtocolError = 1002"
definition kUnsupportedData :: u16 where "kUnsupportedData = 1003"
definition kAbnormalClosure :: u16 where "kAbnormalClosure = 1006"
definition kInvalidPayload :: u16 where "kInvalidPayload = 1007"
definition kPolicyViolation :: u16 where "kPolicyViolation = 1008"
definition kMessageTooBig :: u16 where "kMessageTooBig = 1009"
definition kMandatoryExtension :: u16 where "kMandatoryExtension = 1010"
definition kInternalError :: u16 where "kInternalError = 1011"

definition kFinBit :: u8 where [simp]: "kFinBit = 0x80"
definition kMaskBit :: u8 where [simp]: "kMaskBit = 0x80"
definition kMaxFrameHeaderLen :: nat where "kMaxFrameHeaderLen = 14"
definition kMaxPayloadLen :: u64 where "kMaxPayloadLen = push_bit 63 1 - 1"
definition kMaxControlPayloadLen :: nat where "kMaxControlPayloadLen = 125"

definition opcode_name :: "u8 \<Rightarrow> string" where
  "opcode_name op =
     (if op = kContinuation then ''CONTINUATION''
      else if op = kText then ''TEXT''
      else if op = kBinary then ''BINARY''
      else if op = kClose then ''CLOSE''
      else if op = kPing then ''PING''
      else if op = kPong then ''PONG''
      else
        let buf = to_chars 16 (unat op) in
        ''UNKNOWN(0x'' @ (if length buf < 2 then ''0'' else []) @ buf @ '')'')"

definition close_code_name :: "u16 \<Rightarrow> string" where
  "close_code_name code =
     (if code = kNormal then ''NORMAL_CLOSURE''
      else if code = kGoingAway then ''GOING_AWAY''
      else if code = kProtocolError then ''PROTOCOL_ERROR''
      else if code = kUnsupportedData then ''UNSUPPORTED_DATA''
      else if code = kAbnormalClosure then ''ABNORMAL_CLOSURE''
      else if code = kInvalidPayload then ''INVALID_PAYLOAD''
      else if code = kPolicyViolation then ''POLICY_VIOLATION''
      else if code = kMessageTooBig then ''MESSAGE_TOO_BIG''
      else if code = kMandatoryExtension then ''MANDATORY_EXTENSION''
      else if code = kInternalError then ''INTERNAL_ERROR''
      else
        (if code \<ge> 3000 \<and> code \<le> 3999 then ''REGISTERED(''
         else if code \<ge> 4000 \<and> code \<le> 4999 then ''PRIVATE(''
         else ''UNKNOWN('') @ to_chars 10 (unat code) @ '')'')"

definition is_valid_close_code :: "u16 \<Rightarrow> bool" where
  "is_valid_close_code code \<longleftrightarrow>
     (if code \<ge> 1000 \<and> code \<le> 1003 then True
      else if code \<ge> 1007 \<and> code \<le> 1011 then True
      else if code \<ge> 3000 \<and> code \<le> 4999 then True
      else False)"

datatype DecodeError =
    kIncomplete | kReservedBits | kFragmentedControl | kControlPayloadTooLarge
  | kInvalidOpcode | kInvalidLengthEncoding | kInvalidCloseFrame

text \<open>The section sign of the messages, in UTF-8.\<close>

abbreviation section_sign :: string where
  "section_sign \<equiv> [CHR 0xC2, CHR 0xA7]"

fun decode_error_name :: "DecodeError \<Rightarrow> string" where
  "decode_error_name kIncomplete = ''incomplete''"
| "decode_error_name kReservedBits = ''non-zero RSV bits without negotiated extension''"
| "decode_error_name kFragmentedControl = ''fragmented control frame''"
| "decode_error_name kControlPayloadTooLarge = ''control frame payload exceeds 125 bytes''"
| "decode_error_name kInvalidOpcode = ''reserved opcode (RFC 6455 '' @ section_sign @ ''5.2)''"
| "decode_error_name kInvalidLengthEncoding = ''invalid extended length encoding (RFC 6455 '' @ section_sign @ ''5.2)''"
| "decode_error_name kInvalidCloseFrame = ''close frame payload must be 0 or >= 2 bytes (RFC 6455 '' @ section_sign @ ''5.5.1)''"

section \<open>Masking\<close>

text \<open>
  \<open>memcpy\<close> of four or eight bytes into an integer and back, on the little-endian targets the
  library supports.
\<close>

definition load32 :: "bytes \<Rightarrow> u32" where
  "load32 bs = be_u32 (byte_at bs 3) (byte_at bs 2) (byte_at bs 1) (byte_at bs 0)"

definition store32 :: "u32 \<Rightarrow> bytes" where
  "store32 w = rev (u32_bytes w)"

text \<open>\<open>apply_mask\<close>: whole 32-bit blocks in place, then the byte tail.\<close>

function mask_blocks32 :: "u32 \<Rightarrow> nat \<Rightarrow> bytes \<Rightarrow> nat \<times> bytes" where
  "mask_blocks32 mask32 i data =
     (if i + 4 \<le> length data
      then mask_blocks32 mask32 (i + 4) (blit data i (store32 (load32 (slice data i 4) XOR mask32)))
      else (i, data))"
  by pat_completeness auto
termination
  by (relation "measure (\<lambda>(m, i, data). length data - i)") (auto simp: length_blit store32_def)

function mask_tail :: "bytes \<Rightarrow> nat \<Rightarrow> bytes \<Rightarrow> bytes" where
  "mask_tail key i data =
     (if i < length data then mask_tail key (i + 1) (data[i := data ! i XOR byte_at key (i AND 3)])
      else data)"
  by pat_completeness auto
termination
  by (relation "measure (\<lambda>(m, i, data). length data - i)") auto

declare mask_blocks32.simps [simp del] mask_tail.simps [simp del]

definition apply_mask :: "bytes \<Rightarrow> bytes \<Rightarrow> bytes" where
  "apply_mask data key =
     (let (i, data) = mask_blocks32 (load32 key) 0 data in mask_tail key i data)"

text \<open>
  \<open>masked_copy\<close>: 64-bit blocks, at most one 32-bit block, then the byte tail, reading \<open>src\<close> and
  writing \<open>dst\<close> (the accumulator holds what has been written so far).
\<close>

function copy_blocks64 :: "u64 \<Rightarrow> bytes \<Rightarrow> nat \<Rightarrow> bytes \<Rightarrow> nat \<times> bytes" where
  "copy_blocks64 mask64 src i dst =
     (if i + 8 \<le> length src
      then copy_blocks64 mask64 src (i + 8) (dst @ le_bytes 8 (le_val (slice src i 8) XOR mask64))
      else (i, dst))"
  by pat_completeness auto
termination
  by (relation "measure (\<lambda>(m, src, i, dst). length src - i)") auto

function copy_tail :: "bytes \<Rightarrow> bytes \<Rightarrow> nat \<Rightarrow> bytes \<Rightarrow> bytes" where
  "copy_tail key src i dst =
     (if i < length src then copy_tail key src (i + 1) (dst @ [src ! i XOR byte_at key (i AND 3)])
      else dst)"
  by pat_completeness auto
termination
  by (relation "measure (\<lambda>(m, src, i, dst). length src - i)") auto

declare copy_blocks64.simps [simp del] copy_tail.simps [simp del]

definition masked_copy :: "bytes \<Rightarrow> bytes \<Rightarrow> bytes" where
  "masked_copy src key =
     (let mask32 = load32 key;
          mask64 = push_bit 32 (ucast mask32) OR ucast mask32;
          (i, dst) = copy_blocks64 mask64 src 0 [];
          (i, dst) = (if i + 4 \<le> length src
                      then (i + 4, dst @ store32 (load32 (slice src i 4) XOR mask32))
                      else (i, dst))
      in copy_tail key src i dst)"

section \<open>Encoder\<close>

definition encode_frame_header :: "u8 \<Rightarrow> u64 \<Rightarrow> bool \<Rightarrow> bytes \<Rightarrow> bytes" where
  "encode_frame_header opcode_val payload_len fin mask_key =
     (if payload_len > kMaxPayloadLen then []
      else if opcode_val AND 0x08 \<noteq> 0 \<and> unat payload_len > kMaxControlPayloadLen then []
      else
        [(if fin then kFinBit else 0) OR (opcode_val AND 0x0F)] @
        (if payload_len < 126 then [kMaskBit OR ucast payload_len]
         else if payload_len \<le> 65535
         then [kMaskBit OR 126, ucast (drop_bit 8 payload_len), ucast (payload_len AND 0xFF)]
         else (kMaskBit OR 127) # be_bytes 8 payload_len) @
        take 4 mask_key)"

definition is_valid_payload_len :: "u8 \<Rightarrow> u64 \<Rightarrow> bool" where
  "is_valid_payload_len opcode_val payload_len \<longleftrightarrow>
     (if payload_len > kMaxPayloadLen then False
      else if opcode_val AND 0x08 \<noteq> 0 \<and> unat payload_len > kMaxControlPayloadLen then False
      else True)"

definition frame_header_size :: "u64 \<Rightarrow> nat" where
  "frame_header_size payload_len =
     (if payload_len < 126 then 2 + 4
      else if payload_len \<le> 65535 then 2 + 2 + 4
      else 2 + 8 + 4)"

definition SIZE_MAX :: nat where
  "SIZE_MAX = 2 ^ 64 - 1"

definition total_frame_size :: "u64 \<Rightarrow> nat" where
  "total_frame_size payload_len =
     (let header = frame_header_size payload_len in
      if unat payload_len > SIZE_MAX - header then SIZE_MAX
      else header + unat payload_len)"

definition encode_frame :: "bytes \<Rightarrow> u8 \<Rightarrow> bytes \<Rightarrow> bool \<Rightarrow> bytes" where
  "encode_frame mask_key opcode_val payload fin =
     (let header = encode_frame_header opcode_val (of_nat (length payload)) fin mask_key in
      if header = [] then []
      else if payload \<noteq> [] then header @ masked_copy payload mask_key
      else header)"

section \<open>Decoder\<close>

record DecodedFrame =
  df_opcode :: u8
  df_fin :: bool
  df_rsv1 :: bool
  df_masked :: bool
  df_payload_len :: u64
  df_payload :: bytes
  df_mask_key :: bytes
  df_total_len :: nat

definition is_control :: "DecodedFrame \<Rightarrow> bool" where
  "is_control f \<longleftrightarrow> df_opcode f AND 0x08 \<noteq> 0"

definition is_data :: "DecodedFrame \<Rightarrow> bool" where
  "is_data f \<longleftrightarrow> df_opcode f = kText \<or> df_opcode f = kBinary \<or> df_opcode f = kContinuation"

definition is_ping :: "DecodedFrame \<Rightarrow> bool" where
  "is_ping f \<longleftrightarrow> df_opcode f = kPing"

definition is_pong :: "DecodedFrame \<Rightarrow> bool" where
  "is_pong f \<longleftrightarrow> df_opcode f = kPong"

definition is_close :: "DecodedFrame \<Rightarrow> bool" where
  "is_close f \<longleftrightarrow> df_opcode f = kClose"

definition close_status_code :: "DecodedFrame \<Rightarrow> u16" where
  "close_status_code f =
     (if df_opcode f \<noteq> kClose \<or> df_payload_len f < 2 then 0
      else
        let b0 = byte_at (df_payload f) 0; b1 = byte_at (df_payload f) 1;
            b0 = (if df_masked f then b0 XOR byte_at (df_mask_key f) 0 else b0);
            b1 = (if df_masked f then b1 XOR byte_at (df_mask_key f) 1 else b1)
        in push_bit 8 (ucast b0) OR ucast b1)"

definition close_reason :: "DecodedFrame \<Rightarrow> bytes" where
  "close_reason f = (if df_opcode f \<noteq> kClose \<or> df_payload_len f \<le> 2 then [] else drop 2 (df_payload f))"

definition close_reason_unmasked :: "DecodedFrame \<Rightarrow> bytes" where
  "close_reason_unmasked f =
     (if df_opcode f \<noteq> kClose \<or> df_payload_len f \<le> 2 then []
      else
        let result = drop 2 (df_payload f) in
        if df_masked f
        then map (\<lambda>i. result ! i XOR byte_at (df_mask_key f) ((i + 2) AND 3)) [0..<length result]
        else result)"

text \<open>The extended length field: the payload length and the position after it.\<close>

definition decode_len :: "bytes \<Rightarrow> u8 \<Rightarrow> (DecodeError, u64 \<times> nat) expected" where
  "decode_len wire len_byte =
     (let len = length wire; pos = 2 in
      if len_byte < 126 then Inr (ucast len_byte, pos)
      else if len_byte = 126 then
        if len < pos + 2 then Inl kIncomplete
        else
          let n = push_bit 8 (ucast (byte_at wire pos)) OR ucast (byte_at wire (pos + 1)) in
          if n < 126 then Inl kInvalidLengthEncoding else Inr (n, pos + 2)
      else
        if len < pos + 8 then Inl kIncomplete
        else
          let n = be_val (slice wire pos 8) in
          if n > kMaxPayloadLen then Inl kInvalidLengthEncoding
          else if n \<le> 65535 then Inl kInvalidLengthEncoding
          else Inr (n, pos + 8))"

text \<open>The protocol checks after the frame is known to be complete.\<close>

definition check_frame :: "DecodedFrame \<Rightarrow> (DecodeError, DecodedFrame) expected" where
  "check_frame f =
     (if (df_opcode f \<ge> 0x3 \<and> df_opcode f \<le> 0x7) \<or> (df_opcode f \<ge> 0xB \<and> df_opcode f \<le> 0xF)
      then Inl kInvalidOpcode
      else if df_opcode f AND 0x08 \<noteq> 0 then
        if \<not> df_fin f then Inl kFragmentedControl
        else if df_payload_len f > 125 then Inl kControlPayloadTooLarge
        else if df_opcode f = kClose \<and> df_payload_len f = 1 then Inl kInvalidCloseFrame
        else Inr f
      else Inr f)"

definition decode_frame :: "bytes \<Rightarrow> bool \<Rightarrow> (DecodeError, DecodedFrame) expected" where
  "decode_frame wire allow_rsv1 =
     (let len = length wire in
      if len < 2 then Inl kIncomplete
      else
        let b0 = byte_at wire 0;
            rsv_bits = b0 AND 0x70;
            allowed_mask = (if allow_rsv1 then 0x40 else 0x00) in
        if rsv_bits \<noteq> 0 \<and> rsv_bits AND NOT allowed_mask \<noteq> 0 then Inl kReservedBits
        else
          let b1 = byte_at wire 1;
              msk = (b1 AND kMaskBit \<noteq> 0) in
          case decode_len wire (b1 AND 0x7F) of
            Inl e \<Rightarrow> Inl e
          | Inr (plen, pos) \<Rightarrow>
              if msk \<and> len < pos + 4 then Inl kIncomplete
              else
                let key = (if msk then slice wire pos 4 else [0, 0, 0, 0]);
                    pos = (if msk then pos + 4 else pos) in
                if pos > len \<or> unat plen > len - pos then Inl kIncomplete
                else check_frame
                  \<lparr>df_opcode = b0 AND 0x0F, df_fin = (b0 AND kFinBit \<noteq> 0), df_rsv1 = (rsv_bits \<noteq> 0),
                   df_masked = msk, df_payload_len = plen, df_payload = slice wire pos (unat plen),
                   df_mask_key = key, df_total_len = pos + unat plen\<rparr>)"

section \<open>Control frame builders and templates\<close>

definition build_close_frame :: "bytes \<Rightarrow> u16 \<Rightarrow> bytes \<Rightarrow> bytes" where
  "build_close_frame mask_key status_code reason =
     (let reason_len = min (length reason) 123;
          close_payload = [ucast (drop_bit 8 status_code), ucast (status_code AND 0xFF)] @ take reason_len reason
      in encode_frame mask_key kClose close_payload True)"

definition build_pong_frame :: "bytes \<Rightarrow> bytes option \<Rightarrow> bytes" where
  "build_pong_frame mask_key ping_payload =
     (case ping_payload of
        None \<Rightarrow> encode_frame mask_key kPong [] True
      | Some p \<Rightarrow> encode_frame mask_key kPong p True)"

definition build_ping_frame :: "bytes \<Rightarrow> bytes option \<Rightarrow> bytes" where
  "build_ping_frame mask_key ping_payload =
     (case ping_payload of
        None \<Rightarrow> encode_frame mask_key kPing [] True
      | Some p \<Rightarrow> encode_frame mask_key kPing p True)"

record FrameTemplate =
  ft_opcode_val :: u8
  ft_fin :: bool

definition template_encode :: "FrameTemplate \<Rightarrow> bytes \<Rightarrow> bytes \<Rightarrow> bytes" where
  "template_encode t mask_key p = encode_frame mask_key (ft_opcode_val t) p (ft_fin t)"

definition for_binary :: FrameTemplate where
  "for_binary = \<lparr>ft_opcode_val = kBinary, ft_fin = True\<rparr>"

definition for_text :: FrameTemplate where
  "for_text = \<lparr>ft_opcode_val = kText, ft_fin = True\<rparr>"

section \<open>Mask key cache\<close>

text \<open>
  \<open>MaskKeyCache\<close>: \<open>mc_calls\<close> counts the \<open>getrandom\<close> calls made; \<open>rnd i\<close> is what the \<open>i\<close>-th call
  wrote to the front of the pool (a short result, which is a failed attempt, leaves the rest as it was). \<open>None\<close> is \<open>std::abort\<close>.
\<close>

definition kPoolSize :: nat where
  "kPoolSize = 1024"

record MaskKeyCache =
  mc_pool :: bytes
  mc_pos :: nat
  mc_calls :: nat

fun refill_attempt :: "(nat \<Rightarrow> bytes) \<Rightarrow> nat \<Rightarrow> MaskKeyCache \<Rightarrow> MaskKeyCache option" where
  "refill_attempt rnd 0 c = None"
| "refill_attempt rnd (Suc left) c =
     (let got = rnd (mc_calls c);
          c = c\<lparr>mc_calls := mc_calls c + 1, mc_pool := take (kPoolSize * 4) (got @ drop (length got) (mc_pool c))\<rparr> in
      if length got = kPoolSize * 4 then Some (c\<lparr>mc_pos := 0\<rparr>)
      else refill_attempt rnd left c)"

definition refill :: "(nat \<Rightarrow> bytes) \<Rightarrow> MaskKeyCache \<Rightarrow> MaskKeyCache option" where
  "refill rnd c = refill_attempt rnd 3 c"

text \<open>The constructor fills the pool.\<close>

definition mk_MaskKeyCache :: "(nat \<Rightarrow> bytes) \<Rightarrow> MaskKeyCache option" where
  "mk_MaskKeyCache rnd = refill rnd \<lparr>mc_pool = replicate (kPoolSize * 4) 0, mc_pos = 0, mc_calls = 0\<rparr>"

definition next_key :: "(nat \<Rightarrow> bytes) \<Rightarrow> MaskKeyCache \<Rightarrow> (bytes \<times> MaskKeyCache) option" where
  "next_key rnd c =
     (case (if mc_pos c \<ge> kPoolSize then refill rnd c else Some c) of
        None \<Rightarrow> None
      | Some c \<Rightarrow> Some (slice (mc_pool c) (mc_pos c * 4) 4, c\<lparr>mc_pos := mc_pos c + 1\<rparr>))"

section \<open>Masking is octet-wise\<close>

section \<open>Masking\<close>

lemma be_u32_xor: "be_u32 a b c d XOR be_u32 e f g h = be_u32 (a XOR e) (b XOR f) (c XOR g) (d XOR h)"
  by (rule bit_eqI) (auto simp: be_u32_def bit_simps)

lemma list4_cases:
  assumes "length xs = 4"
  obtains a b c d where "xs = [a, b, c, d]"
  using assms by (auto simp: numeral_eq_Suc length_Suc_conv)

lemma store32_xor:
  assumes "length xs = 4" "length ys = 4"
  shows "store32 (load32 xs XOR load32 ys) = map2 (XOR) xs ys"
proof -
  obtain a b c d where x: "xs = [a, b, c, d]" using assms(1) by (rule list4_cases)
  obtain e f g h where y: "ys = [e, f, g, h]" using assms(2) by (rule list4_cases)
  show ?thesis
    by (simp add: x y store32_def load32_def byte_at_def be_u32_xor u32_bytes_be)
qed

lemma shift_or_xor:
  "(push_bit 8 (a :: u64) OR ucast (x :: u8)) XOR (push_bit 8 b OR ucast y) =
   push_bit 8 (a XOR b) OR ucast (x XOR y)"
  by (rule bit_eqI) (auto simp: bit_simps)

lemma be_val_xor: "length xs = length ys \<Longrightarrow> be_val xs XOR be_val ys = be_val (map2 (XOR) xs ys)"
proof (induction xs arbitrary: ys rule: rev_induct)
  case Nil
  then show ?case by (simp add: be_val_def)
next
  case (snoc x xs)
  then obtain y ys' where ys: "ys = ys' @ [y]"
    by (metis append_butlast_last_id length_0_conv snoc_eq_iff_butlast)
  with snoc.prems have len: "length xs = length ys'" by simp
  have step: "be_val (zs @ [z]) = push_bit 8 (be_val zs) OR ucast z" for zs z
    by (simp add: be_val_def)
  show ?case
    using snoc.IH [OF len] len by (simp add: ys step shift_or_xor)
qed

lemma le_xor:
  assumes "length xs = 8" "length ys = 8"
  shows "le_bytes 8 (le_val xs XOR le_val ys) = map2 (XOR) xs ys"
proof -
  have "be_bytes 8 (be_val (rev xs) XOR be_val (rev ys)) = map2 (XOR) (rev xs) (rev ys)"
    using assms by (simp add: be_val_xor be_bytes_be_val)
  then show ?thesis
    using assms by (simp add: le_bytes_def le_val_def rev_map [symmetric] zip_rev)
qed

lemma and3: "i AND 3 = i mod (4 :: nat)"
  using take_bit_eq_mask [of 2 i] by (simp add: take_bit_eq_mod mask_eq_exp_minus_1)

text \<open>The reference: RFC 6455 5.3, octet \<open>i\<close> of the data is XORed with octet \<open>i mod 4\<close> of the key.\<close>

definition mask_ref :: "bytes \<Rightarrow> bytes \<Rightarrow> bytes" where
  "mask_ref data key = map (\<lambda>i. data ! i XOR byte_at key (i mod 4)) [0..<length data]"

lemma length_mask_ref [simp]: "length (mask_ref data key) = length data"
  by (simp add: mask_ref_def)

lemma mask_ref_nth: "i < length data \<Longrightarrow> mask_ref data key ! i = data ! i XOR byte_at key (i mod 4)"
  by (simp add: mask_ref_def)

lemma mask_ref_block:
  assumes "i mod 4 = 0" "length key = 4" "i + 4 \<le> length data"
  shows "map2 (XOR) (slice data i 4) key = take 4 (drop i (mask_ref data key))"
proof (rule nth_equalityI)
  show "length (map2 (XOR) (slice data i 4) key) = length (take 4 (drop i (mask_ref data key)))"
    using assms by simp
  fix j assume "j < length (map2 (XOR) (slice data i 4) key)"
  then have j: "j < 4" using assms by simp
  then have "(i + j) mod 4 = j" using assms(1) by presburger
  with j assms show "map2 (XOR) (slice data i 4) key ! j = take 4 (drop i (mask_ref data key)) ! j"
    by (simp add: slice_def mask_ref_nth byte_at_def)
qed

lemma mask_blocks32_spec:
  "mask_blocks32 (load32 key) i data = (i', data') \<Longrightarrow> i mod 4 = 0 \<Longrightarrow> length key = 4 \<Longrightarrow>
   data = take i ref @ drop i data0 \<Longrightarrow> ref = mask_ref data0 key \<Longrightarrow> i \<le> length data0 \<Longrightarrow>
   i' \<le> length data0 \<and> data' = take i' ref @ drop i' data0"
proof (induction "load32 key" i data rule: mask_blocks32.induct)
  case (1 i data)
  have len: "length data = length data0" using "1.prems" by simp
  show ?case
  proof (cases "i + 4 \<le> length data")
    case True
    let ?blk = "store32 (load32 (slice data i 4) XOR load32 key)"
    have s: "slice data i 4 = slice data0 i 4"
      using "1.prems" by (simp add: slice_def)
    have blk: "?blk = take 4 (drop i ref)"
      unfolding s using True len "1.prems" store32_xor [of "slice data0 i 4" key] mask_ref_block [of i key data0]
      by simp
    have new: "blit data i ?blk = take (i + 4) ref @ drop (i + 4) data0"
      using True len "1.prems" unfolding blk by (simp add: blit_def take_add add.commute)
    have "mask_blocks32 (load32 key) (i + 4) (blit data i ?blk) = (i', data')"
      using "1.prems"(1) True by (simp add: mask_blocks32.simps [of _ i data])
    from "1.hyps" [OF True this _ "1.prems"(3) new "1.prems"(5)] "1.prems"(2) True len
    show ?thesis by simp
  next
    case False
    then have "mask_blocks32 (load32 key) i data = (i, data)" by (simp add: mask_blocks32.simps [of _ i data])
    with "1.prems" show ?thesis by simp
  qed
qed

lemma mask_tail_spec:
  "data = take i ref @ drop i data0 \<Longrightarrow> ref = mask_ref data0 key \<Longrightarrow> i \<le> length data0 \<Longrightarrow> mask_tail key i data = ref"
proof (induction key i data rule: mask_tail.induct)
  case (1 key i data)
  have len: "length data = length data0" using "1.prems" by simp
  show ?case
  proof (cases "i < length data")
    case True
    have "data ! i = data0 ! i" using True len "1.prems" by (simp add: nth_append)
    moreover have "ref ! i = data0 ! i XOR byte_at key (i mod 4)"
      using True len "1.prems" by (simp add: mask_ref_nth)
    ultimately have "data[i := data ! i XOR byte_at key (i AND 3)] = take (i + 1) ref @ drop (i + 1) data0"
      using True len "1.prems"
      by (simp add: and3 list_update_append take_Suc_conv_app_nth Cons_nth_drop_Suc [symmetric])
    from "1.IH" [OF True this "1.prems"(2)] True len
    have "mask_tail key (i + 1) (data[i := data ! i XOR byte_at key (i AND 3)]) = ref" by simp
    with True show ?thesis by (simp add: mask_tail.simps [of _ i data])
  next
    case False
    then have "mask_tail key i data = data" by (simp add: mask_tail.simps [of _ i data])
    with False "1.prems" len show ?thesis by simp
  qed
qed

lemma apply_mask_eq:
  assumes "length key = 4"
  shows "apply_mask data key = mask_ref data key"
proof -
  obtain i data' where b: "mask_blocks32 (load32 key) 0 data = (i, data')" by fastforce
  from mask_blocks32_spec [OF b _ assms, of "mask_ref data key" data]
  have "i \<le> length data" "data' = take i (mask_ref data key) @ drop i data" by simp_all
  then show ?thesis
    using mask_tail_spec [of data' i "mask_ref data key" data key] by (simp add: apply_mask_def b)
qed

lemma be_val_append: "be_val (xs @ ys) = be_val xs * 256 ^ length ys + be_val ys"
proof (induction ys rule: rev_induct)
  case Nil
  show ?case by (simp add: be_val_eq)
next
  case (snoc y ys)
  have "be_val (zs @ [z]) = be_val zs * 256 + ucast z" for zs z
    by (simp add: be_val_def shift8_or)
  from this [of "xs @ ys" y] this [of ys y] snoc show ?case by (simp add: algebra_simps)
qed

lemma mask64_eq:
  assumes "length key = 4"
  shows "push_bit 32 (ucast (load32 key)) OR ucast (load32 key) = le_val (key @ key)"
proof -
  obtain a b c d where k: "key = [a, b, c, d]" using assms by (rule list4_cases)
  let ?m = "load32 key"
  have m: "ucast ?m = be_val (rev key)"
    by (simp add: k load32_def byte_at_def ucast_be_u32)
  have "push_bit 32 (ucast ?m :: u64) AND ucast ?m = 0"
    by (rule bit_eqI) (auto simp: bit_simps dest: bit_imp_le_length)
  then have "push_bit 32 (ucast ?m :: u64) OR ucast ?m = push_bit 32 (ucast ?m) + ucast ?m"
    by (simp add: disjunctive_add_eq_or)
  also have "\<dots> = le_val (key @ key)"
    using assms by (simp add: m le_val_def be_val_append push_bit_eq_mult)
  finally show ?thesis .
qed

lemma copy_blocks64_spec:
  "copy_blocks64 (le_val (key @ key)) src i dst = (i', dst') \<Longrightarrow> i mod 4 = 0 \<Longrightarrow> length key = 4 \<Longrightarrow>
   dst = take i (mask_ref src key) \<Longrightarrow> i \<le> length src \<Longrightarrow>
   i' mod 4 = 0 \<and> i' \<le> length src \<and> dst' = take i' (mask_ref src key)"
proof (induction "le_val (key @ key)" src i dst rule: copy_blocks64.induct)
  case (1 src i dst)
  show ?case
  proof (cases "i + 8 \<le> length src")
    case True
    let ?blk = "le_bytes 8 (le_val (slice src i 8) XOR le_val (key @ key))"
    have i4: "(i + 4) mod 4 = 0" using "1.prems"(2) by presburger
    have sp: "slice src i 8 = slice src i 4 @ slice src (i + 4) 4"
      using take_add [of 4 4 "drop i src"] by (simp add: slice_def add.commute)
    have "?blk = map2 (XOR) (slice src i 8) (key @ key)"
      using True "1.prems"(3) by (intro le_xor) simp_all
    also have "\<dots> = take 4 (drop i (mask_ref src key)) @ take 4 (drop (i + 4) (mask_ref src key))"
      using True "1.prems"(2,3) i4 by (simp add: sp mask_ref_block [symmetric])
    also have "\<dots> = take 8 (drop i (mask_ref src key))"
      using take_add [of 4 4 "drop i (mask_ref src key)"] by (simp add: add.commute)
    finally have new: "dst @ ?blk = take (i + 8) (mask_ref src key)"
      using "1.prems"(4) by (simp add: take_add)
    have a: "copy_blocks64 (le_val (key @ key)) src (i + 8) (dst @ ?blk) = (i', dst')"
      using "1.prems"(1) True by (simp add: copy_blocks64.simps [of _ src i dst])
    have b: "(i + 8) mod 4 = 0" using "1.prems"(2) by presburger
    show ?thesis by (rule "1.hyps" [OF True a b "1.prems"(3) new True])
  next
    case False
    then have "copy_blocks64 (le_val (key @ key)) src i dst = (i, dst)"
      by (simp add: copy_blocks64.simps [of _ src i dst])
    with "1.prems" show ?thesis by simp
  qed
qed

lemma copy_tail_spec:
  "dst = take i (mask_ref src key) \<Longrightarrow> i \<le> length src \<Longrightarrow> copy_tail key src i dst = mask_ref src key"
proof (induction key src i dst rule: copy_tail.induct)
  case (1 key src i dst)
  show ?case
  proof (cases "i < length src")
    case True
    then have "dst @ [src ! i XOR byte_at key (i AND 3)] = take (i + 1) (mask_ref src key)"
      using "1.prems" by (simp add: take_Suc_conv_app_nth mask_ref_nth and3)
    from "1.IH" [OF True this] True show ?thesis
      by (simp add: copy_tail.simps [of _ src i dst])
  next
    case False
    then have "copy_tail key src i dst = dst" by (simp add: copy_tail.simps [of _ src i dst])
    with False "1.prems" show ?thesis by simp
  qed
qed

lemma masked_copy_eq:
  assumes "length key = 4"
  shows "masked_copy src key = mask_ref src key"
proof -
  obtain i dst where b: "copy_blocks64 (le_val (key @ key)) src 0 [] = (i, dst)" by fastforce
  from copy_blocks64_spec [OF b _ assms]
  have i: "i mod 4 = 0" "i \<le> length src" and dst: "dst = take i (mask_ref src key)" by simp_all
  have "dst @ store32 (load32 (slice src i 4) XOR load32 key) = take (i + 4) (mask_ref src key)"
    if "i + 4 \<le> length src"
    using that i assms mask_ref_block [of i key src] by (simp add: store32_xor dst take_add)
  then show ?thesis
    using i dst by (simp add: masked_copy_def mask64_eq [OF assms] b copy_tail_spec Let_def)
qed

lemma mask_ref_involution:
  "mask_ref (mask_ref data key) key = data"
  by (rule nth_equalityI) (simp_all add: mask_ref_nth xor.assoc)

section \<open>Header bytes\<close>

lemma and80_iff: "(b :: u8) AND 0x80 = 0 \<longleftrightarrow> \<not> bit b 7"
  using and_exp_eq_0_iff_not_bit [of b 7] by simp

lemma bit_80: "bit (0x80 :: int) n \<longleftrightarrow> n = 7"
proof -
  have "(0x80 :: int) = 2 ^ 7" by simp
  then show ?thesis by (simp only: bit_exp_iff) (auto simp: possible_bit_def)
qed

lemma unat_and7F: "unat ((x :: u8) AND 0x7F) = unat x mod 128"
proof -
  have "(0x7F :: u8) = mask 7" by (simp add: mask_eq_exp_minus_1)
  then show ?thesis
    by (simp only: take_bit_eq_mask [symmetric] unsigned_take_bit_eq) (simp add: take_bit_eq_mod)
qed

lemma and7F_eq: "(x :: u8) < 128 \<Longrightarrow> x AND 0x7F = x"
  by (simp add: word_unat_eq_iff unat_and7F word_less_nat_alt)

lemma and7F_less: "(x :: u8) AND 0x7F < 128"
  by (simp add: word_less_nat_alt unat_and7F)

lemma or80: "(0x80 OR x :: u8) AND 0x7F = x AND 0x7F" "(0x80 OR x :: u8) AND 0x80 \<noteq> 0"
  by (simp_all add: bit.conj_disj_distrib2 and80_iff bit_or_iff)

lemma b0_fields:
  fixes op :: u8
  shows "((if fin then 0x80 else 0) OR (op AND 0x0F)) AND 0x70 = 0"
    and "((if fin then 0x80 else 0) OR (op AND 0x0F)) AND 0x0F = op AND 0x0F"
    and "((if fin then 0x80 else 0) OR (op AND 0x0F)) AND 0x80 \<noteq> 0 \<longleftrightarrow> fin"
  by (auto simp: bit.conj_disj_distrib2 and.assoc)

lemma and_FF8: "(b :: u8) AND 0xFF = b"
proof -
  have "(0xFF :: u8) = - 1" by simp
  then show ?thesis by (simp only: and.right_neutral)
qed

lemma b0_rebuild:
  fixes b0 :: u8
  assumes "b0 AND 0x70 = 0"
  shows "(if b0 AND 0x80 \<noteq> 0 then 0x80 else 0) OR (b0 AND 0x0F AND 0x0F) = b0"
proof -
  have "(if b0 AND 0x80 \<noteq> 0 then 0x80 else 0) = b0 AND 0x80"
    by (rule bit_eqI) (auto simp: and80_iff bit_and_iff bit_80)
  then have "(if b0 AND 0x80 \<noteq> 0 then 0x80 else 0) OR (b0 AND 0x0F AND 0x0F) =
      (b0 AND 0x80) OR (b0 AND 0x0F) OR (b0 AND 0x70)"
    using assms by (simp add: and.assoc)
  also have "\<dots> = b0 AND (0x80 OR 0x0F OR 0x70)"
    by (simp only: bit.conj_disj_distrib)
  also have "\<dots> = b0" by (simp add: and_FF8)
  finally show ?thesis .
qed

lemma b1_rebuild: "(b1 :: u8) AND 0x80 \<noteq> 0 \<Longrightarrow> 0x80 OR (b1 AND 0x7F) = b1"
proof -
  assume "b1 AND 0x80 \<noteq> 0"
  then have "0x80 = b1 AND 0x80"
    by (intro bit_eqI) (auto simp: and80_iff bit_and_iff bit_80)
  then have "0x80 OR (b1 AND 0x7F) = (b1 AND 0x80) OR (b1 AND 0x7F)" by simp
  also have "\<dots> = b1 AND (0x80 OR 0x7F)" by (simp only: bit.conj_disj_distrib)
  also have "\<dots> = b1" by (simp add: and_FF8)
  finally show ?thesis .
qed

lemma and_FF64: "ucast (n AND 0xFF :: u64) = (ucast n :: u8)"
proof -
  have "(0xFF :: u64) = mask 8" by (simp add: mask_eq_exp_minus_1)
  then show ?thesis
    by (simp only: take_bit_eq_mask [symmetric]) (auto intro!: bit_eqI simp: bit_simps)
qed

section \<open>Decoder inversion\<close>

lemma kMaxPayloadLen_unat: "n \<le> kMaxPayloadLen \<longleftrightarrow> unat n < 2 ^ 63"
  by (simp add: kMaxPayloadLen_def word_le_nat_alt) linarith

lemma push8_or_be_val: "push_bit 8 (ucast (a :: u8)) OR ucast (b :: u8) = be_val [a, b]"
  by (simp add: be_val_def)

lemma slice2: "pos + 2 \<le> length xs \<Longrightarrow> slice xs pos 2 = [byte_at xs pos, byte_at xs (pos + 1)]"
  by (simp add: slice_def byte_at_def numeral_2_eq_2 take_Suc_conv_app_nth hd_drop_conv_nth)

lemma decode_len_Inr:
  assumes "decode_len wire lb = Inr (n, pos)"
  shows "(lb < 126 \<and> n = ucast lb \<and> pos = 2) \<or>
    (lb = 126 \<and> pos = 4 \<and> 4 \<le> length wire \<and> 126 \<le> n \<and> n \<le> 65535 \<and> be_bytes 2 n = slice wire 2 2) \<or>
    (126 < lb \<and> pos = 10 \<and> 10 \<le> length wire \<and> 65535 < n \<and> n \<le> kMaxPayloadLen \<and> be_bytes 8 n = slice wire 2 8)"
proof -
  consider "lb < 126" | "lb = 126" | "126 < lb" by fastforce
  then show ?thesis
  proof cases
    case 1
    with assms show ?thesis by (simp add: decode_len_def)
  next
    case 2
    with assms have l: "4 \<le> length wire" and n: "n = be_val (slice wire 2 2)" "126 \<le> n" and p: "pos = 4"
      by (auto simp: decode_len_def Let_def push8_or_be_val slice2 not_less split: if_splits)
    then have "unat n < 65536" using unat_be_val [of "slice wire 2 2"] be_nat_less [of "slice wire 2 2"] by simp
    then have "n \<le> 65535" by (simp add: word_le_nat_alt)
    moreover have "be_bytes 2 n = slice wire 2 2" using l n by (simp add: be_bytes_be_val)
    ultimately show ?thesis using 2 l n p by simp
  next
    case 3
    with assms have l: "10 \<le> length wire" and n: "n = be_val (slice wire 2 8)" "65535 < n" "n \<le> kMaxPayloadLen" and p: "pos = 10"
      by (auto simp: decode_len_def Let_def not_less split: if_splits)
    moreover have "be_bytes 8 n = slice wire 2 8" using l n by (simp add: be_bytes_be_val)
    ultimately show ?thesis using 3 by simp
  qed
qed

definition frame_ok :: "DecodedFrame \<Rightarrow> bool" where
  "frame_ok f \<longleftrightarrow>
     df_opcode f \<in> {kContinuation, kText, kBinary, kClose, kPing, kPong} \<and>
     (is_control f \<longrightarrow> df_fin f \<and> df_payload_len f \<le> 125 \<and> \<not> (df_opcode f = kClose \<and> df_payload_len f = 1))"

lemma u8_less_16: "(x :: u8) < 16 \<Longrightarrow> x \<in> {0, 1, 2, 3, 4, 5, 6, 7, 8, 9, 10, 11, 12, 13, 14, 15}"
proof -
  assume "x < 16"
  then have "unat x \<in> set [0..<16]" by (simp add: word_less_nat_alt)
  then have "(of_nat (unat x) :: u8) \<in> of_nat ` set [0..<16]" by (rule imageI)
  then show ?thesis by (simp add: upt_rec)
qed

lemma and_0F_less: "(b :: u8) AND 0x0F < 16"
proof -
  have "(0x0F :: u8) = mask 4" by (simp add: mask_eq_exp_minus_1)
  then have "b AND 0x0F = take_bit 4 b" by (simp only: take_bit_eq_mask)
  moreover have "take_bit 4 (unat b) < 2 ^ 4" by (rule take_bit_nat_less_exp)
  ultimately show ?thesis by (simp add: word_less_nat_alt unsigned_take_bit_eq)
qed

lemma numeral_le_1_u8: "\<not> (3 :: u8) \<le> 1" "\<not> (11 :: u8) \<le> 1"
  by (simp_all add: word_le_nat_alt)

lemma check_frame_Inr:
  "df_opcode f < 16 \<Longrightarrow> check_frame f = Inr g \<longleftrightarrow> g = f \<and> frame_ok f"
  by (drule u8_less_16, elim insertE emptyE)
    (simp_all add: check_frame_def frame_ok_def is_control_def kContinuation_def kText_def kBinary_def
      kClose_def kPing_def kPong_def eq_commute [of f g] not_less not_le numeral_le_1_u8)

lemma and_exp_cases: "(x :: u8) AND 2 ^ k = 0 \<or> x AND 2 ^ k = 2 ^ k"
proof (cases "bit x k")
  case True
  then have "x AND 2 ^ k = 2 ^ k" by (auto intro!: bit_eqI simp: bit_simps)
  then show ?thesis ..
next
  case False
  then have "x AND 2 ^ k = 0" by (auto intro!: bit_eqI simp: bit_simps)
  then show ?thesis ..
qed

lemma rsv1_only:
  assumes "(x :: u8) AND - 65 = 0" "x \<noteq> 0"
  shows "x = 0x40"
proof -
  have "(- 65 :: u8) = NOT 0x40" by simp
  then have z: "x AND NOT 0x40 = 0" using assms(1) by metis
  have "x AND 0x40 = x"
  proof (rule bit_eqI)
    fix n
    have "\<not> bit (x AND NOT 0x40) n" by (simp only: z) simp
    then show "bit (x AND 0x40) n \<longleftrightarrow> bit x n"
      unfolding bit_and_iff bit_not_iff by (meson bit_imp_possible_bit)
  qed
  moreover have "x AND 0x40 = 0 \<or> x AND 0x40 = 0x40" using and_exp_cases [of x 6] by simp
  ultimately show ?thesis using assms(2) by metis
qed

lemma decode_frame_InrE:
  assumes "decode_frame wire allow = Inr f"
  obtains n pos where "2 \<le> length wire"
    and "byte_at wire 0 AND 0x70 = 0 \<or> allow \<and> byte_at wire 0 AND 0x70 = 0x40"
    and "decode_len wire (byte_at wire 1 AND 0x7F) = Inr (n, pos)"
    and "pos + (if df_masked f then 4 else 0) + unat n \<le> length wire"
    and "frame_ok f"
    and "f = \<lparr>df_opcode = byte_at wire 0 AND 0x0F, df_fin = (byte_at wire 0 AND 0x80 \<noteq> 0),
        df_rsv1 = (byte_at wire 0 AND 0x70 \<noteq> 0), df_masked = (byte_at wire 1 AND 0x80 \<noteq> 0),
        df_payload_len = n,
        df_payload = slice wire (pos + (if byte_at wire 1 AND 0x80 \<noteq> 0 then 4 else 0)) (unat n),
        df_mask_key = (if byte_at wire 1 AND 0x80 \<noteq> 0 then slice wire pos 4 else [0, 0, 0, 0]),
        df_total_len = pos + (if byte_at wire 1 AND 0x80 \<noteq> 0 then 4 else 0) + unat n\<rparr>"
proof -
  have rsv: "byte_at wire 0 AND 0x70 = 0x40"
    if "(byte_at wire 0 AND 0x70) AND - 65 = 0" "byte_at wire 0 AND 0x70 \<noteq> 0"
    using rsv1_only that by blast
  from assms show ?thesis
    by (auto simp: decode_frame_def Let_def not_less check_frame_Inr and_0F_less
        split: if_splits sum.splits intro!: that intro: rsv)
qed

section \<open>Length field\<close>

text \<open>RFC 6455 5.2: the 7-bit length code of a payload length and the extended length after it.\<close>

definition len7 :: "u64 \<Rightarrow> u8" where
  "len7 n = (if n < 126 then ucast n else if n \<le> 65535 then 126 else 127)"

definition len_ext :: "u64 \<Rightarrow> bytes" where
  "len_ext n = (if n < 126 then [] else if n \<le> 65535 then be_bytes 2 n else be_bytes 8 n)"

lemma ucast_small: "(n :: u64) < 126 \<Longrightarrow> unat (ucast n :: u8) = unat n"
  by (simp add: unsigned_ucast_eq take_bit_eq_mod word_less_nat_alt)

lemma unat_ucast_up: "unat (ucast (b :: u8) :: u64) = unat b"
  using unat_u8_less [of b] by (simp add: unsigned_ucast_eq take_bit_eq_mod del: unat_u8_less)

lemma ucast_up_down: "(ucast (ucast (b :: u8) :: u64) :: u8) = b"
  by (rule bit_eqI) (auto simp: bit_simps)

lemma len7_less: "len7 n < 128"
  by (auto simp: len7_def word_less_nat_alt ucast_small)

lemma and7F_len7: "(0x80 OR len7 n) AND 0x7F = len7 n"
  using and7F_eq [OF len7_less] by (simp add: or80)

lemma encode_frame_header_eq:
  assumes "is_valid_payload_len op n"
  shows "encode_frame_header op n fin key =
    [(if fin then 0x80 else 0) OR (op AND 0x0F), 0x80 OR len7 n] @ len_ext n @ take 4 key"
  using assms
  by (auto simp: encode_frame_header_def is_valid_payload_len_def len7_def len_ext_def kFinBit_def
      kMaskBit_def be_bytes_2 and_FF64 split: if_splits)

lemma encode_frame_header_invalid:
  "\<not> is_valid_payload_len op n \<Longrightarrow> encode_frame_header op n fin key = []"
  by (auto simp: encode_frame_header_def is_valid_payload_len_def split: if_splits)

lemma decode_len_ext:
  assumes "n \<le> kMaxPayloadLen" "length pre = 2"
  shows "decode_len (pre @ len_ext n @ rest) (len7 n) = Inr (n, 2 + length (len_ext n))"
proof -
  consider "n < 126" | "\<not> n < 126" "n \<le> 65535" | "\<not> n < 126" "\<not> n \<le> 65535" by fastforce
  then show ?thesis
  proof cases
    case 1
    then have "(ucast n :: u8) < 126" by (simp add: word_less_nat_alt ucast_small)
    moreover have "(ucast (ucast n :: u8) :: u64) = n"
      using 1 by (simp only: word_unat_eq_iff unat_ucast_up ucast_small)
    ultimately show ?thesis using 1 by (simp add: decode_len_def len7_def len_ext_def)
  next
    case 2
    have "slice (pre @ be_bytes 2 n @ rest) 2 2 = be_bytes 2 n" using assms by (simp add: slice_def)
    moreover have "be_val (be_bytes 2 n) = n"
      using 2 by (simp add: be_val_be_bytes word_le_nat_alt)
    ultimately have "be_val [byte_at (pre @ be_bytes 2 n @ rest) 2, byte_at (pre @ be_bytes 2 n @ rest) 3] = n"
      using assms slice2 [of 2 "pre @ be_bytes 2 n @ rest"] by simp
    then show ?thesis using 2 assms by (simp add: decode_len_def len7_def len_ext_def Let_def push8_or_be_val)
  next
    case 3
    have "slice (pre @ be_bytes 8 n @ rest) 2 8 = be_bytes 8 n" using assms by (simp add: slice_def)
    moreover have "\<not> kMaxPayloadLen < n" using assms(1) by (simp add: not_less)
    ultimately show ?thesis using 3 assms(2) by (simp add: decode_len_def len7_def len_ext_def Let_def)
  qed
qed

lemma decode_len_inv:
  assumes "decode_len wire lb = Inr (n, pos)" "lb < 128" "2 \<le> length wire"
  shows "lb = len7 n" "slice wire 2 (pos - 2) = len_ext n" "pos = 2 + length (len_ext n)"
    "pos \<le> length wire" "n \<le> kMaxPayloadLen"
proof -
  have lb: "126 < lb \<Longrightarrow> lb = 127" using assms(2) by (simp add: word_less_nat_alt word_unat_eq_iff)
  have cast: "(ucast lb :: u64) < 126 \<longleftrightarrow> lb < 126" "(ucast (ucast lb :: u64) :: u8) = lb"
    by (simp add: word_less_nat_alt unat_ucast_up) (rule ucast_up_down)
  have small: "m \<le> kMaxPayloadLen" if "m \<le> 65535" for m :: u64
    using that by (simp add: kMaxPayloadLen_def word_le_nat_alt)
  have small': "m \<le> kMaxPayloadLen" if "m < 126" for m :: u64
    using that by (simp add: kMaxPayloadLen_def word_le_nat_alt word_less_nat_alt)
  have n126: "\<not> n < 126 \<and> \<not> n \<le> 65535" if "65535 < n" using that by (simp add: word_less_nat_alt word_le_nat_alt)
  have n65: "m \<le> 65535" if "m < 126" for m :: u64 using that by (simp add: word_less_nat_alt word_le_nat_alt)
  from decode_len_Inr [OF assms(1)] assms(3) cast lb small small' n126 n65
  show "lb = len7 n" "slice wire 2 (pos - 2) = len_ext n" "pos = 2 + length (len_ext n)"
    "pos \<le> length wire" "n \<le> kMaxPayloadLen"
    by (auto simp: len7_def len_ext_def slice_def)
qed

lemma decode_len_append:
  "decode_len wire lb = Inr (n, pos) \<Longrightarrow> decode_len (wire @ rest) lb = Inr (n, pos)"
  "decode_len wire lb = Inl e \<Longrightarrow> e \<noteq> kIncomplete \<Longrightarrow> decode_len (wire @ rest) lb = Inl e"
  by (auto simp: decode_len_def Let_def byte_at_append slice_append split: if_splits)

section \<open>Frames\<close>

definition data_opcode :: "u8 \<Rightarrow> bool" where
  "data_opcode op \<longleftrightarrow> op = kText \<or> op = kBinary \<or> op = kContinuation"

lemma opcode_cases:
  assumes "op \<in> {kContinuation, kText, kBinary, kClose, kPing, kPong}"
  shows "op AND 0x0F = op" "op < 16"
  using assms by (auto simp: kContinuation_def kText_def kBinary_def kClose_def kPing_def kPong_def)

text \<open>What the encoder may be asked to send: an opcode of RFC 6455, a payload the length field can hold.\<close>

definition sendable :: "u8 \<Rightarrow> bytes \<Rightarrow> bool \<Rightarrow> bool" where
  "sendable op payload fin \<longleftrightarrow>
     op \<in> {kContinuation, kText, kBinary, kClose, kPing, kPong} \<and> length payload < 2 ^ 63 \<and>
     (op AND 0x08 \<noteq> 0 \<longrightarrow> fin \<and> length payload \<le> 125 \<and> \<not> (op = kClose \<and> length payload = 1))"

lemma unat_of_length: "length xs < 2 ^ 63 \<Longrightarrow> unat (of_nat (length xs) :: u64) = length xs"
  by (simp add: unat_of_nat)

lemma sendable_valid: "sendable op payload fin \<Longrightarrow> is_valid_payload_len op (of_nat (length payload))"
  using unat_of_length [of payload] kMaxPayloadLen_unat [of "of_nat (length payload)"]
  by (auto simp: sendable_def is_valid_payload_len_def kMaxControlPayloadLen_def not_less [symmetric])

lemma encode_frame_eq:
  assumes "sendable op payload fin" "length key = 4"
  shows "encode_frame key op payload fin =
    [(if fin then 0x80 else 0) OR (op AND 0x0F), 0x80 OR len7 (of_nat (length payload))] @
    len_ext (of_nat (length payload)) @ key @ mask_ref payload key"
  using encode_frame_header_eq [OF sendable_valid [OF assms(1)]] assms(2)
  by (auto simp: encode_frame_def Let_def masked_copy_eq mask_ref_def)

lemma length_len_ext: "2 + length (len_ext n) + 4 = frame_header_size n"
  by (simp add: len_ext_def frame_header_size_def)

lemma total_frame_size_eq: "n \<le> kMaxPayloadLen \<Longrightarrow> total_frame_size n = frame_header_size n + unat n"
  by (auto simp: total_frame_size_def frame_header_size_def SIZE_MAX_def kMaxPayloadLen_unat Let_def)

lemma length_encode_frame:
  assumes "sendable op payload fin" "length key = 4"
  shows "length (encode_frame key op payload fin) = total_frame_size (of_nat (length payload))"
proof -
  have u: "unat (of_nat (length payload) :: u64) = length payload"
    using assms(1) by (auto simp: sendable_def intro: unat_of_length)
  have "of_nat (length payload) \<le> kMaxPayloadLen"
    using assms(1) u by (simp add: kMaxPayloadLen_unat sendable_def)
  then show ?thesis
    using u assms(2) by (simp add: encode_frame_eq [OF assms] total_frame_size_eq length_len_ext [symmetric])
qed

lemma decode_frame_I:
  assumes "2 \<le> length wire"
    and "byte_at wire 0 AND 0x70 = 0"
    and "decode_len wire (byte_at wire 1 AND 0x7F) = Inr (n, pos)"
    and "byte_at wire 1 AND 0x80 \<noteq> 0"
    and "pos + 4 + unat n \<le> length wire"
    and "frame_ok f"
    and "f = \<lparr>df_opcode = byte_at wire 0 AND 0x0F, df_fin = (byte_at wire 0 AND 0x80 \<noteq> 0),
        df_rsv1 = False, df_masked = True,
        df_payload_len = n, df_payload = slice wire (pos + 4) (unat n),
        df_mask_key = slice wire pos 4, df_total_len = pos + 4 + unat n\<rparr>"
  shows "decode_frame wire allow = Inr f"
  using assms check_frame_Inr [of f f] and_0F_less [of "byte_at wire 0"]
  by (simp add: decode_frame_def Let_def not_less kMaskBit_def kFinBit_def)

lemma decode_encode_frame:
  assumes s: "sendable op payload fin" and k: "length key = 4"
  shows "decode_frame (encode_frame key op payload fin @ rest) allow =
    Inr \<lparr>df_opcode = op, df_fin = fin, df_rsv1 = False, df_masked = True,
         df_payload_len = of_nat (length payload), df_payload = mask_ref payload key,
         df_mask_key = key, df_total_len = length (encode_frame key op payload fin)\<rparr>"
proof (rule decode_frame_I)
  let ?n = "of_nat (length payload) :: u64"
  let ?w = "encode_frame key op payload fin @ rest"
  let ?b0 = "(if fin then 0x80 else 0) OR (op AND 0x0F) :: u8"
  let ?pos = "2 + length (len_ext ?n)"
  have op: "op AND 0x0F = op" using s opcode_cases by (simp add: sendable_def)
  have u: "unat ?n = length payload" using s by (auto simp: sendable_def intro: unat_of_length)
  have m: "?n \<le> kMaxPayloadLen" using s u by (simp add: kMaxPayloadLen_unat sendable_def)
  have w: "?w = [?b0, 0x80 OR len7 ?n] @ len_ext ?n @ (key @ mask_ref payload key @ rest)"
    by (simp add: encode_frame_eq [OF s k])
  have b: "byte_at ?w 0 = ?b0" "byte_at ?w 1 = 0x80 OR len7 ?n" by (simp_all add: w del: append_assoc)
  show "2 \<le> length ?w" by (simp add: w)
  show "byte_at ?w 0 AND 0x70 = 0" unfolding b by (rule b0_fields)
  show "decode_len ?w (byte_at ?w 1 AND 0x7F) = Inr (?n, ?pos)"
    unfolding b and7F_len7 unfolding w by (rule decode_len_ext [OF m]) simp
  show "byte_at ?w 1 AND 0x80 \<noteq> 0" unfolding b by (rule or80)
  show "?pos + 4 + unat ?n \<le> length ?w" by (simp add: w u k)
  have "slice ?w (?pos + 4) (unat ?n) = mask_ref payload key"
    using slice_append_skip [of "[?b0, 0x80 OR len7 ?n] @ len_ext ?n @ key" "?pos + 4" "mask_ref payload key @ rest" "unat ?n"]
    unfolding w by (simp add: u k)
  moreover have "slice ?w ?pos 4 = key"
    using slice_append_skip [of "[?b0, 0x80 OR len7 ?n] @ len_ext ?n" ?pos "key @ mask_ref payload key @ rest" 4]
    unfolding w by (simp add: k)
  ultimately show "\<lparr>df_opcode = op, df_fin = fin, df_rsv1 = False, df_masked = True,
         df_payload_len = ?n, df_payload = mask_ref payload key,
         df_mask_key = key, df_total_len = length (encode_frame key op payload fin)\<rparr> =
     \<lparr>df_opcode = byte_at ?w 0 AND 0x0F, df_fin = (byte_at ?w 0 AND 0x80 \<noteq> 0),
        df_rsv1 = False, df_masked = True, df_payload_len = ?n, df_payload = slice ?w (?pos + 4) (unat ?n),
        df_mask_key = slice ?w ?pos 4, df_total_len = ?pos + 4 + unat ?n\<rparr>"
    unfolding b unfolding b0_fields unfolding op by (simp add: u k length_encode_frame [OF s k] total_frame_size_eq [OF m] length_len_ext [symmetric])
  show "frame_ok \<lparr>df_opcode = op, df_fin = fin, df_rsv1 = False, df_masked = True,
         df_payload_len = ?n, df_payload = mask_ref payload key,
         df_mask_key = key, df_total_len = length (encode_frame key op payload fin)\<rparr>"
    using s u by (auto simp: sendable_def frame_ok_def is_control_def word_le_nat_alt)
qed

text \<open>A decision of the decoder does not depend on the bytes after the frame.\<close>

lemma check_frame_not_incomplete: "check_frame f \<noteq> Inl kIncomplete"
  by (auto simp: check_frame_def split: if_splits)

lemma decode_frame_append:
  assumes r: "decode_frame wire allow = r" "r \<noteq> Inl kIncomplete"
  shows "decode_frame (wire @ rest) allow = r"
proof -
  have l: "2 \<le> length wire" using r by (auto simp: decode_frame_def not_less [symmetric])
  have b: "byte_at (wire @ rest) 0 = byte_at wire 0" "byte_at (wire @ rest) (Suc 0) = byte_at wire (Suc 0)"
    by (rule byte_at_append; use l in linarith)+
  show ?thesis
  proof (cases "decode_len wire (byte_at wire (Suc 0) AND 0x7F)")
    case (Inl e)
    show ?thesis
    proof (cases "e = kIncomplete")
      case True
      then show ?thesis using r l b Inl
        by (auto simp: decode_frame_def Let_def split: if_splits)
    next
      case False
      then show ?thesis using r(1) l b Inl decode_len_append(2) [OF Inl]
        by (auto simp: decode_frame_def Let_def split: if_splits)
    qed
  next
    case (Inr q)
    obtain n pos where q: "q = (n, pos)" by fastforce
    show ?thesis using r l b Inr [unfolded q] decode_len_append(1) [OF Inr [unfolded q]]
      by (auto simp: decode_frame_def Let_def slice_append split: if_splits)
  qed
qed

lemma take_add_slice: "take (a + b) xs = take a xs @ slice xs a b"
  by (simp add: take_add slice_def)

lemma take_2: "2 \<le> length xs \<Longrightarrow> take 2 xs = [byte_at xs 0, byte_at xs 1]"
  using slice2 [of 0 xs] by (simp add: slice_def)

lemma decode_frame_canonical:
  assumes d: "decode_frame wire False = Inr f" and m: "df_masked f"
  shows "sendable (df_opcode f) (df_payload f) (df_fin f)"
    and "length (df_mask_key f) = 4"
    and "encode_frame (df_mask_key f) (df_opcode f) (mask_ref (df_payload f) (df_mask_key f)) (df_fin f) =
     take (df_total_len f) wire"
proof -
  obtain n pos where l: "2 \<le> length wire" and rsv: "byte_at wire 0 AND 0x70 = 0"
    and dl: "decode_len wire (byte_at wire 1 AND 0x7F) = Inr (n, pos)"
    and len: "pos + (if df_masked f then 4 else 0) + unat n \<le> length wire"
    and ok: "frame_ok f"
    and f: "f = \<lparr>df_opcode = byte_at wire 0 AND 0x0F, df_fin = (byte_at wire 0 AND 0x80 \<noteq> 0),
        df_rsv1 = (byte_at wire 0 AND 0x70 \<noteq> 0), df_masked = (byte_at wire 1 AND 0x80 \<noteq> 0),
        df_payload_len = n,
        df_payload = slice wire (pos + (if byte_at wire 1 AND 0x80 \<noteq> 0 then 4 else 0)) (unat n),
        df_mask_key = (if byte_at wire 1 AND 0x80 \<noteq> 0 then slice wire pos 4 else [0, 0, 0, 0]),
        df_total_len = pos + (if byte_at wire 1 AND 0x80 \<noteq> 0 then 4 else 0) + unat n\<rparr>"
    using decode_frame_InrE [OF d] by metis
  note inv = decode_len_inv [OF dl and7F_less l]
  have b1: "byte_at wire 1 AND 0x80 \<noteq> 0" using m by (simp add: f)
  have fp: "df_payload f = slice wire (pos + 4) (unat n)" "df_mask_key f = slice wire pos 4"
    "df_total_len f = pos + 4 + unat n" "df_opcode f = byte_at wire 0 AND 0x0F"
    "df_fin f = (byte_at wire 0 AND 0x80 \<noteq> 0)" "df_payload_len f = n"
    using b1 by (simp_all add: f)
  have pl: "length (df_payload f) = unat n" using len m by (simp add: fp)
  show k: "length (df_mask_key f) = 4" using len m by (simp add: fp)
  have small: "unat n < 2 ^ 63" "n \<le> 125 \<Longrightarrow> unat n \<le> 125" "unat n = 1 \<Longrightarrow> n = 1"
    using inv(5) by (simp_all add: kMaxPayloadLen_unat) (simp_all add: word_le_nat_alt word_unat_eq_iff)
  show s: "sendable (df_opcode f) (df_payload f) (df_fin f)"
    using ok pl small fp(6) by (auto simp: sendable_def frame_ok_def is_control_def)
  then have s': "sendable (df_opcode f) (mask_ref (df_payload f) (df_mask_key f)) (df_fin f)"
    by (simp add: sendable_def)
  have e: "encode_frame (df_mask_key f) (df_opcode f) (mask_ref (df_payload f) (df_mask_key f)) (df_fin f) =
      [(if df_fin f then 0x80 else 0) OR (df_opcode f AND 0x0F), 0x80 OR len7 n] @ len_ext n @ df_mask_key f @ df_payload f"
    by (simp add: encode_frame_eq [OF s' k] pl mask_ref_involution)
  have "take (df_total_len f) wire =
      take 2 wire @ slice wire 2 (pos - 2) @ slice wire pos 4 @ slice wire (pos + 4) (unat n)"
    using take_add_slice [of 2 "pos - 2" wire] take_add_slice [of pos 4 wire]
      take_add_slice [of "pos + 4" "unat n" wire] inv(3) by (simp add: fp)
  moreover have "0x80 OR len7 n = byte_at wire 1" using b1_rebuild [OF b1] inv(1) by simp
  moreover have "(if df_fin f then 0x80 else 0) OR (df_opcode f AND 0x0F) = byte_at wire 0"
    using b0_rebuild [OF rsv] by (simp add: fp)
  ultimately show "encode_frame (df_mask_key f) (df_opcode f) (mask_ref (df_payload f) (df_mask_key f)) (df_fin f) =
     take (df_total_len f) wire"
    using inv(2) unfolding e by (simp add: take_2 [OF l] fp)
qed

text \<open>Faster equations for evaluation.\<close>

lemma kMaxPayloadLen_code [code]: "kMaxPayloadLen = 0x7FFFFFFFFFFFFFFF"
  by (simp add: kMaxPayloadLen_def)

lemma apply_mask_code [code]:
  "apply_mask data key =
     (if length key = 4 then mask_ref data key
      else let (i, data) = mask_blocks32 (load32 key) 0 data in mask_tail key i data)"
  by (simp add: apply_mask_eq) (simp add: apply_mask_def)

lemma masked_copy_code [code]:
  "masked_copy src key =
     (if length key = 4 then mask_ref src key
      else
        let mask32 = load32 key;
            mask64 = push_bit 32 (ucast mask32) OR ucast mask32;
            (i, dst) = copy_blocks64 mask64 src 0 [];
            (i, dst) = (if i + 4 \<le> length src
                        then (i + 4, dst @ store32 (load32 (slice src i 4) XOR mask32))
                        else (i, dst))
        in copy_tail key src i dst)"
  by (simp add: masked_copy_eq) (simp add: masked_copy_def)

section \<open>Properties of the frame layer\<close>

text \<open>
  C5. Encoding a frame and decoding the bytes, whatever follows them, gives back the opcode, the FIN
  bit and the masked payload with its key; the frame takes exactly the announced size, and unmasking
  returns the payload.
\<close>

theorem ws_frame_round_trip:
  assumes "sendable op payload fin" "length key = 4"
  shows "decode_frame (encode_frame key op payload fin @ rest) allow =
      Inr \<lparr>df_opcode = op, df_fin = fin, df_rsv1 = False, df_masked = True,
           df_payload_len = of_nat (length payload), df_payload = masked_copy payload key,
           df_mask_key = key, df_total_len = total_frame_size (of_nat (length payload))\<rparr> \<and>
    apply_mask (masked_copy payload key) key = payload"
  using decode_encode_frame [OF assms] length_encode_frame [OF assms] assms(2)
  by (simp add: masked_copy_eq apply_mask_eq mask_ref_involution)

theorem ws_frame_round_trip_witness:
  "decode_frame (encode_frame [1, 2, 3, 4] kText [72, 105, 33, 33, 33] True @ [7]) False =
      Inr \<lparr>df_opcode = kText, df_fin = True, df_rsv1 = False, df_masked = True,
           df_payload_len = 5, df_payload = masked_copy [72, 105, 33, 33, 33] [1, 2, 3, 4],
           df_mask_key = [1, 2, 3, 4], df_total_len = total_frame_size 5\<rparr>"
  using ws_frame_round_trip [of kText "[72, 105, 33, 33, 33]" True "[1, 2, 3, 4]" "[7]" False]
  by (simp add: sendable_def)

text \<open>
  C6. The decoder accepts only canonical frames: when it accepts a masked frame (no extension bit
  negotiated), encoding the fields it reports rebuilds exactly the bytes it consumed.
\<close>

theorem ws_decode_canonical:
  assumes "decode_frame wire False = Inr f" "df_masked f"
  shows "encode_frame (df_mask_key f) (df_opcode f) (apply_mask (df_payload f) (df_mask_key f)) (df_fin f) =
    take (df_total_len f) wire"
  using decode_frame_canonical [OF assms] by (simp add: apply_mask_eq)

theorem ws_decode_canonical_witness:
  "encode_frame [0, 0, 0, 0] kPing (apply_mask [7] [0, 0, 0, 0]) True = take 7 [0x89, 0x81, 0, 0, 0, 0, 7, 9]"
proof -
  have d: "decode_frame [0x89, 0x81, 0, 0, 0, 0, 7, 9] False =
      Inr \<lparr>df_opcode = kPing, df_fin = True, df_rsv1 = False, df_masked = True,
           df_payload_len = 1, df_payload = [7], df_mask_key = [0, 0, 0, 0], df_total_len = 7\<rparr>"
    by code_simp
  show ?thesis using ws_decode_canonical [OF d] by simp
qed

text \<open>
  C7. Every verdict of the decoder except "incomplete" is final: appending bytes changes neither an
  accepted frame nor an error.
\<close>

theorem ws_decode_stable:
  "decode_frame wire allow \<noteq> Inl kIncomplete \<Longrightarrow>
   decode_frame (wire @ rest) allow = decode_frame wire allow"
  by (rule decode_frame_append [OF refl])

theorem ws_decode_stable_witness:
  "decode_frame ([0x09, 0x00] @ [1, 2, 3]) False = Inl kFragmentedControl"
proof -
  have d: "decode_frame [0x09, 0x00] False = Inl kFragmentedControl" by code_simp
  show ?thesis using ws_decode_stable [of "[0x09, 0x00]" False "[1, 2, 3]"] d by simp
qed

text \<open>
  C34. The optimised loops (32-bit blocks in place; 64-bit and 32-bit blocks while copying; byte
  tails) compute the masking of RFC 6455 5.3, octet \<open>i\<close> XOR key octet \<open>i mod 4\<close>, and masking twice
  is the identity.
\<close>

theorem ws_masking_loops:
  assumes "length key = 4"
  shows "apply_mask data key = map (\<lambda>i. data ! i XOR key ! (i mod 4)) [0..<length data] \<and>
    masked_copy data key = apply_mask data key \<and> apply_mask (apply_mask data key) key = data"
proof -
  have "mask_ref data key = map (\<lambda>i. data ! i XOR key ! (i mod 4)) [0..<length data]"
    using assms by (simp add: mask_ref_def byte_at_def)
  then show ?thesis
    unfolding apply_mask_eq [OF assms] masked_copy_eq [OF assms] mask_ref_involution by simp
qed

theorem ws_masking_loops_witness:
  "masked_copy [10, 20, 30, 40, 50] [1, 2, 3, 4] = apply_mask [10, 20, 30, 40, 50] [1, 2, 3, 4] \<and>
   apply_mask (apply_mask [10, 20, 30, 40, 50] [1, 2, 3, 4]) [1, 2, 3, 4] = [10, 20, 30, 40, 50]"
proof -
  have "length [1, 2, 3, 4 :: u8] = 4" by simp
  from ws_masking_loops [OF this, of "[10, 20, 30, 40, 50]"] show ?thesis by blast
qed

section \<open>Close frames\<close>

lemma drop_mask_ref:
  "length data = n + 2 \<Longrightarrow>
   map (\<lambda>i. drop 2 data ! i XOR byte_at key ((i + 2) AND 3)) [0..<n] = drop 2 (mask_ref data key)"
  by (rule nth_equalityI) (simp_all add: mask_ref_nth and3 add.commute)

lemma byte_at_mask_ref:
  "i < length data \<Longrightarrow> i < 4 \<Longrightarrow> byte_at (mask_ref data key) i = byte_at data i XOR byte_at key i"
  by (simp add: byte_at_def mask_ref_nth [unfolded byte_at_def])

lemma u16_split: "push_bit 8 (ucast (ucast (drop_bit 8 (c :: u16)) :: u8)) OR ucast (ucast (c AND 0xFF) :: u8) = c"
proof -
  have "(0xFF :: u16) = mask 8" by (simp add: mask_eq_exp_minus_1)
  then show ?thesis
    by (simp only: take_bit_eq_mask [symmetric])
      (auto intro!: bit_eqI simp: bit_simps dest: bit_imp_le_length)
qed

lemma build_close_frame_decodes:
  assumes "length key = 4"
  shows "\<exists>f. decode_frame (build_close_frame key code reason @ rest) False = Inr f \<and> is_close f \<and>
    close_status_code f = code \<and> close_reason_unmasked f = take 123 reason \<and>
    df_total_len f = length (build_close_frame key code reason)"
proof -
  define p where "p = [ucast (drop_bit 8 code), ucast (code AND 0xFF)] @ take (min (length reason) 123) reason"
  have len: "length p = 2 + length (take 123 reason)" by (simp add: p_def)
  have s: "sendable kClose p True" using len by (auto simp: sendable_def)
  let ?f = "\<lparr>df_opcode = kClose, df_fin = True, df_rsv1 = False, df_masked = True,
         df_payload_len = of_nat (length p), df_payload = mask_ref p key,
         df_mask_key = key, df_total_len = length (encode_frame key kClose p True)\<rparr>"
  have "decode_frame (build_close_frame key code reason @ rest) False = Inr ?f"
    using decode_encode_frame [OF s assms] by (simp add: build_close_frame_def p_def Let_def)
  moreover have u: "unat (of_nat (length p) :: u64) = length p"
    by (rule unat_of_length) (simp add: len)
  then have n: "\<not> (of_nat (length p) :: u64) < 2" "(of_nat (length p) :: u64) \<le> 2 \<longleftrightarrow> take 123 reason = []"
    by (simp_all only: word_less_nat_alt word_le_nat_alt len) (auto simp: min_def split: if_splits)
  have b: "byte_at (mask_ref p key) 0 XOR byte_at key 0 = ucast (drop_bit 8 code)"
    "byte_at (mask_ref p key) (Suc 0) XOR byte_at key (Suc 0) = ucast (code AND 0xFF)"
    using len by (simp_all add: byte_at_mask_ref xor.assoc) (simp_all add: p_def)
  have "close_status_code ?f = code"
    using n(1) b by (simp add: close_status_code_def Let_def u16_split)
  moreover have "close_reason_unmasked ?f = take 123 reason"
    using n(2) drop_mask_ref [of "mask_ref p key" "length (take 123 reason)" key] len
    by (auto simp: close_reason_unmasked_def mask_ref_involution) (auto simp: p_def min_def)
  ultimately show ?thesis by (intro exI [of _ ?f]) (simp add: is_close_def build_close_frame_def p_def Let_def)
qed

text \<open>
  C35. A close frame carries its status code and at most 123 octets of the reason: decoding what
  \<open>build_close_frame\<close> wrote gives a Close frame whose accessors return the code and the truncated
  reason.
\<close>

theorem ws_close_round_trip:
  assumes "length key = 4"
  shows "\<exists>f. decode_frame (build_close_frame key code reason @ rest) False = Inr f \<and> is_close f \<and>
    close_status_code f = code \<and> close_reason_unmasked f = take 123 reason \<and>
    df_total_len f = length (build_close_frame key code reason)"
  by (rule build_close_frame_decodes [OF assms])

theorem ws_close_round_trip_witness:
  "\<exists>f. decode_frame (build_close_frame [1, 2, 3, 4] 1000 [98, 121, 101] @ []) False = Inr f \<and> is_close f \<and>
    close_status_code f = 1000 \<and> close_reason_unmasked f = take 123 [98, 121, 101] \<and>
    df_total_len f = length (build_close_frame [1, 2, 3, 4] 1000 [98, 121, 101])"
  using ws_close_round_trip [of "[1, 2, 3, 4]" 1000 "[98, 121, 101]" "[]"] by simp

section \<open>Mask key cache\<close>

fun take_keys :: "(nat \<Rightarrow> bytes) \<Rightarrow> nat \<Rightarrow> MaskKeyCache \<Rightarrow> (bytes list \<times> MaskKeyCache) option" where
  "take_keys rnd 0 c = Some ([], c)"
| "take_keys rnd (Suc n) c =
     (case take_keys rnd n c of
        None \<Rightarrow> None
      | Some (ks, c) \<Rightarrow> (case next_key rnd c of None \<Rightarrow> None | Some (k, c) \<Rightarrow> Some (ks @ [k], c)))"

text \<open>The random bytes of the first \<open>n\<close> calls that filled the pool; the others were discarded.\<close>

definition full_answers :: "(nat \<Rightarrow> bytes) \<Rightarrow> nat \<Rightarrow> bytes" where
  "full_answers rnd n = concat (filter (\<lambda>a. length a = kPoolSize * 4) (map rnd [0..<n]))"

lemma full_answers_Suc:
  "full_answers rnd (Suc n) = full_answers rnd n @ (if length (rnd n) = kPoolSize * 4 then rnd n else [])"
  by (simp add: full_answers_def)

definition refill_stuck :: "(nat \<Rightarrow> bytes) \<Rightarrow> nat \<Rightarrow> bool" where
  "refill_stuck rnd i \<longleftrightarrow> (\<forall>j<3. length (rnd (i + j)) \<noteq> kPoolSize * 4)"

lemma refill_attempt_cases:
  "case refill_attempt rnd left c of
     None \<Rightarrow> \<forall>j<left. length (rnd (mc_calls c + j)) \<noteq> kPoolSize * 4
   | Some c' \<Rightarrow> mc_pos c' = 0 \<and> length (mc_pool c') = kPoolSize * 4 \<and>
       full_answers rnd (mc_calls c') = full_answers rnd (mc_calls c) @ mc_pool c'"
proof (induction left arbitrary: c)
  case (Suc left)
  let ?got = "rnd (mc_calls c)"
  let ?c = "c\<lparr>mc_calls := mc_calls c + 1, mc_pool := take (kPoolSize * 4) (?got @ drop (length ?got) (mc_pool c))\<rparr>"
  show ?case
  proof (cases "length ?got = kPoolSize * 4")
    case False
    moreover from this have "refill_attempt rnd (Suc left) c = refill_attempt rnd left ?c" by (simp add: Let_def)
    ultimately show ?thesis
      using Suc.IH [of ?c] by (auto simp: full_answers_Suc less_Suc_eq_0_disj split: option.splits)
  qed (simp add: full_answers_Suc)
qed simp

definition key_inv :: "(nat \<Rightarrow> bytes) \<Rightarrow> bytes list \<Rightarrow> MaskKeyCache \<Rightarrow> bool" where
  "key_inv rnd ks c \<longleftrightarrow> (\<forall>k\<in>set ks. length k = 4) \<and> mc_pos c \<le> kPoolSize \<and> length (mc_pool c) = kPoolSize * 4 \<and>
     full_answers rnd (mc_calls c) = concat ks @ drop (mc_pos c * 4) (mc_pool c)"

lemma mk_MaskKeyCache_inv: "mk_MaskKeyCache rnd = Some c \<Longrightarrow> key_inv rnd [] c"
  using refill_attempt_cases [where rnd = rnd and left = 3 and c = "\<lparr>mc_pool = replicate (kPoolSize * 4) 0, mc_pos = 0, mc_calls = 0\<rparr>"]
  by (simp add: mk_MaskKeyCache_def refill_def key_inv_def full_answers_def)

lemma key_inv_serve:
  assumes "key_inv rnd ks c" "mc_pos c < kPoolSize"
  shows "key_inv rnd (ks @ [slice (mc_pool c) (mc_pos c * 4) 4]) (c\<lparr>mc_pos := mc_pos c + 1\<rparr>)"
proof -
  have "mc_pos c * 4 + 4 \<le> length (mc_pool c)" using assms by (simp add: key_inv_def )
  moreover have "drop (mc_pos c * 4) (mc_pool c) = take 4 (drop (mc_pos c * 4) (mc_pool c)) @ drop (4 + mc_pos c * 4) (mc_pool c)"
    using append_take_drop_id [of 4 "drop (mc_pos c * 4) (mc_pool c)"] by (simp add: add.commute)
  ultimately show ?thesis using assms by (simp add: key_inv_def slice_def)
qed

lemma next_key_inv:
  assumes i: "key_inv rnd ks c"
  shows "case next_key rnd c of None \<Rightarrow> refill_stuck rnd (mc_calls c) | Some (k, c') \<Rightarrow> key_inv rnd (ks @ [k]) c'"
proof (cases "kPoolSize \<le> mc_pos c")
  case True
  then have e: "full_answers rnd (mc_calls c) = concat ks" using i by (simp add: key_inv_def )
  note r = refill_attempt_cases [where rnd = rnd and left = 3 and c = c]
  show ?thesis
  proof (cases "refill rnd c")
    case None
    then show ?thesis using r True by (simp add: next_key_def refill_def refill_stuck_def)
  next
    case (Some c1)
    then have "key_inv rnd ks c1" "mc_pos c1 = 0" using r i e by (simp_all add: key_inv_def refill_def)
    then show ?thesis using key_inv_serve [of rnd ks c1] Some True by (simp add: next_key_def kPoolSize_def)
  qed
next
  case False
  then show ?thesis using key_inv_serve [OF i] by (simp add: next_key_def)
qed

lemma take_keys_inv:
  assumes c: "mk_MaskKeyCache rnd = Some c"
  shows "case take_keys rnd n c of None \<Rightarrow> \<exists>i. refill_stuck rnd i | Some (ks, c') \<Rightarrow> length ks = n \<and> key_inv rnd ks c'"
proof (induction n)
  case (Suc n)
  show ?case
  proof (cases "take_keys rnd n c")
    case (Some p)
    then obtain ks c' where t: "take_keys rnd n c = Some (ks, c')" by (cases p) auto
    then have "length ks = n" "key_inv rnd ks c'" using Suc.IH by simp_all
    then show ?thesis using next_key_inv [of rnd ks c'] t by (auto split: option.splits prod.splits)
  qed (use Suc.IH in simp)
qed (simp add: mk_MaskKeyCache_inv [OF c])

text \<open>
  C36. Whatever \<open>getrandom\<close> returns, short reads included: the mask keys served are four bytes each and,
  put together, the first bytes of the answers that filled the pool, in order. So no random byte is used
  in two keys, none is skipped, and no byte of a short answer or of the zero-initialised pool becomes
  part of a key. A key is refused (the process aborts) only after three short answers in a row.
\<close>

theorem mask_keys_never_reused:
  assumes "mk_MaskKeyCache rnd = Some c"
  shows "case take_keys rnd n c of
      None \<Rightarrow> \<exists>i. \<forall>j<3. length (rnd (i + j)) \<noteq> kPoolSize * 4
    | Some (ks, c') \<Rightarrow> length ks = n \<and> (\<forall>k\<in>set ks. length k = 4) \<and>
        concat ks = take (4 * n) (concat (filter (\<lambda>a. length a = kPoolSize * 4) (map rnd [0..<mc_calls c'])))"
proof -
  have l: "length (concat ks) = 4 * length ks" if "\<forall>k\<in>set ks. length k = 4" for ks :: "bytes list"
    using that by (induction ks) auto
  show ?thesis using take_keys_inv [OF assms, of n] l
    by (auto simp: key_inv_def refill_stuck_def full_answers_def  split: option.splits)
qed

theorem mask_keys_never_reused_witness:
  "\<exists>c ks c'. mk_MaskKeyCache (\<lambda>i. if even i then replicate 256 9 else replicate (kPoolSize * 4) (of_nat i)) = Some c \<and>
    take_keys (\<lambda>i. if even i then replicate 256 9 else replicate (kPoolSize * 4) (of_nat i)) 2000 c = Some (ks, c') \<and>
    length ks = 2000 \<and> concat ks = take (4 * 2000) (concat (filter (\<lambda>a. length a = kPoolSize * 4)
      (map (\<lambda>i. if even i then replicate 256 9 else replicate (kPoolSize * 4) (of_nat i)) [0..<mc_calls c'])))"
proof -
  let ?rnd = "\<lambda>i. if even i then replicate 256 9 else replicate (kPoolSize * 4) (of_nat i) :: bytes"
  obtain c where c: "mk_MaskKeyCache ?rnd = Some c"
    by (auto simp: mk_MaskKeyCache_def refill_def numeral_3_eq_3 Let_def kPoolSize_def)
  have "\<exists>j<3. length (?rnd (i + j)) = kPoolSize * 4" for i
    by (rule exI [of _ "if even i then 1 else 0"]) (auto simp: kPoolSize_def)
  then have "\<not> (\<exists>i. \<forall>j<3. length (?rnd (i + j)) \<noteq> kPoolSize * 4)" by blast
  then have "take_keys ?rnd 2000 c \<noteq> None" using mask_keys_never_reused [OF c, of 2000] by (auto split: option.splits)
  then obtain ks c' where t: "take_keys ?rnd 2000 c = Some (ks, c')" by auto
  from mask_keys_never_reused [OF c, of 2000] show ?thesis unfolding t using c t by (intro exI [of _ c] exI [of _ ks] exI [of _ c']) simp
qed

end
