(* ===== verification/Ws_Utf8.thy ===== *)
theory Ws_Utf8
  imports Eph_Prelude
begin

text \<open>
  The table-driven UTF-8 validator of \<^verbatim>\<open>eph-net/include/eph/net/detail/websocket.hpp\<close>
  (\<open>is_valid_utf8\<close>), with its two-part table \<open>utf8d\<close> (byte classes, then the transition rows), and
  the proof that it accepts exactly the encodings of sequences of Unicode scalar values (RFC 3629).
\<close>

section \<open>Validator\<close>

definition utf8d :: "nat list" where
  "utf8d =
     replicate 128 0 @
     replicate 16 1 @ replicate 16 9 @
     replicate 32 7 @
     [8, 8] @ replicate 30 2 @
     [0xa, 0x3, 0x3, 0x3, 0x3, 0x3, 0x3, 0x3, 0x3, 0x3, 0x3, 0x3, 0x3, 0x4, 0x3, 0x3] @
     [0xb, 0x6, 0x6, 0x6, 0x5, 0x8, 0x8, 0x8, 0x8, 0x8, 0x8, 0x8, 0x8, 0x8, 0x8, 0x8] @
     [0x0, 0x1, 0x2, 0x3, 0x5, 0x8, 0x7, 0x1, 0x1, 0x1, 0x4, 0x6, 0x1, 0x1, 0x1, 0x1] @
     [1,1,1,1,1,1,1,1,1,1,1,1,1,1,1,1,1,0,1,1,1,1,1,0,1,0,1,1,1,1,1,1] @
     [1,2,1,1,1,1,1,2,1,2,1,1,1,1,1,1,1,1,1,1,1,1,1,2,1,1,1,1,1,1,1,1] @
     [1,2,1,1,1,1,1,1,1,2,1,1,1,1,1,1,1,1,1,1,1,1,1,3,1,3,1,1,1,1,1,1] @
     [1,3,1,1,1,1,1,3,1,3,1,1,1,1,1,1,1,3,1,1,1,1,1,1,1,1,1,1,1,1,1,1]"

fun utf8_run :: "nat \<Rightarrow> bytes \<Rightarrow> bool" where
  "utf8_run state [] = (state = 0)"
| "utf8_run state (b # bs) =
     (let type = utf8d ! unat b;
          state = utf8d ! (256 + state * 16 + type) in
      if state = 1 then False else utf8_run state bs)"

definition is_valid_utf8 :: "bytes \<Rightarrow> bool" where
  "is_valid_utf8 data = utf8_run 0 data"

section \<open>Transitions\<close>

definition utf8_class :: "nat \<Rightarrow> nat" where
  "utf8_class n =
     (if n < 0x80 then 0 else if n < 0x90 then 1 else if n < 0xA0 then 9 else if n < 0xC0 then 7
      else if n < 0xC2 then 8 else if n < 0xE0 then 2 else if n = 0xE0 then 10 else if n = 0xED then 4
      else if n < 0xF0 then 3 else if n = 0xF0 then 11 else if n < 0xF4 then 6 else if n = 0xF4 then 5 else 8)"

lemma replicate_rec: "replicate n x = (if n = 0 then [] else x # replicate (n - 1) x)"
  by (cases n) simp_all

lemma utf8d_classes: "take 256 utf8d = map utf8_class [0..<256]"
proof -
  have "[0..<256] = [0..<128] @ [128..<256]" by (simp add: upt_add_eq_append [of 0 128 128, simplified])
  moreover have "map utf8_class [0..<128] = replicate 128 0"
    by (rule nth_equalityI) (simp_all add: utf8_class_def)
  moreover have "map utf8_class [128..<256] = take 128 (drop 128 utf8d)"
    by (simp add: utf8d_def utf8_class_def upt_rec replicate_rec)
  moreover have "take 128 utf8d = replicate 128 0" by (simp add: utf8d_def)
  ultimately show ?thesis using take_add [of 128 128 utf8d] by simp
qed

lemma utf8d_class: "utf8d ! unat (b :: u8) = utf8_class (unat b)"
proof -
  have "utf8d ! unat b = take 256 utf8d ! unat b" by simp
  then show ?thesis by (simp add: utf8d_classes)
qed

lemma utf8d_row: "m \<le> n \<Longrightarrow> n < m + 12 \<Longrightarrow> n < 400 \<Longrightarrow> utf8d ! n = take 12 (drop m utf8d) ! (n - m)"
proof -
  assume "m \<le> n" "n < m + 12" "n < 400"
  moreover have "length utf8d = 400" by (simp add: utf8d_def)
  ultimately show ?thesis by simp
qed

lemma utf8d_rows:
  "take 12 (drop 256 utf8d) = [0, 1, 2, 3, 5, 8, 7, 1, 1, 1, 4, 6]"
  "take 12 (drop 288 utf8d) = [1, 0, 1, 1, 1, 1, 1, 0, 1, 0, 1, 1]"
  "take 12 (drop 304 utf8d) = [1, 2, 1, 1, 1, 1, 1, 2, 1, 2, 1, 1]"
  "take 12 (drop 320 utf8d) = [1, 1, 1, 1, 1, 1, 1, 2, 1, 1, 1, 1]"
  "take 12 (drop 336 utf8d) = [1, 2, 1, 1, 1, 1, 1, 1, 1, 2, 1, 1]"
  "take 12 (drop 352 utf8d) = [1, 1, 1, 1, 1, 1, 1, 3, 1, 3, 1, 1]"
  "take 12 (drop 368 utf8d) = [1, 3, 1, 1, 1, 1, 1, 3, 1, 3, 1, 1]"
  "take 12 (drop 384 utf8d) = [1, 3, 1, 1, 1, 1, 1, 1, 1, 1, 1, 1]"
  by (simp_all add: utf8d_def)

lemma utf8d_at:
  "utf8d ! 256 = 0" "utf8d ! 257 = 1" "utf8d ! 258 = 2" "utf8d ! 259 = 3" "utf8d ! 260 = 5" "utf8d ! 261 = 8" "utf8d ! 262 = 7" "utf8d ! 263 = 1" "utf8d ! 264 = 1" "utf8d ! 265 = 1" "utf8d ! 266 = 4" "utf8d ! 267 = 6"
  "utf8d ! 288 = 1" "utf8d ! 289 = 0" "utf8d ! 290 = 1" "utf8d ! 291 = 1" "utf8d ! 292 = 1" "utf8d ! 293 = 1" "utf8d ! 294 = 1" "utf8d ! 295 = 0" "utf8d ! 296 = 1" "utf8d ! 297 = 0" "utf8d ! 298 = 1" "utf8d ! 299 = 1"
  "utf8d ! 304 = 1" "utf8d ! 305 = 2" "utf8d ! 306 = 1" "utf8d ! 307 = 1" "utf8d ! 308 = 1" "utf8d ! 309 = 1" "utf8d ! 310 = 1" "utf8d ! 311 = 2" "utf8d ! 312 = 1" "utf8d ! 313 = 2" "utf8d ! 314 = 1" "utf8d ! 315 = 1"
  "utf8d ! 320 = 1" "utf8d ! 321 = 1" "utf8d ! 322 = 1" "utf8d ! 323 = 1" "utf8d ! 324 = 1" "utf8d ! 325 = 1" "utf8d ! 326 = 1" "utf8d ! 327 = 2" "utf8d ! 328 = 1" "utf8d ! 329 = 1" "utf8d ! 330 = 1" "utf8d ! 331 = 1"
  "utf8d ! 336 = 1" "utf8d ! 337 = 2" "utf8d ! 338 = 1" "utf8d ! 339 = 1" "utf8d ! 340 = 1" "utf8d ! 341 = 1" "utf8d ! 342 = 1" "utf8d ! 343 = 1" "utf8d ! 344 = 1" "utf8d ! 345 = 2" "utf8d ! 346 = 1" "utf8d ! 347 = 1"
  "utf8d ! 352 = 1" "utf8d ! 353 = 1" "utf8d ! 354 = 1" "utf8d ! 355 = 1" "utf8d ! 356 = 1" "utf8d ! 357 = 1" "utf8d ! 358 = 1" "utf8d ! 359 = 3" "utf8d ! 360 = 1" "utf8d ! 361 = 3" "utf8d ! 362 = 1" "utf8d ! 363 = 1"
  "utf8d ! 368 = 1" "utf8d ! 369 = 3" "utf8d ! 370 = 1" "utf8d ! 371 = 1" "utf8d ! 372 = 1" "utf8d ! 373 = 1" "utf8d ! 374 = 1" "utf8d ! 375 = 3" "utf8d ! 376 = 1" "utf8d ! 377 = 3" "utf8d ! 378 = 1" "utf8d ! 379 = 1"
  "utf8d ! 384 = 1" "utf8d ! 385 = 3" "utf8d ! 386 = 1" "utf8d ! 387 = 1" "utf8d ! 388 = 1" "utf8d ! 389 = 1" "utf8d ! 390 = 1" "utf8d ! 391 = 1" "utf8d ! 392 = 1" "utf8d ! 393 = 1" "utf8d ! 394 = 1" "utf8d ! 395 = 1"
  by (simp_all add: utf8d_rows utf8d_row [of 256] utf8d_row [of 288] utf8d_row [of 304] utf8d_row [of 320] utf8d_row [of 336] utf8d_row [of 352] utf8d_row [of 368] utf8d_row [of 384])

text \<open>One step of the automaton from each live state.\<close>

lemma utf8_run_step:
  "utf8_run 0 (b # bs) =
     (let n = unat b in
      if n < 0x80 then utf8_run 0 bs else if n < 0xC2 then False else if n < 0xE0 then utf8_run 2 bs
      else if n = 0xE0 then utf8_run 4 bs else if n = 0xED then utf8_run 5 bs else if n < 0xF0 then utf8_run 3 bs
      else if n = 0xF0 then utf8_run 6 bs else if n < 0xF4 then utf8_run 7 bs
      else if n = 0xF4 then utf8_run 8 bs else False)"
  "utf8_run 2 (b # bs) = (0x80 \<le> unat b \<and> unat b < 0xC0 \<and> utf8_run 0 bs)"
  "utf8_run 3 (b # bs) = (0x80 \<le> unat b \<and> unat b < 0xC0 \<and> utf8_run 2 bs)"
  "utf8_run 4 (b # bs) = (0xA0 \<le> unat b \<and> unat b < 0xC0 \<and> utf8_run 2 bs)"
  "utf8_run 5 (b # bs) = (0x80 \<le> unat b \<and> unat b < 0xA0 \<and> utf8_run 2 bs)"
  "utf8_run 6 (b # bs) = (0x90 \<le> unat b \<and> unat b < 0xC0 \<and> utf8_run 3 bs)"
  "utf8_run 7 (b # bs) = (0x80 \<le> unat b \<and> unat b < 0xC0 \<and> utf8_run 3 bs)"
  "utf8_run 8 (b # bs) = (0x80 \<le> unat b \<and> unat b < 0x90 \<and> utf8_run 3 bs)"
  by (simp_all add: utf8d_class Let_def utf8d_at utf8_class_def)

section \<open>Scalar values\<close>

text \<open>The reference of RFC 3629: the encoding of a Unicode scalar value.\<close>

definition is_scalar :: "nat \<Rightarrow> bool" where
  "is_scalar cp \<longleftrightarrow> cp < 0xD800 \<or> 0xE000 \<le> cp \<and> cp < 0x110000"

definition utf8_encode :: "nat \<Rightarrow> bytes" where
  "utf8_encode cp =
     (if cp < 0x80 then [of_nat cp]
      else if cp < 0x800 then [of_nat (0xC0 + cp div 64), of_nat (0x80 + cp mod 64)]
      else if cp < 0x10000
      then [of_nat (0xE0 + cp div 4096), of_nat (0x80 + cp div 64 mod 64), of_nat (0x80 + cp mod 64)]
      else [of_nat (0xF0 + cp div 262144), of_nat (0x80 + cp div 4096 mod 64),
            of_nat (0x80 + cp div 64 mod 64), of_nat (0x80 + cp mod 64)])"

lemma unat_of_nat_u8: "k < 256 \<Longrightarrow> unat (of_nat k :: u8) = k"
  by (simp add: unat_of_nat)

lemma unat_add_u8: "a + k < 256 \<Longrightarrow> unat (of_nat (a + k) :: u8) = a + k"
  by (rule unat_of_nat_u8)

lemma utf8_run_2:
  assumes "2 \<le> a" "a < 32" "b < 64"
  shows "utf8_run 0 (of_nat (0xC0 + a) # of_nat (0x80 + b) # bs) = utf8_run 0 bs"
proof -
  have "unat (of_nat (0xC0 + a) :: u8) = 0xC0 + a" "unat (of_nat (0x80 + b) :: u8) = 0x80 + b"
    using assms by (simp_all only: unat_add_u8)
  then show ?thesis using assms unfolding utf8_run_step Let_def by simp
qed

lemma utf8_run_3:
  assumes "a < 16" "b < 64" "c < 64" "a = 0 \<Longrightarrow> 32 \<le> b" "a = 13 \<Longrightarrow> b < 32"
  shows "utf8_run 0 (of_nat (0xE0 + a) # of_nat (0x80 + b) # of_nat (0x80 + c) # bs) = utf8_run 0 bs"
proof -
  have u: "unat (of_nat (0xE0 + a) :: u8) = 0xE0 + a" "unat (of_nat (0x80 + b) :: u8) = 0x80 + b"
    "unat (of_nat (0x80 + c) :: u8) = 0x80 + c"
    using assms by (simp_all only: unat_add_u8)
  consider "a = 0" | "a = 13" | "a \<noteq> 0" "a \<noteq> 13" by blast
  then show ?thesis by cases (use assms in \<open>simp_all add: utf8_run_step Let_def u del: of_nat_add utf8_run.simps(2)\<close>)
qed

lemma utf8_run_4:
  assumes "a < 5" "b < 64" "c < 64" "d < 64" "a = 0 \<Longrightarrow> 16 \<le> b" "a = 4 \<Longrightarrow> b < 16"
  shows "utf8_run 0 (of_nat (0xF0 + a) # of_nat (0x80 + b) # of_nat (0x80 + c) # of_nat (0x80 + d) # bs) =
    utf8_run 0 bs"
proof -
  have u: "unat (of_nat (0xF0 + a) :: u8) = 0xF0 + a" "unat (of_nat (0x80 + b) :: u8) = 0x80 + b"
    "unat (of_nat (0x80 + c) :: u8) = 0x80 + c" "unat (of_nat (0x80 + d) :: u8) = 0x80 + d"
    using assms by (simp_all only: unat_add_u8)
  consider "a = 0" | "a = 4" | "a \<noteq> 0" "a \<noteq> 4" by blast
  then show ?thesis
    by cases (use assms in \<open>simp_all add: utf8_run_step Let_def u del: of_nat_add utf8_run.simps(2)\<close>)
qed

lemma utf8_run_encode:
  assumes "is_scalar cp"
  shows "utf8_run 0 (utf8_encode cp @ bs) = utf8_run 0 bs"
proof -
  consider "cp < 0x80" | "0x80 \<le> cp" "cp < 0x800" | "0x800 \<le> cp" "cp < 0x10000" | "0x10000 \<le> cp" "cp < 0x110000"
    using assms by (atomize_elim) (auto simp: is_scalar_def)
  then show ?thesis
  proof cases
    case 1
    then show ?thesis
      by (simp add: utf8_encode_def utf8_run_step Let_def unat_of_nat_u8 del: utf8_run.simps(2))
  next
    case 2
    then have "2 \<le> cp div 64" "cp div 64 < 32" by linarith+
    with 2 show ?thesis using utf8_run_2 [of "cp div 64" "cp mod 64" bs] by (simp add: utf8_encode_def del: of_nat_add utf8_run.simps(2))
  next
    case 3
    let ?a = "cp div 4096" and ?b = "cp div 64 mod 64"
    have d: "?a * 64 + ?b = cp div 64"
      using div_mult_mod_eq [of "cp div 64" 64] by (simp add: div_mult2_eq [symmetric])
    have "?a < 16" "?a = 0 \<Longrightarrow> 32 \<le> ?b" using 3 d by linarith+
    moreover have "?b < 32" if "?a = 13"
      using assms that d 3 unfolding is_scalar_def by linarith
    ultimately show ?thesis
      using 3 utf8_run_3 [of ?a ?b "cp mod 64" bs] by (simp add: utf8_encode_def del: of_nat_add utf8_run.simps(2))
  next
    case 4
    let ?a = "cp div 262144" and ?b = "cp div 4096 mod 64"
    have d: "?a * 64 + ?b = cp div 4096"
      using div_mult_mod_eq [of "cp div 4096" 64] by (simp add: div_mult2_eq [symmetric])
    have "?a < 5" "?a = 0 \<Longrightarrow> 16 \<le> ?b" "?a = 4 \<Longrightarrow> ?b < 16" using 4 d by linarith+
    then show ?thesis
      using 4 utf8_run_4 [of ?a ?b "cp div 64 mod 64" "cp mod 64" bs] by (simp add: utf8_encode_def del: of_nat_add utf8_run.simps(2))
  qed
qed

lemma digit64: "z < 64 \<Longrightarrow> (x * 64 + z) div 64 = (x :: nat)" "z < 64 \<Longrightarrow> (x * 64 + z) mod 64 = (z :: nat)"
  by simp_all

lemma utf8_encode_2:
  assumes "2 \<le> a" "a < 32" "b < 64"
  shows "utf8_encode (a * 64 + b) = [of_nat (0xC0 + a), of_nat (0x80 + b)]" "is_scalar (a * 64 + b)"
  using assms by (simp_all add: utf8_encode_def is_scalar_def)

lemma utf8_encode_3:
  assumes "a < 16" "b < 64" "c < 64" "a = 0 \<Longrightarrow> 32 \<le> b" "a = 13 \<Longrightarrow> b < 32"
  shows "utf8_encode (a * 4096 + b * 64 + c) = [of_nat (0xE0 + a), of_nat (0x80 + b), of_nat (0x80 + c)]"
    "is_scalar (a * 4096 + b * 64 + c)"
proof -
  have q: "a * 4096 + b * 64 + c = (a * 64 + b) * 64 + c" by simp
  have d: "(a * 4096 + b * 64 + c) div 64 = a * 64 + b" "(a * 4096 + b * 64 + c) mod 64 = c"
    unfolding q by (rule digit64 [OF assms(3)])+
  have e: "(a * 4096 + b * 64 + c) div 4096 = a"
    using d(1) assms(2) div_mult2_eq [of "a * 4096 + b * 64 + c" 64 64] by simp
  have r: "0x800 \<le> a * 4096 + b * 64 + c" "a * 4096 + b * 64 + c < 0x10000"
    using assms by (cases "a = 0"; linarith)+
  have "a < 13 \<or> a = 13 \<or> 13 < a" by linarith
  then show "is_scalar (a * 4096 + b * 64 + c)" using assms r(2) unfolding is_scalar_def by auto
  show "utf8_encode (a * 4096 + b * 64 + c) = [of_nat (0xE0 + a), of_nat (0x80 + b), of_nat (0x80 + c)]"
    unfolding utf8_encode_def d e using r assms(2) by simp
qed

lemma utf8_encode_4:
  assumes "a < 5" "b < 64" "c < 64" "d < 64" "a = 0 \<Longrightarrow> 16 \<le> b" "a = 4 \<Longrightarrow> b < 16"
  shows "utf8_encode (a * 262144 + b * 4096 + c * 64 + d) =
      [of_nat (0xF0 + a), of_nat (0x80 + b), of_nat (0x80 + c), of_nat (0x80 + d)]"
    "is_scalar (a * 262144 + b * 4096 + c * 64 + d)"
proof -
  let ?n = "a * 262144 + b * 4096 + c * 64 + d"
  have q: "?n = ((a * 64 + b) * 64 + c) * 64 + d" by simp
  have e: "?n div 64 = (a * 64 + b) * 64 + c" "?n mod 64 = d" unfolding q by (rule digit64 [OF assms(4)])+
  have e2: "?n div 4096 = a * 64 + b" using e(1) assms(3) div_mult2_eq [of ?n 64 64] by simp
  have e3: "?n div 262144 = a" using e2 assms(2) div_mult2_eq [of ?n 4096 64] by simp
  have "0x10000 \<le> ?n" using assms by (cases "a = 0"; linarith)
  moreover have "?n < 0x110000" using assms by (cases "a = 4"; linarith)
  ultimately show "is_scalar ?n" unfolding is_scalar_def by linarith
  have m: "((a * 64 + b) * 64 + c) mod 64 = c" "(a * 64 + b) mod 64 = b"
    by (rule digit64 [OF assms(3)], rule digit64 [OF assms(2)])
  show "utf8_encode ?n = [of_nat (0xF0 + a), of_nat (0x80 + b), of_nat (0x80 + c), of_nat (0x80 + d)]"
    unfolding utf8_encode_def e e2 e3 m using \<open>0x10000 \<le> ?n\<close> by simp
qed

lemma byte_offset: "k \<le> unat (b :: u8) \<Longrightarrow> \<exists>c. b = of_nat (k + c) \<and> unat b = k + c"
  by (rule exI [of _ "unat b - k"]) simp

lemma utf8_run_2_inv:
  assumes "utf8_run 2 bs"
  shows "\<exists>c rest. bs = of_nat (0x80 + c) # rest \<and> c < 64 \<and> utf8_run 0 rest"
proof (cases bs)
  case (Cons b rest)
  then have b: "0x80 \<le> unat b" "unat b < 0xC0" "utf8_run 0 rest"
    using assms by (simp_all add: utf8_run_step del: utf8_run.simps(2))
  obtain c where "b = of_nat (0x80 + c)" "unat b = 0x80 + c" using byte_offset [OF b(1)] by blast
  then show ?thesis using b Cons by (intro exI [of _ c] exI [of _ rest]) simp
qed (use assms in simp)

lemma utf8_run_3_inv:
  assumes "utf8_run 3 bs"
  shows "\<exists>c d rest. bs = of_nat (0x80 + c) # of_nat (0x80 + d) # rest \<and> c < 64 \<and> d < 64 \<and> utf8_run 0 rest"
proof (cases bs)
  case (Cons b rest)
  then have b: "0x80 \<le> unat b" "unat b < 0xC0" "utf8_run 2 rest"
    using assms by (simp_all add: utf8_run_step del: utf8_run.simps(2))
  obtain c where "b = of_nat (0x80 + c)" "unat b = 0x80 + c" using byte_offset [OF b(1)] by blast
  moreover obtain d rest' where "rest = of_nat (0x80 + d) # rest'" "d < 64" "utf8_run 0 rest'"
    using utf8_run_2_inv [OF b(3)] by blast
  ultimately show ?thesis using b Cons by (intro exI [of _ c] exI [of _ d] exI [of _ rest']) simp
qed (use assms in simp)

lemma utf8_mid3_inv:
  assumes "utf8_run s bs" "s \<in> {3, 4, 5}"
  shows "\<exists>x c rest. bs = of_nat (0x80 + x) # of_nat (0x80 + c) # rest \<and> x < 64 \<and> c < 64 \<and>
    (s = 4 \<longrightarrow> 32 \<le> x) \<and> (s = 5 \<longrightarrow> x < 32) \<and> utf8_run 0 rest"
proof (cases bs)
  case (Cons b bs')
  then have b: "0x80 \<le> unat b" "unat b < 0xC0" "s = 4 \<Longrightarrow> 0xA0 \<le> unat b" "s = 5 \<Longrightarrow> unat b < 0xA0" "utf8_run 2 bs'"
    using assms by (auto simp: utf8_run_step simp del: utf8_run.simps(2))
  obtain x where "b = of_nat (0x80 + x)" "unat b = 0x80 + x" using byte_offset [OF b(1)] by blast
  moreover obtain c rest where "bs' = of_nat (0x80 + c) # rest" "c < 64" "utf8_run 0 rest"
    using utf8_run_2_inv [OF b(5)] by blast
  ultimately show ?thesis using b Cons by (intro exI [of _ x] exI [of _ c] exI [of _ rest]) auto
qed (use assms in auto)

lemma utf8_mid4_inv:
  assumes "utf8_run s bs" "s \<in> {6, 7, 8}"
  shows "\<exists>x c d rest. bs = of_nat (0x80 + x) # of_nat (0x80 + c) # of_nat (0x80 + d) # rest \<and>
    x < 64 \<and> c < 64 \<and> d < 64 \<and> (s = 6 \<longrightarrow> 16 \<le> x) \<and> (s = 8 \<longrightarrow> x < 16) \<and> utf8_run 0 rest"
proof (cases bs)
  case (Cons b bs')
  then have b: "0x80 \<le> unat b" "unat b < 0xC0" "s = 6 \<Longrightarrow> 0x90 \<le> unat b" "s = 8 \<Longrightarrow> unat b < 0x90" "utf8_run 3 bs'"
    using assms by (auto simp: utf8_run_step simp del: utf8_run.simps(2))
  obtain x where "b = of_nat (0x80 + x)" "unat b = 0x80 + x" using byte_offset [OF b(1)] by blast
  moreover obtain c d rest where "bs' = of_nat (0x80 + c) # of_nat (0x80 + d) # rest" "c < 64" "d < 64" "utf8_run 0 rest"
    using utf8_run_3_inv [OF b(5)] by blast
  ultimately show ?thesis using b Cons by (intro exI [of _ x] exI [of _ c] exI [of _ d] exI [of _ rest]) auto
qed (use assms in auto)

lemma utf8_run_0_cases:
  assumes "utf8_run 0 (b # bs)"
  shows "unat b < 0x80 \<and> utf8_run 0 bs \<or>
    (0xC2 \<le> unat b \<and> unat b < 0xE0) \<and> utf8_run 2 bs \<or>
    (0xE0 \<le> unat b \<and> unat b < 0xF0) \<and> utf8_run (if unat b = 0xE0 then 4 else if unat b = 0xED then 5 else 3) bs \<or>
    (0xF0 \<le> unat b \<and> unat b < 0xF5) \<and> utf8_run (if unat b = 0xF0 then 6 else if unat b = 0xF4 then 8 else 7) bs"
  using assms unfolding utf8_run_step Let_def by (simp split: if_splits)

lemma utf8_run_0_head:
  assumes "utf8_run 0 (b # bs)"
  shows "\<exists>cp rest. is_scalar cp \<and> b # bs = utf8_encode cp @ rest \<and> utf8_run 0 rest"
  using utf8_run_0_cases [OF assms]
proof (elim disjE conjE)
  assume "unat b < 0x80" "utf8_run 0 bs"
  then show ?thesis
    by (intro exI [of _ "unat b"] exI [of _ bs]) (simp add: is_scalar_def utf8_encode_def)
next
  assume n: "0xC2 \<le> unat b" "unat b < 0xE0" and r: "utf8_run 2 bs"
  have "0xC0 \<le> unat b" using n(1) by simp
  from byte_offset [OF this] obtain a where a: "b = of_nat (0xC0 + a)" "unat b = 0xC0 + a" by blast
  from utf8_run_2_inv [OF r] obtain c rest where c: "bs = of_nat (0x80 + c) # rest" "c < 64" "utf8_run 0 rest" by blast
  have "2 \<le> a" "a < 32" using n a(2) by simp_all
  from utf8_encode_2 [OF this c(2)] show ?thesis
    by (intro exI [of _ "a * 64 + c"] exI [of _ rest]) (simp add: a(1) c del: of_nat_add)
next
  let ?s = "if unat b = 0xE0 then 4 else if unat b = 0xED then 5 else 3 :: nat"
  assume n: "0xE0 \<le> unat b" "unat b < 0xF0" and r: "utf8_run ?s bs"
  from byte_offset [OF n(1)] obtain a where a: "b = of_nat (0xE0 + a)" "unat b = 0xE0 + a" by blast
  have "?s \<in> {3, 4, 5}" by simp
  from utf8_mid3_inv [OF r this] obtain x c rest where c: "bs = of_nat (0x80 + x) # of_nat (0x80 + c) # rest"
    "x < 64" "c < 64" "?s = 4 \<longrightarrow> 32 \<le> x" "?s = 5 \<longrightarrow> x < 32" "utf8_run 0 rest" by blast
  have "a < 16" "a = 0 \<Longrightarrow> 32 \<le> x" "a = 13 \<Longrightarrow> x < 32" using n a(2) c(4,5) by auto
  from utf8_encode_3 [OF this(1) c(2,3) this(2,3)] show ?thesis
    using c(6) by (intro exI [of _ "a * 4096 + x * 64 + c"] exI [of _ rest]) (simp add: a(1) c(1) del: of_nat_add)
next
  let ?s = "if unat b = 0xF0 then 6 else if unat b = 0xF4 then 8 else 7 :: nat"
  assume n: "0xF0 \<le> unat b" "unat b < 0xF5" and r: "utf8_run ?s bs"
  from byte_offset [OF n(1)] obtain a where a: "b = of_nat (0xF0 + a)" "unat b = 0xF0 + a" by blast
  have "?s \<in> {6, 7, 8}" by simp
  from utf8_mid4_inv [OF r this] obtain x c d rest where c: "bs = of_nat (0x80 + x) # of_nat (0x80 + c) # of_nat (0x80 + d) # rest"
    "x < 64" "c < 64" "d < 64" "?s = 6 \<longrightarrow> 16 \<le> x" "?s = 8 \<longrightarrow> x < 16" "utf8_run 0 rest" by blast
  have "a < 5" "a = 0 \<Longrightarrow> 16 \<le> x" "a = 4 \<Longrightarrow> x < 16" using n a(2) c(5,6) by auto
  from utf8_encode_4 [OF this(1) c(2,3,4) this(2,3)] show ?thesis
    using c(7) by (intro exI [of _ "a * 262144 + x * 4096 + c * 64 + d"] exI [of _ rest]) (simp add: a(1) c(1) del: of_nat_add)
qed

lemma is_valid_utf8_sound: "utf8_run 0 bs \<Longrightarrow> \<exists>cps. list_all is_scalar cps \<and> bs = concat (map utf8_encode cps)"
proof (induction bs rule: length_induct)
  case (1 bs)
  show ?case
  proof (cases bs)
    case Nil
    then show ?thesis by (intro exI [of _ "[]"]) simp
  next
    case (Cons b bs')
    obtain cp rest where r: "is_scalar cp" "bs = utf8_encode cp @ rest" "utf8_run 0 rest"
      using utf8_run_0_head 1(2) Cons by blast
    have "length rest < length bs" using r(2) by (simp add: utf8_encode_def)
    then obtain cps where "list_all is_scalar cps" "rest = concat (map utf8_encode cps)" using 1(1) r(3) by blast
    then show ?thesis using r by (intro exI [of _ "cp # cps"]) simp
  qed
qed

lemma is_valid_utf8_complete: "list_all is_scalar cps \<Longrightarrow> utf8_run 0 (concat (map utf8_encode cps))"
  by (induction cps) (simp_all add: utf8_run_encode)

text \<open>
  C33. The validator accepts a byte string exactly when it is the concatenated UTF-8 encoding of a
  sequence of Unicode scalar values: no overlong form, no surrogate, nothing above U+10FFFF, no
  truncated sequence.
\<close>

theorem is_valid_utf8_rfc3629:
  "is_valid_utf8 data \<longleftrightarrow> (\<exists>cps. list_all is_scalar cps \<and> data = concat (map utf8_encode cps))"
  using is_valid_utf8_sound is_valid_utf8_complete unfolding is_valid_utf8_def by metis

end
