(* ===== verification/Ws_Inflate.thy ===== *)
theory Ws_Inflate
  imports Core_Codec
begin

text \<open>
  \<open>WsInflater\<close>, \<^verbatim>\<open>eph-codec/include/eph/codec/detail/ws_inflate.hpp\<close>: the permessage-deflate
  receiver around zlib. zlib and the growth policy of \<open>std::vector\<close> are the parameter \<open>zlib\<close>:
  \<open>zl_inflate\<close> gets the stream state, the bytes at \<open>next_in\<close>, the room at \<open>next_out\<close> and the flush
  mode, and answers the return code, the new state, how many input bytes it took and the bytes it
  offers for the output window. Both loops of the code are total functions: they terminate for any
  such zlib, because an iteration that neither consumed nor produced anything ends the message.
\<close>

section \<open>Parameters and state\<close>

definition Z_OK :: int where "Z_OK = 0"
definition Z_STREAM_END :: int where "Z_STREAM_END = 1"
definition Z_BUF_ERROR :: int where "Z_BUF_ERROR = - 5"
definition Z_NO_FLUSH :: int where "Z_NO_FLUSH = 0"
definition Z_SYNC_FLUSH :: int where "Z_SYNC_FLUSH = 2"

record 'z zlib =
  zl_init2 :: "int \<times> 'z"
  zl_inflate :: "'z \<Rightarrow> bytes \<Rightarrow> nat \<Rightarrow> int \<Rightarrow> int \<times> 'z \<times> nat \<times> bytes"
  zl_reset :: "'z \<Rightarrow> int \<times> 'z"
  vec_grow :: "nat \<Rightarrow> nat \<Rightarrow> nat"

text \<open>\<open>wi_strm\<close> is \<open>None\<close> until \<open>inflateInit2\<close> succeeded (the code's \<open>initialized_\<close> flag).\<close>

record 'z WsInflater =
  wi_strm :: "'z option"
  wi_out :: bytes
  wi_cap :: nat
  max_inflated_size :: nat

definition mk_WsInflater :: "nat \<Rightarrow> 'z WsInflater" where
  "mk_WsInflater limit = \<lparr>wi_strm = None, wi_out = [], wi_cap = 0, max_inflated_size = limit\<rparr>"

definition kInitialOutCapacity :: nat where
  "kInitialOutCapacity = 4096"

definition kDeflateTail :: bytes where
  "kDeflateTail = [0x00, 0x00, 0xFF, 0xFF]"

definition to_uInt :: "nat \<Rightarrow> nat" where
  "to_uInt n = n mod 2 ^ 32"

definition resized_cap :: "('z, 'x) zlib_scheme \<Rightarrow> nat \<Rightarrow> nat \<Rightarrow> nat" where
  "resized_cap zl cap n = (if n \<le> cap then cap else vec_grow zl cap n)"

text \<open>
  One call of \<open>inflate\<close> on a window of \<open>win\<close> fresh (zeroed) bytes after \<open>out\<close>: the return code, the
  new stream state, the input left, the number \<open>produced\<close> and the output kept.
\<close>

definition inflate_call ::
    "('z, 'x) zlib_scheme \<Rightarrow> 'z \<Rightarrow> bytes \<Rightarrow> bytes \<Rightarrow> nat \<Rightarrow> int \<Rightarrow> int \<times> 'z \<times> bytes \<times> nat \<times> bytes" where
  "inflate_call zl z inp out win flush =
     (let avail_out = to_uInt win;
          (ret, z, taken, p) = zl_inflate zl z inp avail_out flush;
          p = take avail_out p;
          produced = win - (avail_out - length p)
      in (ret, z, drop taken inp, produced, out @ take produced (p @ replicate (win - length p) 0)))"

lemma inflate_call_bounds:
  assumes "inflate_call zl z inp out win flush = (ret, z', inp', produced, out')"
  shows "length out' = length out + produced" "produced \<le> win" "length inp' \<le> length inp"
proof -
  obtain r z1 k p where c: "zl_inflate zl z inp (to_uInt win) flush = (r, z1, k, p)" using prod_cases4 by blast
  let ?p = "take (to_uInt win) p"
  have e: "inp' = drop k inp" "produced = win - (to_uInt win - length ?p)"
      "out' = out @ take produced (?p @ replicate (win - length ?p) 0)"
    using assms unfolding inflate_call_def c Let_def by auto
  show "produced \<le> win" "length inp' \<le> length inp" using e by simp_all
  then have "produced \<le> length (?p @ replicate (win - length ?p) 0)" by simp
  then show "length out' = length out + produced" using e(3) by simp
qed

section \<open>Inflating a message\<close>

text \<open>The loop of the \<open>feed\<close> lambda.\<close>

function wi_feed_loop ::
    "('z, 'x) zlib_scheme \<Rightarrow> nat \<Rightarrow> 'z \<Rightarrow> bytes \<Rightarrow> bytes \<Rightarrow> nat \<Rightarrow>
     (ErrorInfo, unit) expected \<times> 'z \<times> bytes \<times> nat" where
  "wi_feed_loop zl limit z inp out cap =
     (if inp = [] then (Inr (), z, out, cap)
      else if length out \<ge> limit
      then (Inl (ErrorInfo CodecOverflow ''WsInflater: inflated payload exceeds max''), z, out, cap)
      else
        let old_size = length out;
            want_total = max cap (old_size + kInitialOutCapacity);
            size = min want_total limit;
            cap = resized_cap zl cap size;
            (ret, z, inp', produced, out') = inflate_call zl z inp out (size - old_size) Z_NO_FLUSH in
        if ret = Z_OK \<or> ret = Z_BUF_ERROR then
          if produced = 0 \<and> length inp' = length inp
          then (Inl (ErrorInfo CodecBad ''WsInflater: zlib inflate stuck (no progress)''), z, out', cap)
          else wi_feed_loop zl limit z inp' out' cap
        else if ret = Z_STREAM_END then (Inr (), z, out', cap)
        else (Inl (ErrorInfo CodecBad ''WsInflater: zlib inflate failed''), z, out', cap))"
  by pat_completeness auto
termination
proof (relation "measure (\<lambda>(zl, limit, z, inp, out, cap). (limit - length out) + length inp)", goal_cases)
  case (2 zl limit z inp out cap old_size want_total size cap' x ret y1 z1 y2 inp' y3 produced out')
  have "inflate_call zl z inp out (size - old_size) Z_NO_FLUSH = (ret, z1, inp', produced, out')"
    using 2 by simp
  from inflate_call_bounds [OF this] 2 show ?case
    by (auto simp: min_def max_def split: if_splits)
qed simp

declare wi_feed_loop.simps [simp del]

definition wi_feed ::
    "('z, 'x) zlib_scheme \<Rightarrow> nat \<Rightarrow> 'z \<Rightarrow> bytes \<Rightarrow> bytes \<Rightarrow> nat \<Rightarrow>
     (ErrorInfo, unit) expected \<times> 'z \<times> bytes \<times> nat" where
  "wi_feed zl limit z src out cap = wi_feed_loop zl limit z (take (to_uInt (length src)) src) out cap"

text \<open>The final flush.\<close>

function wi_drain ::
    "('z, 'x) zlib_scheme \<Rightarrow> nat \<Rightarrow> 'z \<Rightarrow> bytes \<Rightarrow> nat \<Rightarrow> (ErrorInfo, unit) expected \<times> 'z \<times> bytes \<times> nat" where
  "wi_drain zl limit z out cap =
     (if length out \<ge> limit
      then (Inl (ErrorInfo CodecOverflow ''WsInflater: inflated payload exceeds max''), z, out, cap)
      else
        let old_size = length out;
            size = min (old_size + kInitialOutCapacity) limit;
            cap = resized_cap zl cap size;
            (ret, z, inp', produced, out') = inflate_call zl z [] out (size - old_size) Z_SYNC_FLUSH in
        if produced = 0 \<or> ret = Z_BUF_ERROR then (Inr (), z, out', cap)
        else if ret \<noteq> Z_OK \<and> ret \<noteq> Z_STREAM_END
        then (Inl (ErrorInfo CodecBad ''WsInflater: zlib drain inflate failed''), z, out', cap)
        else wi_drain zl limit z out' cap)"
  by pat_completeness auto
termination
proof (relation "measure (\<lambda>(zl, limit, z, out, cap). limit - length out)", goal_cases)
  case (2 zl limit z out cap old_size size cap' x ret y1 z1 y2 inp' y3 produced out')
  have "inflate_call zl z [] out (size - old_size) Z_SYNC_FLUSH = (ret, z1, inp', produced, out')"
    using 2 by simp
  from inflate_call_bounds [OF this] 2 show ?case
    by (auto simp: min_def split: if_splits)
qed simp

declare wi_drain.simps [simp del]

definition inflate_init :: "('z, 'x) zlib_scheme \<Rightarrow> 'z WsInflater \<Rightarrow> (ErrorInfo, 'z) expected \<times> 'z WsInflater" where
  "inflate_init zl w =
     (case wi_strm w of
        Some z \<Rightarrow> (Inr z, w)
      | None \<Rightarrow>
          let (ret, z) = zl_init2 zl in
          if ret \<noteq> Z_OK then (Inl (ErrorInfo CodecBad ''WsInflater: inflateInit2 failed''), w)
          else (Inr z, w\<lparr>wi_strm := Some z, wi_cap := resized_cap zl (wi_cap w) kInitialOutCapacity\<rparr>))"

definition reset_on_error ::
    "('z, 'x) zlib_scheme \<Rightarrow> 'z WsInflater \<Rightarrow> 'z \<Rightarrow> bytes \<Rightarrow> nat \<Rightarrow> ErrorInfo \<Rightarrow>
     (ErrorInfo, bytes) expected \<times> 'z WsInflater" where
  "reset_on_error zl w z out cap err =
     (Inl err, w\<lparr>wi_strm := Some (snd (zl_reset zl z)), wi_out := out, wi_cap := cap\<rparr>)"

text \<open>The body of a message: the compressed bytes, the tail, the final flush, stopping at the first error.\<close>

definition inflate_body ::
    "('z, 'x) zlib_scheme \<Rightarrow> nat \<Rightarrow> 'z \<Rightarrow> bytes \<Rightarrow> nat \<Rightarrow> (ErrorInfo, unit) expected \<times> 'z \<times> bytes \<times> nat" where
  "inflate_body zl limit z compressed cap =
     (case (if compressed \<noteq> [] then wi_feed zl limit z compressed [] cap else (Inr (), z, [], cap)) of
        (Inl e, z, out, cap) \<Rightarrow> (Inl e, z, out, cap)
      | (Inr _, z, out, cap) \<Rightarrow>
        (case wi_feed zl limit z kDeflateTail out cap of
           (Inl e, z, out, cap) \<Rightarrow> (Inl e, z, out, cap)
         | (Inr _, z, out, cap) \<Rightarrow> wi_drain zl limit z out cap))"

definition inflate_message ::
    "('z, 'x) zlib_scheme \<Rightarrow> 'z WsInflater \<Rightarrow> bytes \<Rightarrow> bool \<Rightarrow> (ErrorInfo, bytes) expected \<times> 'z WsInflater" where
  "inflate_message zl w compressed reset_after =
     (case inflate_init zl w of
        (Inl e, w) \<Rightarrow> (Inl e, w)
      | (Inr z, w) \<Rightarrow>
        (case inflate_body zl (max_inflated_size w) z compressed (wi_cap w) of
           (Inl e, z, out, cap) \<Rightarrow> reset_on_error zl w z out cap e
         | (Inr _, z, out, cap) \<Rightarrow>
           if reset_after then
             let (ret, z) = zl_reset zl z;
                 w = w\<lparr>wi_strm := Some z, wi_out := out, wi_cap := cap\<rparr> in
             if ret \<noteq> Z_OK then (Inl (ErrorInfo CodecBad ''WsInflater: inflateReset failed''), w)
             else (Inr out, w)
           else (Inr out, w\<lparr>wi_strm := Some z, wi_out := out, wi_cap := cap\<rparr>)))"

section \<open>Bounds\<close>

abbreviation feed_size :: "nat \<Rightarrow> bytes \<Rightarrow> nat \<Rightarrow> nat" where
  "feed_size limit out cap \<equiv> min (max cap (length out + kInitialOutCapacity)) limit"

lemma wi_feed_loop_step:
  assumes "inp \<noteq> []" "length out < limit"
    and "inflate_call zl z inp out (feed_size limit out cap - length out) Z_NO_FLUSH = (ret, z1, inp1, produced, out1)"
  shows "wi_feed_loop zl limit z inp out cap =
    (let cap1 = resized_cap zl cap (feed_size limit out cap) in
     if ret = Z_OK \<or> ret = Z_BUF_ERROR then
       if produced = 0 \<and> length inp1 = length inp
       then (Inl (ErrorInfo CodecBad ''WsInflater: zlib inflate stuck (no progress)''), z1, out1, cap1)
       else wi_feed_loop zl limit z1 inp1 out1 cap1
     else if ret = Z_STREAM_END then (Inr (), z1, out1, cap1)
     else (Inl (ErrorInfo CodecBad ''WsInflater: zlib inflate failed''), z1, out1, cap1))"
proof -
  have "\<not> limit \<le> length out" using assms(2) by simp
  then show ?thesis
    by (subst wi_feed_loop.simps [of zl limit z inp out cap]) (simp only: assms Let_def prod.case if_False)
qed

lemma wi_feed_loop_limit:
  "wi_feed_loop zl limit z inp out cap = (r, z', out', cap') \<Longrightarrow> length out \<le> limit \<Longrightarrow> length out' \<le> limit"
proof (induction "(limit - length out) + length inp" arbitrary: z inp out cap rule: less_induct)
  case less
  show ?case
  proof (cases "inp = [] \<or> limit \<le> length out")
    case True
    then show ?thesis using less.prems by (subst (asm) wi_feed_loop.simps) (auto split: if_splits)
  next
    case False
    then have n: "inp \<noteq> []" "length out < limit" by auto
    obtain ret z1 inp1 produced out1 where c:
      "inflate_call zl z inp out (feed_size limit out cap - length out) Z_NO_FLUSH = (ret, z1, inp1, produced, out1)"
      using prod_cases5 by blast
    note b = inflate_call_bounds [OF c]
    have le: "length out1 \<le> limit" using b n by linarith
    note st = wi_feed_loop_step [OF n c]
    show ?thesis
    proof (cases "(ret = Z_OK \<or> ret = Z_BUF_ERROR) \<and> \<not> (produced = 0 \<and> length inp1 = length inp)")
      case True
      then have e: "wi_feed_loop zl limit z1 inp1 out1 (resized_cap zl cap (feed_size limit out cap)) = (r, z', out', cap')"
        using less.prems(1) unfolding st Let_def by (simp split: if_splits)
      have "(limit - length out1) + length inp1 < (limit - length out) + length inp"
        using True b n le by linarith
      from less.hyps [OF this e le] show ?thesis .
    next
      case False
      then have "out' = out1"
        using less.prems(1) unfolding st Let_def by (auto split: if_splits)
      then show ?thesis using le by simp
    qed
  qed
qed

lemma wi_feed_limit:
  "wi_feed zl limit z src out cap = (r, z', out', cap') \<Longrightarrow> length out \<le> limit \<Longrightarrow> length out' \<le> limit"
  unfolding wi_feed_def by (rule wi_feed_loop_limit)

lemma wi_drain_step:
  assumes "length out < limit"
    and "inflate_call zl z [] out (min (length out + kInitialOutCapacity) limit - length out) Z_SYNC_FLUSH = (ret, z1, inp1, produced, out1)"
  shows "wi_drain zl limit z out cap =
    (let cap1 = resized_cap zl cap (min (length out + kInitialOutCapacity) limit) in
     if produced = 0 \<or> ret = Z_BUF_ERROR then (Inr (), z1, out1, cap1)
     else if ret \<noteq> Z_OK \<and> ret \<noteq> Z_STREAM_END
     then (Inl (ErrorInfo CodecBad ''WsInflater: zlib drain inflate failed''), z1, out1, cap1)
     else wi_drain zl limit z1 out1 cap1)"
proof -
  have "\<not> limit \<le> length out" using assms(1) by simp
  then show ?thesis
    by (subst wi_drain.simps [of zl limit z out cap]) (simp only: assms Let_def prod.case if_False)
qed

text \<open>
  zlib reports \<open>Z_BUF_ERROR\<close> only for a call that made no progress (its manual: the error is not
  fatal and means that no progress was possible).
\<close>

definition buf_error_is_idle :: "('z, 'x) zlib_scheme \<Rightarrow> bool" where
  "buf_error_is_idle zl \<longleftrightarrow>
     (\<forall>z inp room flush ret z' k p. zl_inflate zl z inp room flush = (ret, z', k, p) \<longrightarrow> ret = Z_BUF_ERROR \<longrightarrow> p = [])"

lemma inflate_call_idle:
  assumes "buf_error_is_idle zl" "inflate_call zl z inp out win flush = (Z_BUF_ERROR, z', inp', produced, out')" "win < 2 ^ 32"
  shows "produced = 0"
proof -
  obtain ret z1 k p where c: "zl_inflate zl z inp win flush = (ret, z1, k, p)" using prod_cases4 by blast
  then have "ret = Z_BUF_ERROR" and pr: "produced = min (length p) win"
    using assms(2,3) by (auto simp: inflate_call_def Let_def to_uInt_def)
  then have "p = []" using assms(1) c unfolding buf_error_is_idle_def by blast
  then show ?thesis using pr by simp
qed

lemma wi_drain_limit:
  "wi_drain zl limit z out cap = (r, z', out', cap') \<Longrightarrow> length out \<le> limit \<Longrightarrow>
   length out' \<le> limit \<and> (buf_error_is_idle zl \<longrightarrow> r = Inr () \<longrightarrow> length out' < limit)"
proof (induction "limit - length out" arbitrary: z out cap rule: less_induct)
  case less
  show ?case
  proof (cases "limit \<le> length out")
    case True
    then show ?thesis using less.prems by (subst (asm) wi_drain.simps) auto
  next
    case False
    then have n: "length out < limit" by simp
    let ?win = "min (length out + kInitialOutCapacity) limit - length out"
    obtain ret z1 inp1 produced out1 where c:
      "inflate_call zl z [] out ?win Z_SYNC_FLUSH = (ret, z1, inp1, produced, out1)"
      using prod_cases5 by blast
    note b = inflate_call_bounds [OF c]
    have le: "length out1 \<le> limit" using b n by linarith
    have idle: "produced = 0" if "buf_error_is_idle zl" "ret = Z_BUF_ERROR"
      using inflate_call_idle [OF that(1) c [unfolded that(2)]] by (simp add: kInitialOutCapacity_def)
    note st = wi_drain_step [OF n c]
    show ?thesis
    proof (cases "produced = 0 \<or> ret = Z_BUF_ERROR")
      case True
      then have "out' = out1" using less.prems(1) unfolding st Let_def by auto
      moreover have "length out1 < limit" if "buf_error_is_idle zl" using True idle that b(1) n by auto
      ultimately show ?thesis using le by auto
    next
      case f: False
      show ?thesis
      proof (cases "ret \<noteq> Z_OK \<and> ret \<noteq> Z_STREAM_END")
        case True
        then show ?thesis using less.prems(1) f le unfolding st Let_def by auto
      next
        case False
        then have e: "wi_drain zl limit z1 out1 (resized_cap zl cap (min (length out + kInitialOutCapacity) limit)) = (r, z', out', cap')"
          using less.prems(1) f unfolding st Let_def by (simp split: if_splits)
        have "limit - length out1 < limit - length out" using f b n by linarith
        from less.hyps [OF this e le] show ?thesis .
      qed
    qed
  qed
qed

section \<open>Properties of the inflater\<close>

lemma inflate_init_max: "inflate_init zl w = (r, w') \<Longrightarrow> max_inflated_size w' = max_inflated_size w"
  by (auto simp: inflate_init_def Let_def split: option.splits prod.splits if_splits)

lemma inflate_body_limit:
  assumes "inflate_body zl limit z compressed cap = (r, z', out, cap')"
  shows "length out \<le> limit \<and> (buf_error_is_idle zl \<longrightarrow> r = Inr () \<longrightarrow> length out < limit)"
proof -
  obtain r1 z1 o1 c1 where f1:
      "(if compressed \<noteq> [] then wi_feed zl limit z compressed [] cap else (Inr (), z, [], cap)) = (r1, z1, o1, c1)"
    using prod_cases4 by blast
  then have l1: "length o1 \<le> limit" using wi_feed_limit [of zl limit z compressed "[]"] by (auto split: if_splits)
  obtain r2 z2 o2 c2 where f2: "wi_feed zl limit z1 kDeflateTail o1 c1 = (r2, z2, o2, c2)" using prod_cases4 by blast
  have l2: "length o2 \<le> limit" by (rule wi_feed_limit [OF f2 l1])
  show ?thesis
  proof (cases r1)
    case (Inl e)
    then show ?thesis using assms l1 unfolding inflate_body_def f1 by auto
  next
    case r1: (Inr u)
    show ?thesis
    proof (cases r2)
      case (Inl e)
      then show ?thesis using assms l2 r1 unfolding inflate_body_def f1 by (auto simp: f2)
    next
      case (Inr u)
      then show ?thesis using assms l2 r1 wi_drain_limit unfolding inflate_body_def f1 by (simp add: f2)
    qed
  qed
qed

lemma inflate_message_outcome:
  assumes "inflate_message zl w compressed reset_after = (r, w')"
  shows "max_inflated_size w' = max_inflated_size w \<and>
    (wi_out w' = wi_out w \<and> (\<exists>e. r = Inl e) \<or>
     (\<exists>q z z' cap cap'. inflate_body zl (max_inflated_size w) z compressed cap = (q, z', wi_out w', cap') \<and>
        (\<forall>plain. r = Inr plain \<longrightarrow> q = Inr () \<and> plain = wi_out w')))"
proof -
  obtain r0 w0 where i: "inflate_init zl w = (r0, w0)" by fastforce
  have lim: "max_inflated_size w0 = max_inflated_size w" using inflate_init_max [OF i] .
  show ?thesis
  proof (cases r0)
    case (Inl e)
    then show ?thesis using assms i lim by (auto simp: inflate_message_def inflate_init_def Let_def split: option.splits prod.splits if_splits)
  next
    case (Inr z0)
    obtain q z out cap where b: "inflate_body zl (max_inflated_size w) z0 compressed (wi_cap w0) = (q, z, out, cap)"
      using prod_cases4 by blast
    have "max_inflated_size w' = max_inflated_size w \<and> wi_out w' = out \<and> (\<forall>plain. r = Inr plain \<longrightarrow> q = Inr () \<and> plain = out)"
      using assms i Inr lim b
      by (cases q) (auto simp: inflate_message_def reset_on_error_def Let_def split: if_splits prod.splits)
    then show ?thesis using b by blast
  qed
qed

lemma inflate_message_okE:
  assumes "inflate_message zl w compressed reset_after = (Inr plain, w')"
  obtains z z' cap cap' where "inflate_body zl (max_inflated_size w) z compressed cap = (Inr (), z', plain, cap')"
    and "wi_out w' = plain"
proof -
  from inflate_message_outcome [OF assms] obtain q z z' cap cap' where
      "inflate_body zl (max_inflated_size w) z compressed cap = (q, z', wi_out w', cap')" "q = Inr ()" "plain = wi_out w'" by blast
  then show ?thesis by (intro that [of z cap z' cap']) simp_all
qed

text \<open>
  C37. The deflate-bomb guard: whatever zlib answers, and whether the message is delivered or refused,
  the output buffer never grows beyond \<open>max_inflated_size\<close>, and a delivered message is that buffer.
  With a zlib that reports \<open>Z_BUF_ERROR\<close> only for calls without progress a delivered message is
  strictly shorter: a message of exactly the maximum is refused as exceeding it.
\<close>

theorem inflate_message_bounded:
  assumes "inflate_message zl w compressed reset_after = (r, w')" "length (wi_out w) \<le> max_inflated_size w"
  shows "length (wi_out w') \<le> max_inflated_size w' \<and> max_inflated_size w' = max_inflated_size w \<and>
    (\<forall>plain. r = Inr plain \<longrightarrow> plain = wi_out w' \<and> (buf_error_is_idle zl \<longrightarrow> length plain < max_inflated_size w))"
  using inflate_message_outcome [OF assms(1)] assms(2) by (auto dest: inflate_body_limit)

text \<open>A concrete stream for evaluation: it copies its input except for the bytes 0 and 255.\<close>

definition stored_zlib :: "bytes zlib" where
  "stored_zlib = \<lparr>zl_init2 = (0, []),
     zl_inflate = (\<lambda>z inp room flush.
       if inp = [] \<and> z = [] \<or> room = 0 then (Z_BUF_ERROR, z, 0, [])
       else (Z_OK, drop room (z @ filter (\<lambda>b. b \<noteq> 0 \<and> b \<noteq> 0xFF) inp), length inp,
             take room (z @ filter (\<lambda>b. b \<noteq> 0 \<and> b \<noteq> 0xFF) inp))),
     zl_reset = (\<lambda>z. (0, [])), vec_grow = (\<lambda>cap n. n)\<rparr>"

theorem inflate_message_bounded_witness:
  "\<exists>r w'. inflate_message stored_zlib (mk_WsInflater 4) [7, 8, 9] False = (Inr [7, 8, 9], w') \<and> wi_out w' = [7, 8, 9] \<and>
     length [7, 8, 9 :: u8] < max_inflated_size (mk_WsInflater 4 :: bytes WsInflater) \<and>
     inflate_message stored_zlib (mk_WsInflater 4) [7, 8, 9, 10, 11] False = (Inl r, snd (inflate_message stored_zlib (mk_WsInflater 4) [7, 8, 9, 10, 11] False)) \<and>
     length (wi_out (snd (inflate_message stored_zlib (mk_WsInflater 4) [7, 8, 9, 10, 11] False))) \<le> 4"
proof -
  have z: "length (wi_out (mk_WsInflater 4 :: bytes WsInflater)) \<le> max_inflated_size (mk_WsInflater 4 :: bytes WsInflater)"
    by (simp add: mk_WsInflater_def)
  have r: "fst (inflate_message stored_zlib (mk_WsInflater 4) [7, 8, 9] False) = Inr [7, 8, 9]" by code_simp
  have e: "isl (fst (inflate_message stored_zlib (mk_WsInflater 4) [7, 8, 9, 10, 11] False))" by code_simp
  have idle: "buf_error_is_idle stored_zlib"
    by (auto simp: buf_error_is_idle_def stored_zlib_def Z_OK_def Z_BUF_ERROR_def split: if_splits)
  obtain w' where w: "inflate_message stored_zlib (mk_WsInflater 4) [7, 8, 9] False = (Inr [7, 8, 9], w')"
    using r by (metis prod.collapse)
  obtain x w2 where x: "inflate_message stored_zlib (mk_WsInflater 4) [7, 8, 9, 10, 11] False = (Inl x, w2)"
    using e by (metis prod.collapse sum.collapse(1))
  have m: "max_inflated_size (mk_WsInflater 4 :: bytes WsInflater) = 4" by (simp add: mk_WsInflater_def)
  note b = inflate_message_bounded [OF w z, THEN conjunct2, THEN conjunct2, THEN spec, THEN mp, OF refl]
  note p = b [THEN conjunct1, symmetric] b [THEN conjunct2, THEN mp, OF idle]
  have "length (wi_out w2) \<le> 4" using inflate_message_bounded [OF x z] m by simp
  then show ?thesis using w x p by simp
qed

end
