(* ===== verification/Ws_Codec.thy ===== *)
theory Ws_Codec
  imports Ws_Wire Ws_Inflate
begin

text \<open>
  \<open>WsCodec\<close>, \<^verbatim>\<open>eph-codec/include/eph/codec/ws_codec.hpp\<close>: the stateful codec that turns a byte
  stream into WebSocket messages, answering pings and close frames on the way, reassembling
  fragmented messages and inflating compressed ones. \<open>ws_on_frame\<close> is what \<open>decode\<close> does with one
  complete frame; the boolean it returns is whether the code called \<open>view.trim_front(consumed)\<close>.
  A call writes at most one frame into the sink, so it takes one mask key.
\<close>

section \<open>State\<close>

record WsCodecConfig =
  max_message_size :: nat
  auto_pong :: bool
  auto_close_ack :: bool
  permessage_deflate :: bool
  server_no_context_takeover :: bool

definition default_WsCodecConfig :: WsCodecConfig where
  "default_WsCodecConfig = \<lparr>max_message_size = 2 ^ 20, auto_pong = True, auto_close_ack = True,
     permessage_deflate = False, server_no_context_takeover = False\<rparr>"

record 'z WsCodec =
  ws_cfg :: WsCodecConfig
  frag_buf :: bytes
  frag_opcode :: u8
  compressed_msg :: bool
  ws_inflater :: "'z WsInflater option"
  deflate_bytes_in :: u64
  deflate_bytes_out :: u64

definition mk_WsCodec :: "WsCodecConfig \<Rightarrow> 'z WsCodec" where
  "mk_WsCodec cfg = \<lparr>ws_cfg = cfg, frag_buf = [], frag_opcode = 0, compressed_msg = False,
     ws_inflater = None, deflate_bytes_in = 0, deflate_bytes_out = 0\<rparr>"

definition enable_permessage_deflate :: "bool \<Rightarrow> 'z WsCodec \<Rightarrow> 'z WsCodec" where
  "enable_permessage_deflate server_no_ctx_takeover c =
     c\<lparr>ws_cfg := (ws_cfg c)\<lparr>permessage_deflate := True, server_no_context_takeover := server_no_ctx_takeover\<rparr>\<rparr>"

section \<open>Auto-responses\<close>

definition emit_pong :: "bytes \<Rightarrow> OutputBuffer \<Rightarrow> DecodedFrame \<Rightarrow> (ErrorInfo, unit) expected \<times> OutputBuffer" where
  "emit_pong key out ping =
     (if unat (df_payload_len ping) > kMaxControlPayloadLen
      then (Inl (ErrorInfo CodecBad ''WsCodec::emit_pong: control payload exceeds 125 bytes''), out)
      else
        let pong_payload = (if df_masked ping \<and> df_payload_len ping > 0
                            then apply_mask (df_payload ping) (df_mask_key ping)
                            else df_payload ping);
            scratch = build_pong_frame key (Some pong_payload) in
        if scratch = [] then (Inl (ErrorInfo CodecBad ''WsCodec: build_pong_frame failed''), out)
        else append_ob out scratch)"

definition emit_close :: "bytes \<Rightarrow> OutputBuffer \<Rightarrow> u16 \<Rightarrow> (ErrorInfo, unit) expected \<times> OutputBuffer" where
  "emit_close key out status_code =
     (let scratch = build_close_frame key status_code [] in
      if scratch = [] then (Inl (ErrorInfo CodecBad ''WsCodec: build_close_frame failed''), out)
      else append_ob out scratch)"

definition close_ack_code :: "DecodedFrame \<Rightarrow> u16" where
  "close_ack_code frame =
     (let code = close_status_code frame in
      if df_payload_len frame = 0 then kNormal
      else if \<not> is_valid_close_code code then kProtocolError
      else code)"

section \<open>Decoding\<close>

type_synonym 'z ws_step = "(ErrorInfo, bytes option) expected \<times> bool \<times> 'z WsCodec \<times> OutputBuffer"

definition unmasked_payload :: "DecodedFrame \<Rightarrow> bytes" where
  "unmasked_payload frame =
     (if df_masked frame then apply_mask (df_payload frame) (df_mask_key frame) else df_payload frame)"

text \<open>The message-start bookkeeping of a data frame; an error leaves the view untouched.\<close>

definition ws_begin_data :: "DecodedFrame \<Rightarrow> 'z WsCodec \<Rightarrow> ErrorInfo option \<times> 'z WsCodec" where
  "ws_begin_data frame c =
     (if df_opcode frame \<noteq> kContinuation then
        let c = c\<lparr>frag_buf := [], frag_opcode := (if df_fin frame then 0 else df_opcode frame),
                  compressed_msg := df_rsv1 frame\<rparr> in
        if compressed_msg c \<and> \<not> permessage_deflate (ws_cfg c)
        then (Some (ErrorInfo CodecBad ''WsCodec::decode: compressed frame without permessage-deflate negotiation''), c)
        else (None, c)
      else if frag_opcode c = 0
      then (Some (ErrorInfo WsFrameBad ''WsCodec::decode: orphan continuation frame''), c)
      else if df_rsv1 frame
      then (Some (ErrorInfo WsFrameBad ''WsCodec::decode: RSV1 on continuation frame''), c)
      else (None, c))"

definition ws_compressed :: "('z, 'x) zlib_scheme \<Rightarrow> DecodedFrame \<Rightarrow> 'z WsCodec \<Rightarrow> OutputBuffer \<Rightarrow> 'z ws_step" where
  "ws_compressed zl frame c out =
     (let new_size = length (frag_buf c) + unat (df_payload_len frame) in
      if new_size > max_message_size (ws_cfg c)
      then (Inl (ErrorInfo CodecOverflow ''WsCodec::decode: compressed payload exceeds max''), True, c\<lparr>frag_buf := []\<rparr>, out)
      else
        let c = (if df_payload_len frame > 0 then c\<lparr>frag_buf := frag_buf c @ unmasked_payload frame\<rparr> else c) in
        if \<not> df_fin frame then (Inr None, True, c, out)
        else
          let w = (case ws_inflater c of
                     None \<Rightarrow> mk_WsInflater (max_message_size (ws_cfg c))
                   | Some w \<Rightarrow> w);
              in_bytes = length (frag_buf c);
              (inflated, w) = inflate_message zl w (frag_buf c) (server_no_context_takeover (ws_cfg c));
              c = c\<lparr>ws_inflater := Some w, frag_buf := [], frag_opcode := 0, compressed_msg := False\<rparr> in
          case inflated of
            Inl e \<Rightarrow> (Inl e, True, c, out)
          | Inr plain \<Rightarrow>
              (Inr (Some plain), True,
               c\<lparr>deflate_bytes_in := deflate_bytes_in c + of_nat in_bytes,
                 deflate_bytes_out := deflate_bytes_out c + of_nat (length plain)\<rparr>, out))"

definition ws_single :: "DecodedFrame \<Rightarrow> 'z WsCodec \<Rightarrow> OutputBuffer \<Rightarrow> 'z ws_step" where
  "ws_single frame c out =
     (if unat (df_payload_len frame) > max_message_size (ws_cfg c)
      then (Inl (ErrorInfo CodecOverflow ''WsCodec::decode: single-frame payload exceeds max''), True, c, out)
      else if df_masked frame \<and> df_payload_len frame > 0
      then
        let c = c\<lparr>frag_buf := apply_mask (df_payload frame) (df_mask_key frame)\<rparr> in
        (Inr (Some (frag_buf c)), True, c, out)
      else (Inr (Some (df_payload frame)), True, c, out))"

definition ws_fragment :: "DecodedFrame \<Rightarrow> 'z WsCodec \<Rightarrow> OutputBuffer \<Rightarrow> 'z ws_step" where
  "ws_fragment frame c out =
     (let new_size = length (frag_buf c) + unat (df_payload_len frame) in
      if new_size > max_message_size (ws_cfg c)
      then (Inl (ErrorInfo CodecOverflow ''WsCodec::decode: reassembled payload exceeds max''), True, c\<lparr>frag_buf := []\<rparr>, out)
      else
        let c = (if df_payload_len frame > 0 then c\<lparr>frag_buf := frag_buf c @ unmasked_payload frame\<rparr> else c) in
        if \<not> df_fin frame then (Inr None, True, c, out)
        else (Inr (Some (frag_buf c)), True, c\<lparr>frag_opcode := 0\<rparr>, out))"

definition ws_on_frame ::
    "('z, 'x) zlib_scheme \<Rightarrow> bytes \<Rightarrow> DecodedFrame \<Rightarrow> 'z WsCodec \<Rightarrow> OutputBuffer \<Rightarrow> 'z ws_step" where
  "ws_on_frame zl key frame c out =
     (if df_rsv1 frame \<and> is_control frame
      then (Inl (ErrorInfo WsFrameBad ''WsCodec::decode: RSV1 set on control frame''), False, c, out)
      else if is_ping frame then
        (if auto_pong (ws_cfg c) then
           case emit_pong key out frame of
             (Inl e, out) \<Rightarrow> (Inl e, False, c, out)
           | (Inr _, out) \<Rightarrow> (Inr None, True, c, out)
         else (Inr None, True, c, out))
      else if is_pong frame then (Inr None, True, c, out)
      else if is_close frame then
        (if auto_close_ack (ws_cfg c) then
           case emit_close key out (close_ack_code frame) of
             (Inl e, out) \<Rightarrow> (Inl e, False, c, out)
           | (Inr _, out) \<Rightarrow> (Inl (ErrorInfo WsCloseReceived ''WsCodec::decode: peer sent close frame''), True, c, out)
         else (Inl (ErrorInfo WsCloseReceived ''WsCodec::decode: peer sent close frame''), True, c, out))
      else if \<not> is_data frame
      then (Inl (ErrorInfo WsFrameBad ''WsCodec::decode: unexpected non-data frame''), False, c, out)
      else
        case ws_begin_data frame c of
          (Some e, c) \<Rightarrow> (Inl e, False, c, out)
        | (None, c) \<Rightarrow>
            if compressed_msg c then ws_compressed zl frame c out
            else if df_opcode frame \<noteq> kContinuation \<and> df_fin frame \<and> frag_buf c = [] then ws_single frame c out
            else ws_fragment frame c out)"

definition ws_decode :: "('z, 'x) zlib_scheme \<Rightarrow> (bytes, 'z WsCodec) decoder" where
  "ws_decode zl key c view out =
     (let avail = view_length view in
      if avail < 2 then (Inr None, c, view, out)
      else
        case decode_frame (view_data view) (permessage_deflate (ws_cfg c)) of
          Inl kIncomplete \<Rightarrow> (Inr None, c, view, out)
        | Inl e \<Rightarrow> (Inl (ErrorInfo WsFrameBad (decode_error_name e)), c, view, out)
        | Inr frame \<Rightarrow>
            let (r, trim, c, out) = ws_on_frame zl key frame c out in
            (r, c, if trim then trim_front (df_total_len frame) view else view, out))"

section \<open>Encoding\<close>

definition ws_encode_as :: "string \<Rightarrow> u8 \<Rightarrow> bytes \<Rightarrow> nat \<Rightarrow> bytes \<Rightarrow> (ErrorInfo, bytes) expected" where
  "ws_encode_as who op key cap payload =
     (let needed = total_frame_size (of_nat (length payload)) in
      if needed = SIZE_MAX \<or> needed > cap
      then Inl (ErrorInfo BufferFull (who @ '': destination buffer too small''))
      else
        let wire = encode_frame key op payload True in
        if wire = [] then Inl (ErrorInfo CodecBad (who @ '': ws::encode_frame rejected payload''))
        else Inr wire)"

definition ws_encode :: "bytes \<Rightarrow> nat \<Rightarrow> bytes \<Rightarrow> (ErrorInfo, bytes) expected" where
  "ws_encode key cap payload = ws_encode_as ''WsCodec::encode'' kBinary key cap payload"

definition ws_encode_text :: "bytes \<Rightarrow> nat \<Rightarrow> bytes \<Rightarrow> (ErrorInfo, bytes) expected" where
  "ws_encode_text key cap payload = ws_encode_as ''WsCodec::encode_text'' kText key cap payload"

definition ws_encode_close :: "bytes \<Rightarrow> nat \<Rightarrow> u16 \<Rightarrow> bytes \<Rightarrow> (ErrorInfo, bytes) expected" where
  "ws_encode_close key cap status_code reason =
     (let needed = kMaxFrameHeaderLen + 2 + length reason in
      if cap < needed
      then Inl (ErrorInfo BufferFull ''WsCodec::encode_close: destination buffer too small'')
      else
        let wire = build_close_frame key status_code reason in
        if wire = [] then Inl (ErrorInfo CodecBad ''WsCodec::encode_close: ws::build_close_frame rejected'')
        else Inr wire)"

section \<open>The codec contract\<close>

lemma decode_frame_total:
  assumes "decode_frame wire allow = Inr f"
  shows "2 \<le> df_total_len f" "df_total_len f \<le> length wire" "length (df_payload f) = unat (df_payload_len f)"
    "frame_ok f" "df_masked f \<Longrightarrow> length (df_mask_key f) = 4"
proof -
  obtain n pos where a: "2 \<le> length wire" "decode_len wire (byte_at wire 1 AND 0x7F) = Inr (n, pos)"
    "pos + (if df_masked f then 4 else 0) + unat n \<le> length wire" "frame_ok f"
    and f: "f = \<lparr>df_opcode = byte_at wire 0 AND 0x0F, df_fin = (byte_at wire 0 AND 0x80 \<noteq> 0),
        df_rsv1 = (byte_at wire 0 AND 0x70 \<noteq> 0), df_masked = (byte_at wire 1 AND 0x80 \<noteq> 0),
        df_payload_len = n,
        df_payload = slice wire (pos + (if byte_at wire 1 AND 0x80 \<noteq> 0 then 4 else 0)) (unat n),
        df_mask_key = (if byte_at wire 1 AND 0x80 \<noteq> 0 then slice wire pos 4 else [0, 0, 0, 0]),
        df_total_len = pos + (if byte_at wire 1 AND 0x80 \<noteq> 0 then 4 else 0) + unat n\<rparr>"
    using decode_frame_InrE [OF assms] by metis
  have "2 \<le> pos" using decode_len_inv(3) [OF a(2) and7F_less a(1)] by simp
  then show "2 \<le> df_total_len f" by (simp add: f)
  show "df_total_len f \<le> length wire" "length (df_payload f) = unat (df_payload_len f)"
    "df_masked f \<Longrightarrow> length (df_mask_key f) = 4"
    using a(3) by (auto simp: f)
  show "frame_ok f" by (rule a)
qed

lemma append_ob_result_wf: "ob_wf out \<Longrightarrow> append_ob out src = (r, out') \<Longrightarrow> ob_wf out' \<and> ob_cap out' = ob_cap out"
  by (auto simp: append_ob_def ob_wf_def length_blit split: if_splits)

lemma emit_pong_wf: "ob_wf out \<Longrightarrow> emit_pong key out f = (r, out') \<Longrightarrow> ob_wf out' \<and> ob_cap out' = ob_cap out"
  by (auto simp: emit_pong_def Let_def split: if_splits dest: append_ob_result_wf)

lemma emit_close_wf: "ob_wf out \<Longrightarrow> emit_close key out code = (r, out') \<Longrightarrow> ob_wf out' \<and> ob_cap out' = ob_cap out"
  by (auto simp: emit_close_def Let_def split: if_splits dest: append_ob_result_wf)

lemmas ws_step_defs = ws_compressed_def ws_single_def ws_fragment_def

lemma ws_data_out:
  "ws_compressed zl f c out = (r, trim, c', out') \<Longrightarrow> out' = out \<and> trim"
  "ws_single f c out = (r, trim, c', out') \<Longrightarrow> out' = out \<and> trim"
  "ws_fragment f c out = (r, trim, c', out') \<Longrightarrow> out' = out \<and> trim"
  by (auto simp: ws_step_defs Let_def split: if_splits prod.splits sum.splits)

lemma ws_on_frame_out_wf:
  assumes "ob_wf out" "ws_on_frame zl key f c out = (r, trim, c', out')"
  shows "ob_wf out' \<and> ob_cap out' = ob_cap out"
  using assms
  by (auto simp: ws_on_frame_def split: if_splits prod.splits sum.splits option.splits
      dest: ws_data_out emit_pong_wf emit_close_wf)

lemma ws_on_frame_none:
  assumes "ws_on_frame zl key f c out = (Inr None, trim, c', out')"
  shows trim
  using assms
  by (auto simp: ws_on_frame_def split: if_splits prod.splits sum.splits option.splits dest: ws_data_out)

lemma ws_decode_cases:
  assumes "ws_decode zl key c v out = (r, c', v', out')"
  obtains (need_more) "r = Inr None" "c' = c" "v' = v" "out' = out"
      "view_length v < 2 \<or> decode_frame (view_data v) (permessage_deflate (ws_cfg c)) = Inl kIncomplete"
    | (bad) e where "2 \<le> view_length v" "decode_frame (view_data v) (permessage_deflate (ws_cfg c)) = Inl e"
      "e \<noteq> kIncomplete" "r = Inl (ErrorInfo WsFrameBad (decode_error_name e))" "c' = c" "v' = v" "out' = out"
    | (frame) f trim where "2 \<le> view_length v" "decode_frame (view_data v) (permessage_deflate (ws_cfg c)) = Inr f"
      "ws_on_frame zl key f c out = (r, trim, c', out')"
      "v' = (if trim then trim_front (df_total_len f) v else v)"
  using assms
  by (auto simp: ws_decode_def Let_def not_less split: if_splits sum.splits DecodeError.splits prod.splits)

lemma ws_decode_trims:
  assumes wf: "view_wf v" and dec: "ws_decode zl k c v out = (r, c', v', out')"
  shows "\<exists>n\<le>view_length v. v' = trim_front n v"
  using dec
proof (cases rule: ws_decode_cases)
  case (frame f trim)
  then show ?thesis using decode_frame_total(2) [OF frame(2)] wf length_view_data [OF wf]
    by (auto intro: inv_intros)
qed (use wf in \<open>auto intro: inv_intros\<close>)

lemma ws_decode_out_wf: "ob_wf out \<Longrightarrow> ws_decode zl k c v out = (r, c', v', out') \<Longrightarrow> ob_wf out' \<and> ob_cap out' = ob_cap out"
  by (elim ws_decode_cases) (auto dest: ws_on_frame_out_wf)

lemma ws_decode_need_more:
  assumes wf: "view_wf v" and dec: "ws_decode zl k c v out = (Inr None, c', v', out')"
    and len: "view_length v' = view_length v"
  shows "c' = c \<and> out' = out"
  using dec
proof (cases rule: ws_decode_cases)
  case (frame f trim)
  then have "trim" using ws_on_frame_none by blast
  then have "view_length v' = view_length v - df_total_len f"
    using frame(4) decode_frame_total(2) [OF frame(2)] wf length_view_data [OF wf] by simp
  then show ?thesis using len decode_frame_total [OF frame(2)] frame(1) by simp
qed simp_all

lemma ws_codec_stable:
  assumes v: "view_wf v" and w: "view_wf w" and d: "view_data w = view_data v @ ys"
    and dec: "ws_decode zl k c v out = (r, c', v', out')"
    and prog: "r \<noteq> Inr None \<or> view_length v' < view_length v"
  shows "ws_decode zl k c w out = (r, c', trim_front (view_length v - view_length v') w, out')"
proof -
  have len: "view_length w = view_length v + length ys"
    using length_view_data [OF w] length_view_data [OF v] d by simp
  from dec show ?thesis
  proof (cases rule: ws_decode_cases)
    case need_more
    then show ?thesis using prog by simp
  next
    case (bad e)
    have "decode_frame (view_data w) (permessage_deflate (ws_cfg c)) = Inl e"
      unfolding d using decode_frame_append [OF bad(2)] bad(3) by simp
    then show ?thesis using bad len w by (simp add: ws_decode_def) (cases e; simp)
  next
    case (frame f trim)
    have "decode_frame (view_data w) (permessage_deflate (ws_cfg c)) = Inr f"
      unfolding d using decode_frame_append [OF frame(2)] by simp
    moreover have "view_length v - view_length v' = (if trim then df_total_len f else 0)"
      using frame(4) decode_frame_total(2) [OF frame(2)] v length_view_data [OF v] by simp
    ultimately show ?thesis using frame len w by (simp add: ws_decode_def)
  qed
qed

lemma ws_on_frame_some:
  assumes "ws_on_frame zl key f c out = (Inr (Some m), trim, c', out')"
  shows trim
  using assms
  by (auto simp: ws_on_frame_def split: if_splits prod.splits sum.splits option.splits dest: ws_data_out)

lemma ws_decode_progress:
  assumes wf: "view_wf v" and dec: "ws_decode zl k c v out = (Inr (Some m), c', v', out')"
  shows "view_length v' < view_length v"
  using dec
proof (cases rule: ws_decode_cases)
  case (frame f trim)
  then have "trim" using ws_on_frame_some by blast
  then show ?thesis
    using frame decode_frame_total [OF frame(2)] wf length_view_data [OF wf] by simp
qed simp_all

interpretation wsc: framing_codec "ws_decode zl" for zl :: "('z, 'x) zlib_scheme"
  by unfold_locales
    (fact ws_decode_trims ws_decode_out_wf ws_decode_need_more ws_codec_stable ws_decode_progress)+

section \<open>Reassembly\<close>

text \<open>
  The specification of message assembly (RFC 6455 5.4) for uncompressed data frames: the state is
  the payload collected so far, if a fragmented message is in flight.
\<close>

datatype asm_outcome = Deliver bytes | Pending | Reject Error

definition asm_step :: "nat \<Rightarrow> bytes option \<Rightarrow> DecodedFrame \<Rightarrow> asm_outcome \<times> bytes option" where
  "asm_step limit st f =
     (let fin_st = (\<lambda>acc. if df_fin f then None else Some acc) in
      case (if df_opcode f = kContinuation then st else Some []) of
        None \<Rightarrow> (Reject WsFrameBad, None)
      | Some acc \<Rightarrow>
          let acc' = acc @ unmasked_payload f in
          if length acc' > limit
          then (Reject CodecOverflow, if df_opcode f = kContinuation \<or> \<not> df_fin f then Some [] else None)
          else (if df_fin f then Deliver acc' else Pending, fin_st acc'))"

definition asm_abs :: "'z WsCodec \<Rightarrow> bytes option" where
  "asm_abs c = (if frag_opcode c = 0 then None else Some (frag_buf c))"

fun outcome_of :: "(ErrorInfo, bytes option) expected \<Rightarrow> asm_outcome" where
  "outcome_of (Inl e) = Reject (err_code e)"
| "outcome_of (Inr None) = Pending"
| "outcome_of (Inr (Some m)) = Deliver m"

lemma unmasked_payload_Nil: "length (df_payload f) = unat (df_payload_len f) \<Longrightarrow>
    \<not> df_payload_len f > 0 \<Longrightarrow> unmasked_payload f = []"
  by (simp add: unmasked_payload_def word_gt_0 apply_mask_def mask_blocks32.simps mask_tail.simps)

lemma length_unmasked:
  "length (df_payload f) = unat (df_payload_len f) \<Longrightarrow> (df_masked f \<Longrightarrow> length (df_mask_key f) = 4) \<Longrightarrow>
   length (unmasked_payload f) = unat (df_payload_len f)"
  by (simp add: unmasked_payload_def apply_mask_eq)

lemma ws_fragment_eq:
  assumes "length (df_payload f) = unat (df_payload_len f)" "df_masked f \<Longrightarrow> length (df_mask_key f) = 4"
  shows "ws_fragment f c out =
    (let acc = frag_buf c @ unmasked_payload f in
     if length acc > max_message_size (ws_cfg c)
     then (Inl (ErrorInfo CodecOverflow ''WsCodec::decode: reassembled payload exceeds max''), True, c\<lparr>frag_buf := []\<rparr>, out)
     else if \<not> df_fin f then (Inr None, True, c\<lparr>frag_buf := acc\<rparr>, out)
     else (Inr (Some acc), True, c\<lparr>frag_buf := acc, frag_opcode := 0\<rparr>, out))"
  using length_unmasked [OF assms] unmasked_payload_Nil [OF assms(1)]
  by (simp add: ws_fragment_def Let_def)

lemma ws_single_eq:
  assumes "length (df_payload f) = unat (df_payload_len f)" "df_masked f \<Longrightarrow> length (df_mask_key f) = 4"
  shows "\<exists>buf d. ws_single f c out =
    (if length (unmasked_payload f) > max_message_size (ws_cfg c)
     then (Inl (ErrorInfo CodecOverflow d), True, c, out)
     else (Inr (Some (unmasked_payload f)), True, c\<lparr>frag_buf := buf\<rparr>, out))"
  using length_unmasked [OF assms] unmasked_payload_Nil [OF assms(1)] assms(1)
  by (cases "df_masked f \<and> df_payload_len f > 0")
    (auto simp: ws_single_def Let_def unmasked_payload_def intro: exI [of _ "frag_buf c"])

lemma is_data_not_control: "is_data f \<Longrightarrow> \<not> is_control f \<and> \<not> is_ping f \<and> \<not> is_pong f \<and> \<not> is_close f"
  by (auto simp: is_data_def is_control_def is_ping_def is_pong_def is_close_def)

lemma ws_on_data_frame:
  "is_data f \<Longrightarrow> ws_on_frame zl key f c out =
    (case ws_begin_data f c of
       (Some e, c) \<Rightarrow> (Inl e, False, c, out)
     | (None, c) \<Rightarrow>
         if compressed_msg c then ws_compressed zl f c out
         else if df_opcode f \<noteq> kContinuation \<and> df_fin f \<and> frag_buf c = [] then ws_single f c out
         else ws_fragment f c out)"
  using is_data_not_control [of f] by (simp add: ws_on_frame_def)

lemma ws_refines_asm:
  assumes "is_data f" "\<not> df_rsv1 f" "length (df_payload f) = unat (df_payload_len f)"
    and "df_masked f \<Longrightarrow> length (df_mask_key f) = 4" "\<not> compressed_msg c"
    and step: "ws_on_frame zl key f c out = (r, trim, c', out')"
  shows "asm_step (max_message_size (ws_cfg c)) (asm_abs c) f = (outcome_of r, asm_abs c') \<and>
    \<not> compressed_msg c' \<and> ws_cfg c' = ws_cfg c \<and> out' = out"
proof (cases "df_opcode f = kContinuation")
  case True
  show ?thesis
  proof (cases "frag_opcode c = 0")
    case z: True
    then show ?thesis using True assms
      by (auto simp: ws_on_data_frame ws_begin_data_def asm_step_def asm_abs_def)
  next
    case False
    then show ?thesis using True assms
      by (auto simp: ws_on_data_frame ws_begin_data_def asm_step_def asm_abs_def Let_def ws_fragment_eq [OF assms(3,4)]
          split: if_splits)
  qed
next
  case False
  have op: "df_opcode f \<noteq> 0" using False by simp
  let ?c = "c\<lparr>frag_buf := [], frag_opcode := (if df_fin f then 0 else df_opcode f), compressed_msg := False\<rparr>"
  have b: "ws_begin_data f c = (None, ?c)" using False assms(2) by (simp add: ws_begin_data_def)
  show ?thesis
  proof (cases "df_fin f")
    case True
    obtain buf d where "ws_single f ?c out =
      (if length (unmasked_payload f) > max_message_size (ws_cfg ?c)
       then (Inl (ErrorInfo CodecOverflow d), True, ?c, out)
       else (Inr (Some (unmasked_payload f)), True, ?c\<lparr>frag_buf := buf\<rparr>, out))"
      using ws_single_eq [OF assms(3,4)] by blast
    then show ?thesis using True False assms(1) step b
      by (auto simp: ws_on_data_frame asm_step_def asm_abs_def Let_def split: if_splits)
  next
    case nf: False
    then show ?thesis using False op assms(1) step b
      by (auto simp: ws_on_data_frame asm_step_def asm_abs_def Let_def ws_fragment_eq [OF assms(3,4)] split: if_splits)
  qed
qed

text \<open>
  C3. For uncompressed data frames \<open>WsCodec::decode\<close> implements the assembly specification: single
  frames are delivered as they are, fragments accumulate in order and the final one delivers their
  concatenation, a continuation with nothing in flight is refused, a message that outgrows the limit
  is refused; nothing is written to the sink.
\<close>

theorem ws_decode_refines_assembly:
  assumes "ws_decode zl key c v out = (r, c', v', out')"
    and "2 \<le> view_length v" "decode_frame (view_data v) (permessage_deflate (ws_cfg c)) = Inr f"
    and "is_data f" "\<not> df_rsv1 f" "\<not> compressed_msg c"
  shows "asm_step (max_message_size (ws_cfg c)) (asm_abs c) f = (outcome_of r, asm_abs c') \<and>
    \<not> compressed_msg c' \<and> out' = out"
  using assms(1)
proof (cases rule: ws_decode_cases)
  case (frame g trim)
  then have "g = f" using assms(3) by simp
  with frame ws_refines_asm [OF assms(4,5) _ _ assms(6)] decode_frame_total [OF assms(3)] show ?thesis by blast
qed (use assms in auto)

theorem ws_decode_refines_assembly_witness:
  "asm_step 5 (Some [104, 105])
      \<lparr>df_opcode = 0, df_fin = True, df_rsv1 = False, df_masked = False, df_payload_len = 1,
       df_payload = [33], df_mask_key = [0, 0, 0, 0], df_total_len = 3\<rparr> = (Deliver [104, 105, 33], None)"
proof -
  let ?cfg = "default_WsCodecConfig\<lparr>max_message_size := 5\<rparr>"
  let ?c = "\<lparr>ws_cfg = ?cfg, frag_buf = [104, 105], frag_opcode = 1, compressed_msg = False,
     ws_inflater = None, deflate_bytes_in = 0, deflate_bytes_out = 0\<rparr> :: bytes WsCodec"
  let ?v = "sv_make [0x80, 0x01, 33]"
  let ?f = "\<lparr>df_opcode = 0, df_fin = True, df_rsv1 = False, df_masked = False, df_payload_len = 1,
       df_payload = [33], df_mask_key = [0, 0, 0, 0], df_total_len = 3\<rparr>"
  have "ws_decode stored_zlib [1, 2, 3, 4] ?c ?v (ob_make []) =
      (Inr (Some [104, 105, 33]), ?c\<lparr>frag_buf := [104, 105, 33], frag_opcode := 0\<rparr>,
       trim_front 3 ?v, ob_make [])" by code_simp
  moreover have "2 \<le> view_length ?v" "decode_frame (view_data ?v) (permessage_deflate (ws_cfg ?c)) = Inr ?f"
    "is_data ?f" by code_simp+
  ultimately show ?thesis using ws_decode_refines_assembly [of stored_zlib "[1, 2, 3, 4]" ?c ?v "ob_make []"]
    by (simp add: asm_abs_def)
qed

section \<open>Control frames\<close>

lemma append_ob_data:
  "ob_wf out \<Longrightarrow> length src \<le> available_ob out \<Longrightarrow> src \<noteq> [] \<Longrightarrow>
   \<exists>out'. append_ob out src = (Inr (), out') \<and> ob_data out' = ob_data out @ src"
  by (auto simp: append_ob_def available_ob_def ob_data_def ob_wf_def blit_def)

lemma encode_frame_not_Nil: "sendable op p fin \<Longrightarrow> length key = 4 \<Longrightarrow> encode_frame key op p fin \<noteq> []"
  by (simp add: encode_frame_eq)

lemma control_payload:
  assumes "decode_frame wire allow = Inr f" "is_control f"
  shows "length (df_payload f) \<le> 125" "unat (df_payload_len f) \<le> 125" "length (unmasked_payload f) \<le> 125"
proof -
  show u: "unat (df_payload_len f) \<le> 125"
    using decode_frame_total(4) [OF assms(1)] assms(2) by (auto simp: frame_ok_def word_le_nat_alt)
  with decode_frame_total [OF assms(1)] length_unmasked [of f]
  show "length (df_payload f) \<le> 125" "length (unmasked_payload f) \<le> 125" by auto
qed

lemma emit_pong_eq:
  assumes "decode_frame wire allow = Inr f" "is_control f" "length key = 4"
  shows "emit_pong key out f = append_ob out (encode_frame key kPong (unmasked_payload f) True)"
proof -
  have s: "sendable kPong (unmasked_payload f) True"
    using control_payload [OF assms(1,2)] by (auto simp: sendable_def)
  have "df_payload f = [] \<and> unmasked_payload f = []" if "\<not> df_payload_len f > 0"
    using that decode_frame_total(3) [OF assms(1)] unmasked_payload_Nil [of f] by (simp add: word_gt_0)
  then have "(if df_masked f \<and> df_payload_len f > 0 then apply_mask (df_payload f) (df_mask_key f) else df_payload f) =
      unmasked_payload f" by (auto simp: unmasked_payload_def)
  then show ?thesis
    using control_payload(2) [OF assms(1,2)] encode_frame_not_Nil [OF s assms(3)]
    by (simp add: emit_pong_def Let_def kMaxControlPayloadLen_def build_pong_frame_def)
qed

text \<open>
  A ping at the front of the window is answered by exactly one pong frame that carries the ping's
  (unmasked) payload; the ping is consumed, nothing is delivered and the codec state is unchanged.
  With too little room in the sink \<open>BufferFull\<close> is reported and the ping stays in the window, so
  that the answer can be retried.
\<close>

theorem ws_ping_is_answered:
  assumes "view_wf v" "2 \<le> view_length v" "ob_wf out" "length key = 4" "auto_pong (ws_cfg c)"
    and d: "decode_frame (view_data v) (permessage_deflate (ws_cfg c)) = Inr f"
    and f: "is_ping f" "\<not> df_rsv1 f"
    and pong: "pong = encode_frame key kPong (unmasked_payload f) True"
  shows "if length pong \<le> available_ob out
    then \<exists>out'. ws_decode zl key c v out = (Inr None, c, trim_front (df_total_len f) v, out') \<and>
        ob_data out' = ob_data out @ pong
    else \<exists>msg. ws_decode zl key c v out = (Inl (ErrorInfo BufferFull msg), c, v, out)"
proof -
  have ctl: "is_control f" using f(1) by (simp add: is_ping_def is_control_def)
  have "sendable kPong (unmasked_payload f) True"
    using control_payload [OF d ctl] by (auto simp: sendable_def)
  then have ne: "pong \<noteq> []" using assms(4) by (simp add: pong encode_frame_not_Nil)
  have "ws_decode zl key c v out =
      (case append_ob out pong of
         (Inl e, out) \<Rightarrow> (Inl e, c, v, out)
       | (Inr _, out) \<Rightarrow> (Inr None, c, trim_front (df_total_len f) v, out))"
    using assms(2,5) f emit_pong_eq [OF d ctl assms(4)]
    by (simp add: ws_decode_def d ws_on_frame_def pong split: prod.split sum.split)
  then show ?thesis using append_ob_data [OF assms(3) _ ne] by (auto simp: append_ob_def available_ob_def)
qed

text \<open>
  A close frame ends the session: it is consumed and reported as \<open>WsCloseReceived\<close>, and the
  acknowledgement written to the sink carries the peer's status code when that code may be sent,
  1000 when the close carried none, and 1002 when the peer sent a reserved or invalid code.
\<close>

theorem ws_close_is_acknowledged:
  assumes "view_wf v" "2 \<le> view_length v" "ob_wf out" "length key = 4" "auto_close_ack (ws_cfg c)"
    and d: "decode_frame (view_data v) (permessage_deflate (ws_cfg c)) = Inr f"
    and f: "is_close f" "\<not> df_rsv1 f"
    and code: "code = (if df_payload f = [] then 1000 else if is_valid_close_code (close_status_code f)
                       then close_status_code f else 1002)"
    and room: "length (build_close_frame key code []) \<le> available_ob out"
  shows "\<exists>out' msg. ws_decode zl key c v out =
      (Inl (ErrorInfo WsCloseReceived msg), c, trim_front (df_total_len f) v, out') \<and>
    ob_data out' = ob_data out @ build_close_frame key code [] \<and> is_valid_close_code code"
proof -
  have "df_payload_len f = 0 \<longleftrightarrow> df_payload f = []"
    using decode_frame_total(3) [OF d] by (metis length_0_conv unat_eq_zero)
  then have ack: "close_ack_code f = code"
    by (simp add: close_ack_code_def code kNormal_def kProtocolError_def Let_def)
  have v: "is_valid_close_code code" by (auto simp: code is_valid_close_code_def)
  have ne: "build_close_frame key code [] \<noteq> []"
    using encode_frame_not_Nil [of kClose _ True key] assms(4)
    by (simp add: build_close_frame_def Let_def sendable_def)
  have "\<not> is_ping f" "\<not> is_pong f" using f(1) by (auto simp: is_close_def is_ping_def is_pong_def)
  then show ?thesis using append_ob_data [OF assms(3) room ne] assms(2,5) f ack v ne
    by (auto simp: ws_decode_def d ws_on_frame_def emit_close_def Let_def)
qed

section \<open>Bounded memory\<close>

definition ws_wf :: "'z WsCodec \<Rightarrow> bool" where
  "ws_wf c \<longleftrightarrow> length (frag_buf c) \<le> max_message_size (ws_cfg c) \<and>
     (\<forall>w. ws_inflater c = Some w \<longrightarrow> max_inflated_size w = max_message_size (ws_cfg c))"

lemma mk_WsCodec_wf: "ws_wf (mk_WsCodec cfg)"
  by (simp add: ws_wf_def mk_WsCodec_def)

lemma inflate_message_max: "inflate_message zl w z b = (r, w') \<Longrightarrow> max_inflated_size w' = max_inflated_size w"
  by (auto simp: inflate_message_def reset_on_error_def Let_def dest: inflate_init_max
      split: prod.splits sum.splits if_splits)

lemma ws_compressed_wf:
  assumes "ws_wf c" "length (df_payload f) = unat (df_payload_len f)" "df_masked f \<Longrightarrow> length (df_mask_key f) = 4"
    and "ws_compressed zl f c out = (r, trim, c', out')"
  shows "ws_wf c' \<and> (\<forall>m. r = Inr (Some m) \<longrightarrow> length m \<le> max_message_size (ws_cfg c)) \<and> ws_cfg c' = ws_cfg c"
proof (cases "max_message_size (ws_cfg c) < length (frag_buf c) + unat (df_payload_len f)")
  case True
  then show ?thesis using assms by (auto simp: ws_compressed_def ws_wf_def)
next
  case False
  define c1 where "c1 = (if df_payload_len f > 0 then c\<lparr>frag_buf := frag_buf c @ unmasked_payload f\<rparr> else c)"
  have c1: "ws_wf c1" "ws_cfg c1 = ws_cfg c"
    using False assms(1) length_unmasked [OF assms(2,3)] by (auto simp: c1_def ws_wf_def)
  define w where "w = (case ws_inflater c1 of None \<Rightarrow> mk_WsInflater (max_message_size (ws_cfg c1)) | Some w \<Rightarrow> w)"
  have w: "max_inflated_size w = max_message_size (ws_cfg c)"
    using c1 by (auto simp: w_def ws_wf_def mk_WsInflater_def split: option.splits)
  obtain ir w' where i: "inflate_message zl w (frag_buf c1) (server_no_context_takeover (ws_cfg c1)) = (ir, w')" by fastforce
  note m = inflate_message_max [OF i]
  have plain: "length p \<le> max_message_size (ws_cfg c)" if "ir = Inr p" for p
    using i w that by (auto elim!: inflate_message_okE dest: inflate_body_limit)
  have "ws_compressed zl f c out =
      (if \<not> df_fin f then (Inr None, True, c1, out)
       else let c2 = c1\<lparr>ws_inflater := Some w', frag_buf := [], frag_opcode := 0, compressed_msg := False\<rparr> in
         case ir of Inl e \<Rightarrow> (Inl e, True, c2, out)
         | Inr p \<Rightarrow> (Inr (Some p), True, c2\<lparr>deflate_bytes_in := deflate_bytes_in c2 + of_nat (length (frag_buf c1)),
             deflate_bytes_out := deflate_bytes_out c2 + of_nat (length p)\<rparr>, out))"
    using False i unfolding ws_compressed_def by (simp add: c1_def [symmetric] w_def [symmetric] Let_def)
  then show ?thesis using assms(4) c1 plain m w
    by (auto simp: Let_def ws_wf_def split: if_splits sum.splits)
qed

lemma ws_begin_data_wf: "ws_wf c \<Longrightarrow> ws_begin_data f c = (e, c') \<Longrightarrow> ws_wf c' \<and> ws_cfg c' = ws_cfg c"
  by (auto simp: ws_begin_data_def ws_wf_def Let_def split: if_splits)

lemma ws_plain_wf:
  assumes "ws_wf c" "length (df_payload f) = unat (df_payload_len f)" "df_masked f \<Longrightarrow> length (df_mask_key f) = 4"
  shows "ws_single f c out = (r, trim, c', out') \<Longrightarrow>
      ws_wf c' \<and> (\<forall>m. r = Inr (Some m) \<longrightarrow> length m \<le> max_message_size (ws_cfg c)) \<and> ws_cfg c' = ws_cfg c"
    and "ws_fragment f c out = (r, trim, c', out') \<Longrightarrow>
      ws_wf c' \<and> (\<forall>m. r = Inr (Some m) \<longrightarrow> length m \<le> max_message_size (ws_cfg c)) \<and> ws_cfg c' = ws_cfg c"
  using assms
  by (auto simp: ws_single_def ws_wf_def apply_mask_eq Let_def split: if_splits)
    (auto simp: ws_fragment_eq [OF assms(2,3)] Let_def split: if_splits)

lemma ws_on_frame_wf:
  assumes "ws_wf c" "length (df_payload f) = unat (df_payload_len f)" "df_masked f \<Longrightarrow> length (df_mask_key f) = 4"
    and step: "ws_on_frame zl key f c out = (r, trim, c', out')"
  shows "ws_wf c' \<and> (\<forall>m. r = Inr (Some m) \<longrightarrow> length m \<le> max_message_size (ws_cfg c)) \<and> ws_cfg c' = ws_cfg c"
proof (cases "is_data f")
  case True
  obtain e c1 where b: "ws_begin_data f c = (e, c1)" by fastforce
  note c1 = ws_begin_data_wf [OF assms(1) b]
  note st = step [unfolded ws_on_data_frame [OF True] b]
  show ?thesis
  proof (cases e)
    case (Some err)
    then show ?thesis using st c1 by auto
  next
    case None
    consider "ws_compressed zl f c1 out = (r, trim, c', out')" | "ws_single f c1 out = (r, trim, c', out')"
      | "ws_fragment f c1 out = (r, trim, c', out')"
      using st None by (auto split: if_splits)
    then show ?thesis
    proof cases
      case 1
      from ws_compressed_wf [OF _ assms(2,3) this] c1 show ?thesis by simp
    next
      case 2
      from ws_plain_wf(1) [OF _ assms(2,3) this] c1 show ?thesis by simp
    next
      case 3
      from ws_plain_wf(2) [OF _ assms(2,3) this] c1 show ?thesis by simp
    qed
  qed
next
  case False
  then show ?thesis using step assms(1) by (auto simp: ws_on_frame_def split: if_splits prod.splits sum.splits)
qed

text \<open>
  C4. The codec's memory stays bounded whatever the peer sends: the reassembly buffer never exceeds
  \<open>max_message_size\<close>, the inflater keeps that same limit, and no delivered message, compressed or
  not, is longer.
\<close>

theorem ws_decode_bounded:
  assumes "ws_wf c" "ws_decode zl key c v out = (r, c', v', out')"
  shows "ws_wf c' \<and> ws_cfg c' = ws_cfg c \<and> (\<forall>m. r = Inr (Some m) \<longrightarrow> length m \<le> max_message_size (ws_cfg c))"
  using assms(2)
proof (cases rule: ws_decode_cases)
  case (frame f trim)
  then show ?thesis using ws_on_frame_wf [OF assms(1) _ _ frame(3)] decode_frame_total [OF frame(2)] by blast
qed (use assms(1) in auto)

theorem ws_decode_bounded_witness:
  "length [33 :: u8] \<le> max_message_size (ws_cfg (mk_WsCodec default_WsCodecConfig :: bytes WsCodec))"
proof -
  let ?c = "mk_WsCodec default_WsCodecConfig :: bytes WsCodec"
  obtain c' v' out' where "ws_decode stored_zlib [1, 2, 3, 4] ?c (sv_make [0x82, 0x01, 33]) (ob_make []) = (Inr (Some [33]), c', v', out')"
  proof -
    have "fst (ws_decode stored_zlib [1, 2, 3, 4] ?c (sv_make [0x82, 0x01, 33]) (ob_make [])) = Inr (Some [33])" by code_simp
    then show ?thesis using that by (metis prod_cases4 fst_conv)
  qed
  from ws_decode_bounded [OF mk_WsCodec_wf this] show ?thesis by blast
qed

section \<open>Round trip\<close>

lemma ws_decode_data_frame:
  assumes "length key = 4" "length payload \<le> max_message_size (ws_cfg c)" "length payload < 2 ^ 63"
    and "op \<in> {kBinary, kText}" "view_wf v" "view_data v = encode_frame key op payload True @ rest"
  shows "\<exists>buf. ws_decode zl k c v out =
    (Inr (Some payload), c\<lparr>frag_opcode := 0, compressed_msg := False, frag_buf := buf\<rparr>,
     trim_front (length (encode_frame key op payload True)) v, out)"
proof -
  let ?w = "encode_frame key op payload True"
  have s: "sendable op payload True" using assms(3,4) by (auto simp: sendable_def)
  have u: "unat (of_nat (length payload) :: u64) = length payload" using assms(3) by (rule unat_of_length)
  let ?f = "\<lparr>df_opcode = op, df_fin = True, df_rsv1 = False, df_masked = True,
       df_payload_len = of_nat (length payload), df_payload = mask_ref payload key,
       df_mask_key = key, df_total_len = length ?w\<rparr>"
  have d: "decode_frame (view_data v) (permessage_deflate (ws_cfg c)) = Inr ?f"
    unfolding assms(6) by (rule decode_encode_frame [OF s assms(1)])
  have l: "2 \<le> view_length v" using decode_frame_total [OF d] assms(5) by simp
  have data: "is_data ?f" "op \<noteq> kContinuation" using assms(4) by (auto simp: is_data_def)
  have up: "unmasked_payload ?f = payload" using assms(1) by (simp add: unmasked_payload_def apply_mask_eq mask_ref_involution)
  let ?c = "c\<lparr>frag_buf := [], frag_opcode := 0, compressed_msg := False\<rparr>"
  obtain buf e where "ws_single ?f ?c out =
    (if length (unmasked_payload ?f) > max_message_size (ws_cfg ?c)
     then (Inl (ErrorInfo CodecOverflow e), True, ?c, out)
     else (Inr (Some (unmasked_payload ?f)), True, ?c\<lparr>frag_buf := buf\<rparr>, out))"
    using ws_single_eq [of ?f ?c out] u assms(1) by auto
  then show ?thesis using l data up assms(2)
    by (auto simp: ws_decode_def d ws_on_data_frame ws_begin_data_def)
qed

text \<open>
  What \<open>encode\<close> or \<open>encode_text\<close> wrote, followed by anything, decodes to the payload and consumes
  exactly the frame; \<open>encode\<close> succeeds exactly when the frame fits the buffer.
\<close>

theorem ws_codec_round_trip:
  assumes "length key = 4" "length payload \<le> max_message_size (ws_cfg c)" "length payload < 2 ^ 63"
    and "op \<in> {kBinary, kText}" "view_wf v"
  shows "(case ws_encode_as who op key cap payload of
      Inl e \<Rightarrow> cap < total_frame_size (of_nat (length payload)) \<and> err_code e = BufferFull
    | Inr wire \<Rightarrow> length wire = total_frame_size (of_nat (length payload)) \<and> length wire \<le> cap \<and>
        (\<forall>rest. view_data v = wire @ rest \<longrightarrow>
          (\<exists>c'. ws_decode zl k c v out = (Inr (Some payload), c', trim_front (length wire) v, out))))"
proof -
  have s: "sendable op payload True" using assms(3,4) by (auto simp: sendable_def)
  have u: "unat (of_nat (length payload) :: u64) = length payload" using assms(3) by (rule unat_of_length)
  have nmax: "total_frame_size (of_nat (length payload)) \<noteq> SIZE_MAX"
    using u assms(3) by (auto simp: total_frame_size_def frame_header_size_def SIZE_MAX_def Let_def)
  have "\<exists>c'. ws_decode zl k c v out = (Inr (Some payload), c', trim_front (length (encode_frame key op payload True)) v, out)"
    if "view_data v = encode_frame key op payload True @ rest" for rest
    using ws_decode_data_frame [OF assms that] by blast
  then show ?thesis
    using length_encode_frame [OF s assms(1)] nmax encode_frame_not_Nil [OF s assms(1)]
    by (auto simp: ws_encode_as_def Let_def)
qed

end
