(* ===== verification/Kernel_Io.thy ===== *)
theory Kernel_Io
  imports Core_Codec
begin

text \<open>
  The byte level of the streams: the two receive buffers
  (\<^verbatim>\<open>kernel/detail/reassembly_buffer.hpp\<close>, \<^verbatim>\<open>dpdk/detail/reasm_buffer.hpp\<close>) as
  implementations of one queue contract, the in-flight classification a failed send leaves behind
  (\<^verbatim>\<open>eph-net/in_flight_status.hpp\<close>), and the kernel socket loops
  (\<^verbatim>\<open>kernel/detail/byte_socket.hpp\<close>). The operating system is the list of its answers: every
  \<open>::send\<close> or \<open>::recv\<close> takes the next one; \<open>None\<close> means the call has not returned yet, because the
  loop is still waiting for an answer.
\<close>

section \<open>Receive buffers\<close>

text \<open>
  The contract a receive loop relies on: a bounded byte queue. \<open>push\<close> is a write through
  \<open>writable_ptr\<close> followed by \<open>commit_write\<close>; it may use at most \<open>room\<close> bytes, and \<open>tidy\<close> makes all
  unused capacity available again.
\<close>

locale byte_queue =
  fixes inv :: "'q \<Rightarrow> bool"
    and window :: "'q \<Rightarrow> bytes"
    and cap :: "'q \<Rightarrow> nat"
    and room :: "'q \<Rightarrow> nat"
    and push :: "'q \<Rightarrow> bytes \<Rightarrow> 'q"
    and pop :: "'q \<Rightarrow> nat \<Rightarrow> 'q"
    and tidy :: "'q \<Rightarrow> 'q"
  assumes push_window: "inv q \<Longrightarrow> length bs \<le> room q \<Longrightarrow> inv (push q bs) \<and> window (push q bs) = window q @ bs"
    and push_cap: "inv q \<Longrightarrow> length bs \<le> room q \<Longrightarrow> cap (push q bs) = cap q"
    and pop_window: "inv q \<Longrightarrow> inv (pop q n) \<and> window (pop q n) = drop n (window q)"
    and pop_cap: "cap (pop q n) = cap q"
    and tidy_window: "inv q \<Longrightarrow> inv (tidy q) \<and> window (tidy q) = window q"
    and tidy_cap: "cap (tidy q) = cap q"
    and tidy_room: "inv q \<Longrightarrow> room (tidy q) = cap q - length (window q)"
    and window_cap: "inv q \<Longrightarrow> length (window q) \<le> cap q"
begin

text \<open>Filling and draining: what went in comes out, in order.\<close>

lemma push_tidy:
  assumes "inv q" "length (window q) + length bs \<le> cap q"
  shows "inv (push (tidy q) bs)" "window (push (tidy q) bs) = window q @ bs" "cap (push (tidy q) bs) = cap q"
proof -
  have "length bs \<le> room (tidy q)" using assms tidy_room by simp
  with push_window tidy_window [OF assms(1)] show "inv (push (tidy q) bs)" "window (push (tidy q) bs) = window q @ bs"
    by simp_all
  show "cap (push (tidy q) bs) = cap q"
    using \<open>length bs \<le> room (tidy q)\<close> tidy_window [OF assms(1)] by (simp add: push_cap tidy_cap)
qed

lemma fifo:
  assumes "inv q" "length (window q) + length bs \<le> cap q"
  shows "window (pop (push (tidy q) bs) (length (window q))) = bs"
  using push_tidy [OF assms] pop_window by simp

end

record ReassemblyBuffer =
  rb_buf :: bytes
  rb_head :: nat
  rb_tail :: nat

definition rb_make :: "nat \<Rightarrow> ReassemblyBuffer" where
  "rb_make cap = \<lparr>rb_buf = replicate cap 0, rb_head = 0, rb_tail = 0\<rparr>"

definition rb_readable :: "ReassemblyBuffer \<Rightarrow> nat" where
  "rb_readable b = rb_tail b - rb_head b"

definition rb_writable_capacity :: "ReassemblyBuffer \<Rightarrow> nat" where
  "rb_writable_capacity b = length (rb_buf b) - rb_tail b"

definition rb_commit_write :: "nat \<Rightarrow> ReassemblyBuffer \<Rightarrow> ReassemblyBuffer" where
  "rb_commit_write n b =
     (let cap = rb_writable_capacity b in b\<lparr>rb_tail := rb_tail b + (if n > cap then cap else n)\<rparr>)"

definition rb_consume :: "nat \<Rightarrow> ReassemblyBuffer \<Rightarrow> ReassemblyBuffer" where
  "rb_consume n b =
     (let b = b\<lparr>rb_head := min (rb_head b + n) (rb_tail b)\<rparr> in
      if rb_head b = rb_tail b then b\<lparr>rb_head := 0, rb_tail := 0\<rparr> else b)"

definition rb_compact :: "ReassemblyBuffer \<Rightarrow> ReassemblyBuffer" where
  "rb_compact b =
     (if rb_head b = 0 then b
      else
        let n = rb_readable b in
        if n = 0 then b\<lparr>rb_head := 0, rb_tail := 0\<rparr>
        else b\<lparr>rb_buf := blit (rb_buf b) 0 (slice (rb_buf b) (rb_head b) n), rb_head := 0, rb_tail := n\<rparr>)"

definition rb_clear :: "ReassemblyBuffer \<Rightarrow> ReassemblyBuffer" where
  "rb_clear b = b\<lparr>rb_head := 0, rb_tail := 0\<rparr>"

text \<open>A write of \<open>bs\<close> at \<open>writable_ptr()\<close> (what \<open>recv\<close> does to the memory) and its commit.\<close>

definition rb_push :: "ReassemblyBuffer \<Rightarrow> bytes \<Rightarrow> ReassemblyBuffer" where
  "rb_push b bs = rb_commit_write (length bs) (b\<lparr>rb_buf := blit (rb_buf b) (rb_tail b) bs\<rparr>)"

definition rb_window :: "ReassemblyBuffer \<Rightarrow> bytes" where
  "rb_window b = slice (rb_buf b) (rb_head b) (rb_readable b)"

definition rb_wf :: "ReassemblyBuffer \<Rightarrow> bool" where
  "rb_wf b \<longleftrightarrow> rb_head b \<le> rb_tail b \<and> rb_tail b \<le> length (rb_buf b)"

lemmas rb_defs = rb_make_def rb_readable_def rb_writable_capacity_def rb_commit_write_def rb_consume_def
  rb_compact_def rb_clear_def rb_push_def rb_window_def rb_wf_def

lemma rb_make_wf: "rb_wf (rb_make cap)" "rb_window (rb_make cap) = []"
  by (simp_all add: rb_defs slice_def)

lemma length_rb_window: "rb_wf b \<Longrightarrow> length (rb_window b) = rb_readable b"
  by (auto simp: rb_defs)

lemma slice_blit_after:
  "h \<le> t \<Longrightarrow> t + length bs \<le> length xs \<Longrightarrow>
   slice (blit xs t bs) h (t + length bs - h) = slice xs h (t - h) @ bs"
  by (simp add: slice_def blit_def take_drop)

lemma slice_blit_0: "length ys = n \<Longrightarrow> n \<le> length xs \<Longrightarrow> slice (blit xs 0 ys) 0 n = ys"
  by (simp add: slice_def blit_def)

lemma drop_slice: "drop n (slice xs h k) = slice xs (h + n) (k - n)"
  by (simp add: slice_def drop_take add.commute)

lemma slice_0: "slice xs h 0 = []"
  by (simp add: slice_def)

lemma rb_push_eq:
  assumes "rb_wf b" "length bs \<le> rb_writable_capacity b"
  shows "rb_push b bs = b\<lparr>rb_buf := blit (rb_buf b) (rb_tail b) bs, rb_tail := rb_tail b + length bs\<rparr>"
  using assms by (auto simp: rb_defs length_blit Let_def)

interpretation rbq: byte_queue rb_wf rb_window "\<lambda>b. length (rb_buf b)" rb_writable_capacity rb_push "\<lambda>b n. rb_consume n b" rb_compact
proof
  fix q :: ReassemblyBuffer and bs :: bytes and n :: nat
  show "rb_wf q \<Longrightarrow> length bs \<le> rb_writable_capacity q \<Longrightarrow> rb_wf (rb_push q bs) \<and> rb_window (rb_push q bs) = rb_window q @ bs"
    using slice_blit_after [of "rb_head q" "rb_tail q" bs "rb_buf q"]
    by (simp add: rb_push_eq) (auto simp: rb_defs length_blit)
  show "rb_wf q \<Longrightarrow> length bs \<le> rb_writable_capacity q \<Longrightarrow> length (rb_buf (rb_push q bs)) = length (rb_buf q)"
    by (simp add: rb_push_eq) (auto simp: rb_defs length_blit)
  show "rb_wf q \<Longrightarrow> rb_wf (rb_consume n q) \<and> rb_window (rb_consume n q) = drop n (rb_window q)"
    by (cases "rb_head q + n < rb_tail q") (auto simp: rb_defs Let_def drop_slice min_def slice_0)
  show "length (rb_buf (rb_consume n q)) = length (rb_buf q)"
    by (simp add: rb_consume_def Let_def)
  show "rb_wf q \<Longrightarrow> rb_wf (rb_compact q) \<and> rb_window (rb_compact q) = rb_window q"
    using slice_blit_0 [of "slice (rb_buf q) (rb_head q) (rb_tail q - rb_head q)" "rb_tail q - rb_head q" "rb_buf q"]
    by (auto simp: rb_defs Let_def length_blit slice_def)
  show "length (rb_buf (rb_compact q)) = length (rb_buf q)"
    by (auto simp: rb_compact_def Let_def length_blit)
  show "rb_wf q \<Longrightarrow> rb_writable_capacity (rb_compact q) = length (rb_buf q) - length (rb_window q)"
    by (auto simp: rb_defs Let_def length_blit)
  show "rb_wf q \<Longrightarrow> length (rb_window q) \<le> length (rb_buf q)"
    by (auto simp: rb_defs)
qed

text \<open>The DPDK backend's buffer: no reset on an emptying \<open>consume\<close>, no clamp in \<open>commit_write\<close>.\<close>

record ReasmBuffer =
  dr_buf :: bytes
  dr_head :: nat
  dr_tail :: nat

definition dr_make :: "nat \<Rightarrow> ReasmBuffer" where
  "dr_make cap = \<lparr>dr_buf = replicate cap 0, dr_head = 0, dr_tail = 0\<rparr>"

definition dr_readable :: "ReasmBuffer \<Rightarrow> nat" where
  "dr_readable b = dr_tail b - dr_head b"

definition dr_writable_capacity :: "ReasmBuffer \<Rightarrow> nat" where
  "dr_writable_capacity b = length (dr_buf b) - dr_tail b"

definition dr_commit_write :: "nat \<Rightarrow> ReasmBuffer \<Rightarrow> ReasmBuffer" where
  "dr_commit_write n b = b\<lparr>dr_tail := dr_tail b + n\<rparr>"

definition dr_consume :: "nat \<Rightarrow> ReasmBuffer \<Rightarrow> ReasmBuffer" where
  "dr_consume n b =
     (if n \<ge> dr_readable b then b\<lparr>dr_head := dr_tail b\<rparr> else b\<lparr>dr_head := dr_head b + n\<rparr>)"

definition dr_compact :: "ReasmBuffer \<Rightarrow> ReasmBuffer" where
  "dr_compact b =
     (if dr_head b = 0 then b
      else if dr_readable b = 0 then b\<lparr>dr_head := 0, dr_tail := 0\<rparr>
      else b\<lparr>dr_buf := blit (dr_buf b) 0 (slice (dr_buf b) (dr_head b) (dr_readable b)),
             dr_tail := dr_tail b - dr_head b, dr_head := 0\<rparr>)"

definition dr_push :: "ReasmBuffer \<Rightarrow> bytes \<Rightarrow> ReasmBuffer" where
  "dr_push b bs = dr_commit_write (length bs) (b\<lparr>dr_buf := blit (dr_buf b) (dr_tail b) bs\<rparr>)"

definition dr_append :: "bytes \<Rightarrow> ReasmBuffer \<Rightarrow> bool \<times> ReasmBuffer" where
  "dr_append src b =
     (if dr_writable_capacity b < length src then
        let b = dr_compact b in
        if dr_writable_capacity b < length src then (False, b) else (True, dr_push b src)
      else (True, dr_push b src))"

definition dr_window :: "ReasmBuffer \<Rightarrow> bytes" where
  "dr_window b = slice (dr_buf b) (dr_head b) (dr_readable b)"

definition dr_wf :: "ReasmBuffer \<Rightarrow> bool" where
  "dr_wf b \<longleftrightarrow> dr_head b \<le> dr_tail b \<and> dr_tail b \<le> length (dr_buf b)"

lemmas dr_defs = dr_make_def dr_readable_def dr_writable_capacity_def dr_commit_write_def dr_consume_def
  dr_compact_def dr_push_def dr_window_def dr_wf_def

interpretation drq: byte_queue dr_wf dr_window "\<lambda>b. length (dr_buf b)" dr_writable_capacity dr_push "\<lambda>b n. dr_consume n b" dr_compact
proof
  fix q :: ReasmBuffer and bs :: bytes and n :: nat
  show "dr_wf q \<Longrightarrow> length bs \<le> dr_writable_capacity q \<Longrightarrow> dr_wf (dr_push q bs) \<and> dr_window (dr_push q bs) = dr_window q @ bs"
    using slice_blit_after [of "dr_head q" "dr_tail q" bs "dr_buf q"] by (auto simp: dr_defs length_blit)
  show "dr_wf q \<Longrightarrow> length bs \<le> dr_writable_capacity q \<Longrightarrow> length (dr_buf (dr_push q bs)) = length (dr_buf q)"
    by (auto simp: dr_defs length_blit)
  show "dr_wf q \<Longrightarrow> dr_wf (dr_consume n q) \<and> dr_window (dr_consume n q) = drop n (dr_window q)"
    by (cases "dr_head q + n < dr_tail q") (auto simp: dr_defs Let_def drop_slice slice_0)
  show "length (dr_buf (dr_consume n q)) = length (dr_buf q)"
    by (simp add: dr_consume_def)
  show "dr_wf q \<Longrightarrow> dr_wf (dr_compact q) \<and> dr_window (dr_compact q) = dr_window q"
    using slice_blit_0 [of "slice (dr_buf q) (dr_head q) (dr_tail q - dr_head q)" "dr_tail q - dr_head q" "dr_buf q"]
    by (auto simp: dr_defs length_blit slice_def)
  show "length (dr_buf (dr_compact q)) = length (dr_buf q)"
    by (auto simp: dr_defs length_blit)
  show "dr_wf q \<Longrightarrow> dr_writable_capacity (dr_compact q) = length (dr_buf q) - length (dr_window q)"
    by (auto simp: dr_defs length_blit)
  show "dr_wf q \<Longrightarrow> length (dr_window q) \<le> length (dr_buf q)"
    by (auto simp: dr_defs)
qed

text \<open>
  The DPDK buffer's \<open>append\<close> fails exactly when the unread bytes and the new ones exceed the
  capacity, and then loses nothing; otherwise the new bytes follow the unread ones.
\<close>

theorem reasm_append_exact:
  assumes "dr_wf b" "dr_append src b = (ok, b')"
  shows "dr_wf b' \<and> (ok \<longleftrightarrow> length (dr_window b) + length src \<le> length (dr_buf b)) \<and>
    dr_window b' = dr_window b @ (if ok then src else [])"
proof (cases "dr_writable_capacity b < length src")
  case True
  let ?c = "dr_compact b"
  have c: "dr_wf ?c" "dr_window ?c = dr_window b" "dr_writable_capacity ?c = length (dr_buf b) - length (dr_window b)"
    using drq.tidy_window [OF assms(1)] drq.tidy_room [OF assms(1)] by auto
  have le: "length (dr_window b) \<le> length (dr_buf b)" by (rule drq.window_cap [OF assms(1)])
  show ?thesis
  proof (cases "dr_writable_capacity ?c < length src")
    case f: True
    then have "ok = False" "b' = ?c" using assms(2) True by (simp_all add: dr_append_def Let_def)
    with f c le show ?thesis by auto
  next
    case False
    then have "ok = True" "b' = dr_push ?c src" using assms(2) True by (simp_all add: dr_append_def Let_def)
    with False c le drq.push_window [OF c(1), of src] show ?thesis by auto
  qed
next
  case False
  then have "ok = True" "b' = dr_push b src" using assms(2) by (simp_all add: dr_append_def)
  moreover have "length (dr_window b) + length src \<le> length (dr_buf b)"
    using False assms(1) by (auto simp: dr_defs)
  ultimately show ?thesis using False drq.push_window [OF assms(1), of src] by auto
qed

section \<open>In-flight classification\<close>

datatype InFlightStatus = Unsent | Sent | Uncertain

record InFlightDetail =
  ifd_status :: InFlightStatus
  bytes_observed :: nat
  bytes_confirmed :: nat
  ifd_phase :: string
  detected_at_ns :: u64

fun in_flight_to_string :: "InFlightStatus \<Rightarrow> string" where
  "in_flight_to_string Unsent = ''Unsent''"
| "in_flight_to_string Sent = ''Sent''"
| "in_flight_to_string Uncertain = ''Uncertain''"

definition default_InFlightDetail :: InFlightDetail where
  "default_InFlightDetail =
     \<lparr>ifd_status = Unsent, bytes_observed = 0, bytes_confirmed = 0, ifd_phase = [], detected_at_ns = 0\<rparr>"

text \<open>The new value of the thread-local slot; \<open>now\<close> is the steady clock.\<close>

definition set_in_flight_detail :: "u64 \<Rightarrow> InFlightStatus \<Rightarrow> nat \<Rightarrow> nat \<Rightarrow> string \<Rightarrow> InFlightDetail" where
  "set_in_flight_detail now status observed confirmed phase =
     \<lparr>ifd_status = status, bytes_observed = observed, bytes_confirmed = confirmed, ifd_phase = phase,
      detected_at_ns = now\<rparr>"

section \<open>The kernel socket\<close>

text \<open>
  Answers of \<open>::send\<close>: the bytes it accepted, or the error number it failed with; \<open>SendEagain pr\<close> is
  \<open>EAGAIN\<close> followed by the \<open>::poll\<close> whose result is \<open>pr\<close>.
\<close>

datatype send_answer =
    Accepted nat | SendEintr | SendEagain int | SendEpipe | SendEconnreset | SendEother

fun bs_send_loop ::
    "send_answer list \<Rightarrow> bytes \<Rightarrow> bytes \<Rightarrow> ((ErrorInfo, nat) expected \<times> bytes \<times> send_answer list) option" where
  "bs_send_loop [] rest wire = (if rest = [] then Some (Inr (length wire), wire, []) else None)"
| "bs_send_loop (a # as) rest wire =
     (if rest = [] then Some (Inr (length wire), wire, a # as)
      else case a of
        Accepted n \<Rightarrow>
          if n > 0 then bs_send_loop as (drop n rest) (wire @ take n rest)
          else Some (Inl (ErrorInfo Disconnected ''ByteSocket::send: zero return''), wire, as)
      | SendEintr \<Rightarrow> bs_send_loop as rest wire
      | SendEagain pr \<Rightarrow>
          if pr \<le> 0 then Some (Inl (ErrorInfo Timeout ''ByteSocket::send: poll writable timeout''), wire, as)
          else bs_send_loop as rest wire
      | SendEpipe \<Rightarrow> Some (Inl (ErrorInfo Disconnected ''ByteSocket::send: peer closed''), wire, as)
      | SendEconnreset \<Rightarrow> Some (Inl (ErrorInfo Disconnected ''ByteSocket::send: peer closed''), wire, as)
      | SendEother \<Rightarrow> Some (Inl (ErrorInfo Disconnected ''ByteSocket::send: unexpected I/O error''), wire, as))"

text \<open>The result, the bytes the kernel accepted, and the answers left.\<close>

definition bs_send ::
    "int \<Rightarrow> send_answer list \<Rightarrow> bytes \<Rightarrow> ((ErrorInfo, nat) expected \<times> bytes \<times> send_answer list) option" where
  "bs_send fd os wire_bytes =
     (if fd < 0 then Some (Inl (ErrorInfo Disconnected ''ByteSocket::send: fd closed''), [], os)
      else if wire_bytes = [] then Some (Inr 0, [], os)
      else bs_send_loop os wire_bytes [])"

text \<open>Answers of \<open>::recv\<close>; \<open>Received []\<close> is the return value 0, the peer's FIN.\<close>

datatype recv_answer = Received bytes | RecvEintr | RecvEagain | RecvEconnreset | RecvEother

fun bs_recv_loop :: "recv_answer list \<Rightarrow> nat \<Rightarrow> ((ErrorInfo, bytes) expected \<times> recv_answer list) option" where
  "bs_recv_loop [] cap = None"
| "bs_recv_loop (a # as) cap =
     (case a of
        Received bs \<Rightarrow>
          if bs \<noteq> [] then Some (Inr (take cap bs), as)
          else Some (Inl (ErrorInfo Disconnected ''ByteSocket::recv: peer closed (FIN)''), as)
      | RecvEintr \<Rightarrow> bs_recv_loop as cap
      | RecvEagain \<Rightarrow> Some (Inl (ErrorInfo WouldBlock ''ByteSocket::recv: would block''), as)
      | RecvEconnreset \<Rightarrow> Some (Inl (ErrorInfo Disconnected ''ByteSocket::recv: peer RST''), as)
      | RecvEother \<Rightarrow> Some (Inl (ErrorInfo Disconnected ''ByteSocket::recv: unexpected I/O error''), as))"

definition bs_recv :: "int \<Rightarrow> recv_answer list \<Rightarrow> nat \<Rightarrow> ((ErrorInfo, bytes) expected \<times> recv_answer list) option" where
  "bs_recv fd os cap =
     (if fd < 0 then Some (Inl (ErrorInfo Disconnected ''ByteSocket::recv: fd closed''), os)
      else if cap = 0 then Some (Inr [], os)
      else bs_recv_loop os cap)"

lemma bs_send_loop_prefix:
  "bs_send_loop os rest wire = Some (r, wire', os') \<Longrightarrow>
   (\<exists>k. wire' = wire @ take k rest) \<and>
   (case r of Inr n \<Rightarrow> wire' = wire @ rest \<and> n = length wire' | Inl e \<Rightarrow> length wire' < length wire + length rest)"
proof (induction os rest wire rule: bs_send_loop.induct)
  case (1 rest wire)
  then show ?case by (auto split: if_splits intro: exI [of _ 0])
next
  case (2 a as rest wire)
  show ?case
  proof (cases "rest = []")
    case True
    then show ?thesis using "2.prems" by (auto intro: exI [of _ 0])
  next
    case ne: False
    show ?thesis
    proof (cases a)
      case (Accepted n)
      show ?thesis
      proof (cases "0 < n")
        case True
        with "2.prems" ne Accepted have e: "bs_send_loop as (drop n rest) (wire @ take n rest) = Some (r, wire', os')" by simp
        from "2.IH"(1) [OF ne Accepted True e] obtain k where
          k: "wire' = (wire @ take n rest) @ take k (drop n rest)"
          and c: "case r of Inr m \<Rightarrow> wire' = (wire @ take n rest) @ drop n rest \<and> m = length wire'
            | Inl e \<Rightarrow> length wire' < length (wire @ take n rest) + length (drop n rest)" by blast
        have "wire' = wire @ take (n + k) rest" using k by (simp add: take_add)
        then show ?thesis using c by (cases r) (auto intro: exI [of _ "n + k"])
      next
        case False
        then show ?thesis using "2.prems" ne Accepted by (auto intro: exI [of _ 0])
      qed
    qed (use "2.prems" "2.IH" ne in \<open>auto split: if_splits intro: exI [of _ 0]\<close>)
  qed
qed

text \<open>Patient answers: the kernel takes something, or is interrupted, or becomes writable in time.\<close>

fun patient :: "send_answer \<Rightarrow> bool" where
  "patient (Accepted n) = (0 < n)"
| "patient SendEintr = True"
| "patient (SendEagain pr) = (0 < pr)"
| "patient _ = False"

fun is_accept :: "send_answer \<Rightarrow> bool" where
  "is_accept (Accepted n) = True"
| "is_accept _ = False"

abbreviation accepts :: "send_answer list \<Rightarrow> nat" where
  "accepts os \<equiv> length (filter is_accept os)"

lemma bs_send_loop_returns:
  "list_all patient os \<Longrightarrow> length rest \<le> accepts os \<Longrightarrow>
   \<exists>os'. bs_send_loop os rest wire = Some (Inr (length wire + length rest), wire @ rest, os') \<and>
     list_all patient os' \<and> accepts os \<le> accepts os' + length rest"
proof (induction os rest wire rule: bs_send_loop.induct)
  case (2 a as rest wire)
  show ?case
  proof (cases "rest = []")
    case ne: False
    show ?thesis
    proof (cases a)
      case (Accepted n)
      then have n: "0 < n" using "2.prems" by simp
      have "length (drop n rest) \<le> accepts as" using "2.prems" Accepted n by auto
      from "2.IH"(1) [OF ne Accepted n _ this] "2.prems" obtain os' where
        "bs_send_loop as (drop n rest) (wire @ take n rest) =
           Some (Inr (length (wire @ take n rest) + length (drop n rest)), (wire @ take n rest) @ drop n rest, os')"
        "list_all patient os'" "accepts as \<le> accepts os' + length (drop n rest)" by auto
      moreover from this have "Suc (accepts as) \<le> accepts os' + length rest"
        using ne n by (cases rest; cases n) auto
      moreover have "length (wire @ take n rest) + length (drop n rest) = length wire + length rest" by simp
      ultimately show ?thesis using ne Accepted n by (simp only: append_assoc append_take_drop_id) simp
    qed (use "2.prems" "2.IH" ne in auto)
  qed (use "2.prems" in simp)
qed simp

lemma bs_send_returns:
  assumes "list_all patient os" "length d \<le> accepts os" "0 \<le> fd"
  shows "\<exists>os'. bs_send fd os d = Some (Inr (length d), d, os') \<and> list_all patient os' \<and> accepts os \<le> accepts os' + length d"
  using bs_send_loop_returns [OF assms(1,2), of "[]"] assms by (auto simp: bs_send_def)

text \<open>
  C39. \<open>ByteSocket::send\<close> puts a prefix of the data on the wire: all of it exactly when it reports
  success (with the full length), a proper prefix, possibly non-empty, when it reports an error.
\<close>

theorem byte_socket_send_prefix:
  assumes "bs_send fd os wire_bytes = Some (r, wire, os')"
  shows "\<exists>k. wire = take k wire_bytes \<and>
    (case r of Inr n \<Rightarrow> n = length wire_bytes \<and> wire = wire_bytes
     | Inl e \<Rightarrow> length wire < length wire_bytes \<or> fd < 0)"
proof (cases "fd < 0 \<or> wire_bytes = []")
  case True
  then show ?thesis using assms by (auto simp: bs_send_def split: if_splits intro: exI [of _ 0])
next
  case False
  then have "bs_send_loop os wire_bytes [] = Some (r, wire, os')" using assms by (simp add: bs_send_def)
  from bs_send_loop_prefix [OF this] show ?thesis by (auto split: sum.splits)
qed

theorem byte_socket_send_prefix_witness:
  "\<exists>k. [1, 2] = take k [1, 2, 3 :: u8] \<and> length [1, 2 :: u8] < length [1, 2, 3 :: u8]"
proof -
  have "bs_send 5 [SendEintr, Accepted 2, SendEpipe] [1, 2, 3] =
      Some (Inl (ErrorInfo Disconnected ''ByteSocket::send: peer closed''), [1, 2], [])" by code_simp
  from byte_socket_send_prefix [OF this] show ?thesis by auto
qed

end
