(* ===== verification/Kernel_Stream.thy ===== *)
theory Kernel_Stream
  imports Kernel_Io Framing Ws_Codec
begin

text \<open>
  The plaintext kernel stream, \<^verbatim>\<open>eph-net-kernel/include/eph/net/kernel/tcp_stream.hpp\<close>
  (\<open>KernelTcpStream\<close> with \<open>EnableTls = false\<close>): \<open>send\<close>, the receive step \<open>poll_once_\<close> and the decode
  loop \<open>drain_codec_\<close>, for any codec. \<open>codec_run\<close> is the reference: what a codec makes of a byte
  sequence. The lemmas show that the stream computes it however the network cuts the bytes.
\<close>

section \<open>What a codec makes of a byte sequence\<close>

definition kCodecAutoResponseBytes :: nat where
  "kCodecAutoResponseBytes = 1024"

datatype run_end = Waiting | Failed ErrorInfo

record 'c run =
  run_msgs :: "bytes list"
  run_resps :: bytes
  run_keys :: nat
  run_codec :: 'c
  run_rest :: bytes
  run_end :: run_end

definition message_of :: "bytes option \<Rightarrow> bytes list" where
  "message_of m = (case m of None \<Rightarrow> [] | Some f \<Rightarrow> if f \<noteq> [] then [f] else [])"

abbreviation fresh_sink :: OutputBuffer where
  "fresh_sink \<equiv> ob_make (replicate kCodecAutoResponseBytes 0)"

definition next_keys :: "nat \<Rightarrow> OutputBuffer \<Rightarrow> nat" where
  "next_keys n out = (if ob_len out > 0 then n + 1 else n)"

function codec_run :: "('k, 'c) decoder \<Rightarrow> (nat \<Rightarrow> 'k) \<Rightarrow> nat \<Rightarrow> 'c \<Rightarrow> bytes \<Rightarrow> 'c run" where
  "codec_run decode keys n c xs =
     (if xs = [] then \<lparr>run_msgs = [], run_resps = [], run_keys = n, run_codec = c, run_rest = [], run_end = Waiting\<rparr>
      else
        let (r, c', v, out) = decode (keys n) c (sv_make xs) fresh_sink;
            consumed = length xs - view_length v in
        case r of
          Inl e \<Rightarrow> \<lparr>run_msgs = [], run_resps = ob_data out, run_keys = next_keys n out, run_codec = c',
                    run_rest = xs, run_end = Failed e\<rparr>
        | Inr m \<Rightarrow>
            if consumed = 0
            then \<lparr>run_msgs = [], run_resps = ob_data out, run_keys = next_keys n out, run_codec = c',
                  run_rest = xs, run_end = Waiting\<rparr>
            else
              let q = codec_run decode keys (next_keys n out) c' (drop consumed xs) in
              q\<lparr>run_msgs := message_of m @ run_msgs q, run_resps := ob_data out @ run_resps q\<rparr>)"
  by pat_completeness auto
termination
  by (relation "measure (\<lambda>(decode, keys, n, c, xs). length xs)") auto

declare codec_run.simps [simp del]

definition run_join :: "'c run \<Rightarrow> 'c run \<Rightarrow> 'c run" where
  "run_join q q2 = q2\<lparr>run_msgs := run_msgs q @ run_msgs q2, run_resps := run_resps q @ run_resps q2\<rparr>"

lemma codec_run_Nil:
  "codec_run decode keys n c [] =
     \<lparr>run_msgs = [], run_resps = [], run_keys = n, run_codec = c, run_rest = [], run_end = Waiting\<rparr>"
  by (subst codec_run.simps) simp

lemma codec_run_fail:
  assumes "decode (keys n) c (sv_make xs) fresh_sink = (Inl e, c', v, out)" "xs \<noteq> []"
  shows "codec_run decode keys n c xs =
     \<lparr>run_msgs = [], run_resps = ob_data out, run_keys = next_keys n out, run_codec = c', run_rest = xs, run_end = Failed e\<rparr>"
  using assms by (subst codec_run.simps) (simp add: Let_def)

lemma codec_run_wait:
  assumes "decode (keys n) c (sv_make xs) fresh_sink = (Inr m, c', v, out)" "xs \<noteq> []" "length xs \<le> view_length v"
  shows "codec_run decode keys n c xs =
     \<lparr>run_msgs = [], run_resps = ob_data out, run_keys = next_keys n out, run_codec = c', run_rest = xs, run_end = Waiting\<rparr>"
  using assms by (subst codec_run.simps) (simp add: Let_def)

lemma codec_run_step:
  assumes "decode (keys n) c (sv_make xs) fresh_sink = (Inr m, c', v, out)" "view_length v < length xs"
  shows "codec_run decode keys n c xs =
     (let q = codec_run decode keys (next_keys n out) c' (drop (length xs - view_length v) xs) in
      q\<lparr>run_msgs := message_of m @ run_msgs q, run_resps := ob_data out @ run_resps q\<rparr>)"
  using assms by (subst codec_run.simps) (auto simp: Let_def)

lemma fresh_sink_data: "ob_data fresh_sink = []" "next_keys n fresh_sink = n"
  by (simp_all add: ob_data_def ob_make_def next_keys_def)

context framing_codec begin

lemma decode_idle:
  assumes "decode k c (sv_make xs) out = (Inr m, c', v, out')" "view_length v = length xs"
  shows "c' = c" "out' = out"
proof -
  have "m = None"
  proof (cases m)
    case (Some f)
    from decode_progress [OF sv_make_wf assms(1) [unfolded Some]] assms(2) show ?thesis by simp
  qed
  from decode_need_more [OF sv_make_wf assms(1) [unfolded this]] assms(2) show "c' = c" "out' = out" by simp_all
qed

lemma run_append:
  "codec_run decode keys n c (xs @ ys) =
     (let q = codec_run decode keys n c xs in
      case run_end q of
        Waiting \<Rightarrow> run_join q (codec_run decode keys (run_keys q) (run_codec q) (run_rest q @ ys))
      | Failed e \<Rightarrow> q\<lparr>run_rest := run_rest q @ ys\<rparr>)"
proof (induction xs arbitrary: n c rule: length_induct)
  case (1 xs)
  show ?case
  proof (cases "xs = []")
    case True
    then show ?thesis by (simp add: codec_run_Nil run_join_def)
  next
    case ne: False
    obtain r c' v out where d: "decode (keys n) c (sv_make xs) fresh_sink = (r, c', v, out)" using prod_cases4 by blast
    have dl: "view_length v \<le> length xs" using decode_length [OF _ d] by simp
    note st = decode_stable [OF sv_make_wf sv_make_wf [of "xs @ ys"] _ d]
    show ?thesis
    proof (cases r)
      case (Inl e)
      have "decode (keys n) c (sv_make (xs @ ys)) fresh_sink = (Inl e, c', trim_front (length xs - view_length v) (sv_make (xs @ ys)), out)"
        using st [of ys] Inl by simp
      from codec_run_fail [of decode keys n c, OF this] codec_run_fail [of decode keys n c, OF d [unfolded Inl]] ne show ?thesis by simp
    next
      case m: (Inr m)
      show ?thesis
      proof (cases "view_length v = length xs")
        case True
        from decode_idle [OF d [unfolded m] True] show ?thesis using codec_run_wait [of decode keys n c, OF d [unfolded m]] ne True
          by (simp add: run_join_def fresh_sink_data)
      next
        case False
        then have lt: "view_length v < length xs" using dl by simp
        let ?k = "length xs - view_length v"
        have "decode (keys n) c (sv_make (xs @ ys)) fresh_sink = (Inr m, c', trim_front ?k (sv_make (xs @ ys)), out)"
          using st [of ys] m lt by simp
        from codec_run_step [of decode keys n c, OF this] lt have e: "codec_run decode keys n c (xs @ ys) =
           (let q = codec_run decode keys (next_keys n out) c' (drop ?k xs @ ys) in
            q\<lparr>run_msgs := message_of m @ run_msgs q, run_resps := ob_data out @ run_resps q\<rparr>)" by simp
        have "length (drop ?k xs) < length xs" using lt by simp
        note ih = 1 [rule_format, OF this, of "next_keys n out" c']
        show ?thesis unfolding e ih codec_run_step [of decode keys n c, OF d [unfolded m] lt]
          by (simp add: Let_def run_join_def split: run_end.split)
      qed
    qed
  qed
qed

lemma run_rest_idle:
  assumes "codec_run decode keys n c xs = q" "run_end q = Waiting"
  shows "codec_run decode keys (run_keys q) (run_codec q) (run_rest q) =
    \<lparr>run_msgs = [], run_resps = [], run_keys = run_keys q, run_codec = run_codec q, run_rest = run_rest q, run_end = Waiting\<rparr>"
  using assms
proof (induction xs arbitrary: n c q rule: length_induct)
  case (1 xs)
  show ?case
  proof (cases "xs = []")
    case True
    then show ?thesis using "1.prems" by (auto simp: codec_run_Nil)
  next
    case ne: False
    obtain r c' v out where d: "decode (keys n) c (sv_make xs) fresh_sink = (r, c', v, out)" using prod_cases4 by blast
    have dl: "view_length v \<le> length xs" using decode_length [OF _ d] by simp
    show ?thesis
    proof (cases r)
      case (Inl e)
      then show ?thesis using codec_run_fail [of decode keys n c, OF d [unfolded Inl]] ne "1.prems" by auto
    next
      case m: (Inr m)
      show ?thesis
      proof (cases "view_length v = length xs")
        case True
        from decode_idle [OF d [unfolded m] True] show ?thesis using codec_run_wait [of decode keys n c, OF d [unfolded m]] ne True "1.prems" by (auto simp: fresh_sink_data)
      next
        case False
        then have lt: "view_length v < length xs" using dl by simp
        let ?q = "codec_run decode keys (next_keys n out) c' (drop (length xs - view_length v) xs)"
        have q: "run_keys q = run_keys ?q" "run_codec q = run_codec ?q" "run_rest q = run_rest ?q" "run_end ?q = Waiting"
          using "1.prems" codec_run_step [of decode keys n c, OF d [unfolded m] lt] by (auto simp: Let_def)
        have "length (drop (length xs - view_length v) xs) < length xs" using lt by simp
        from 1(1) [rule_format, OF this refl q(4)] q show ?thesis by simp
      qed
    qed
  qed
qed

end

section \<open>The stream\<close>

datatype TcpState =
    Closed | Listen | SynSent | SynReceived | Established | FinWait1 | FinWait2 | CloseWait
  | Closing | LastAck | TimeWait

fun tcp_state_name :: "TcpState \<Rightarrow> string" where
  "tcp_state_name Closed = ''CLOSED''"
| "tcp_state_name Listen = ''LISTEN''"
| "tcp_state_name SynSent = ''SYN_SENT''"
| "tcp_state_name SynReceived = ''SYN_RECEIVED''"
| "tcp_state_name Established = ''ESTABLISHED''"
| "tcp_state_name FinWait1 = ''FIN_WAIT_1''"
| "tcp_state_name FinWait2 = ''FIN_WAIT_2''"
| "tcp_state_name CloseWait = ''CLOSE_WAIT''"
| "tcp_state_name Closing = ''CLOSING''"
| "tcp_state_name LastAck = ''LAST_ACK''"
| "tcp_state_name TimeWait = ''TIME_WAIT''"

datatype HandshakePhase =
    Init | TcpConnecting | TcpConnected | TlsHandshaking | TlsConnected | WsHandshaking
  | HsEstablished | HsFailed

fun handshake_phase_name :: "HandshakePhase \<Rightarrow> string" where
  "handshake_phase_name Init = ''INIT''"
| "handshake_phase_name TcpConnecting = ''TCP_CONNECTING''"
| "handshake_phase_name TcpConnected = ''TCP_CONNECTED''"
| "handshake_phase_name TlsHandshaking = ''TLS_HANDSHAKING''"
| "handshake_phase_name TlsConnected = ''TLS_CONNECTED''"
| "handshake_phase_name WsHandshaking = ''WS_HANDSHAKING''"
| "handshake_phase_name HsEstablished = ''ESTABLISHED''"
| "handshake_phase_name HsFailed = ''FAILED''"

text \<open>
  The members the plaintext path uses, the counters it bumps, the answers the operating system will
  give, and two logs: \<open>ks_wire\<close>, the bytes the kernel accepted, and \<open>ks_messages\<close>, the calls of
  \<open>on_message\<close> (\<open>ks_has_sink\<close> is whether it is set). \<open>ks_nkeys\<close> counts the auto-responses written.
\<close>

record 'c KStream =
  ks_attached :: bool
  ks_state :: TcpState
  ks_phase :: HandshakePhase
  ks_fd :: int
  ks_codec :: 'c
  ks_rx :: ReassemblyBuffer
  ks_has_sink :: bool
  ks_no_sink_warned :: bool
  ks_in_flight :: InFlightDetail
  kBytesSent :: u64
  kBytesRecv :: u64
  kFramesDecoded :: u64
  kCodecErrors :: u64
  kReasmOverflows :: u64
  ks_send_os :: "send_answer list"
  ks_recv_os :: "recv_answer list"
  ks_wire :: bytes
  ks_messages :: "bytes list"
  ks_nkeys :: nat

definition ks_send_plain :: "u64 \<Rightarrow> bytes \<Rightarrow> 'c KStream \<Rightarrow> ((ErrorInfo, nat) expected \<times> 'c KStream) option" where
  "ks_send_plain now app_payload s =
     (case bs_send (ks_fd s) (ks_send_os s) app_payload of
        None \<Rightarrow> None
      | Some (sr, wire, os) \<Rightarrow>
          let s = s\<lparr>ks_send_os := os, ks_wire := ks_wire s @ wire\<rparr> in
          (case sr of
             Inl e \<Rightarrow>
               Some (Inl e, s\<lparr>ks_in_flight := set_in_flight_detail now Unsent (length app_payload) 0 ''KernelTcpStream::send''\<rparr>)
           | Inr n \<Rightarrow>
               let s = s\<lparr>kBytesSent := kBytesSent s + of_nat n\<rparr>;
                   s = (if n < length app_payload
                        then s\<lparr>ks_in_flight := set_in_flight_detail now Uncertain (length app_payload) n ''KernelTcpStream::send(partial)''\<rparr>
                        else s) in
               Some (Inr n, s)))"

definition ks_send :: "u64 \<Rightarrow> bytes \<Rightarrow> 'c KStream \<Rightarrow> ((ErrorInfo, nat) expected \<times> 'c KStream) option" where
  "ks_send now app_payload s =
     (if \<not> ks_attached s then
        Some (Inl (ErrorInfo NotAttached ''KernelTcpStream::send called before attach''),
              s\<lparr>ks_in_flight := set_in_flight_detail now Unsent (length app_payload) 0 ''KernelTcpStream::send(NotAttached)''\<rparr>)
      else if ks_state s \<noteq> Established then
        Some (Inl (ErrorInfo Disconnected ''KernelTcpStream::send: state != Established''),
              s\<lparr>ks_in_flight := set_in_flight_detail now Unsent (length app_payload) 0 ''KernelTcpStream::send(NotEstablished)''\<rparr>)
      else ks_send_plain now app_payload s)"

lemmas ks_send_defs = ks_send_def ks_send_plain_def

lemma ks_send_keeps:
  assumes "ks_send now d s = Some (r, s')"
  shows "ks_rx s' = ks_rx s" "ks_codec s' = ks_codec s" "ks_messages s' = ks_messages s"
    "ks_nkeys s' = ks_nkeys s" "ks_state s' = ks_state s" "ks_attached s' = ks_attached s"
    "ks_fd s' = ks_fd s" "ks_recv_os s' = ks_recv_os s" "ks_has_sink s' = ks_has_sink s" "ks_phase s' = ks_phase s"
    "kReasmOverflows s' = kReasmOverflows s"
  using assms by (auto simp: ks_send_defs Let_def split: if_splits option.splits prod.splits sum.splits)

text \<open>The auto-response of one iteration; its failure is only logged.\<close>

definition ks_flush :: "u64 \<Rightarrow> OutputBuffer \<Rightarrow> 'c KStream \<Rightarrow> 'c KStream option" where
  "ks_flush now out s = (if ob_len out > 0 then map_option snd (ks_send now (ob_data out) s) else Some s)"

lemma ks_flush_keeps:
  assumes "ks_flush now out s = Some s'"
  shows "ks_rx s' = ks_rx s" "ks_codec s' = ks_codec s" "ks_messages s' = ks_messages s"
    "ks_nkeys s' = ks_nkeys s" "ks_state s' = ks_state s" "ks_attached s' = ks_attached s"
    "ks_fd s' = ks_fd s" "ks_recv_os s' = ks_recv_os s" "ks_has_sink s' = ks_has_sink s" "ks_phase s' = ks_phase s"
    "kReasmOverflows s' = kReasmOverflows s"
  using assms by (auto simp: ks_flush_def split: if_splits dest: ks_send_keeps)

lemma rb_consume_readable: "0 < n \<Longrightarrow> rb_readable b \<noteq> 0 \<Longrightarrow> rb_readable (rb_consume n b) < rb_readable b"
  by (auto simp: rb_consume_def rb_readable_def Let_def)

function drain_codec ::
    "('k, 'c) decoder \<Rightarrow> (nat \<Rightarrow> 'k) \<Rightarrow> u64 \<Rightarrow> nat \<Rightarrow> 'c KStream \<Rightarrow> (nat \<times> 'c KStream) option" where
  "drain_codec decode keys now delivered s =
     (if rb_readable (ks_rx s) = 0 then Some (delivered, s)
      else
        let before = rb_readable (ks_rx s);
            (dr, c, view, out) = decode (keys (ks_nkeys s)) (ks_codec s) (sv_make (rb_window (ks_rx s))) fresh_sink;
            consumed = before - view_length view in
        case ks_flush now out (s\<lparr>ks_codec := c, ks_nkeys := next_keys (ks_nkeys s) out\<rparr>) of
          None \<Rightarrow> None
        | Some s2 \<Rightarrow>
            (case dr of
               Inl e \<Rightarrow> Some (delivered, s2\<lparr>kCodecErrors := kCodecErrors s2 + 1, ks_state := Closed\<rparr>)
             | Inr m \<Rightarrow>
                 if consumed = 0 then Some (delivered, s2\<lparr>ks_rx := rb_consume 0 (ks_rx s2)\<rparr>)
                 else
                   let s3 = s2\<lparr>ks_rx := rb_consume consumed (ks_rx s2)\<rparr> in
                   (case m of
                      None \<Rightarrow> drain_codec decode keys now delivered s3
                    | Some frame \<Rightarrow>
                        if frame \<noteq> []
                        then drain_codec decode keys now (delivered + 1)
                               (s3\<lparr>ks_messages := ks_messages s3 @ [frame], kFramesDecoded := kFramesDecoded s3 + 1\<rparr>)
                        else drain_codec decode keys now delivered s3)))"
  by pat_completeness auto
termination
  by (relation "measure (\<lambda>(decode, keys, now, delivered, s). rb_readable (ks_rx s))")
    (auto simp: rb_consume_readable dest!: ks_flush_keeps(1))

declare drain_codec.simps [simp del]

definition kNoSinkDrainBytes :: nat where
  "kNoSinkDrainBytes = 4096"

text \<open>
  One poll. While the handshake is in progress the code runs \<open>drive_handshake_\<close>, which is a
  parameter here.
\<close>

definition poll_once ::
    "('c KStream \<Rightarrow> 'c KStream) \<Rightarrow> ('k, 'c) decoder \<Rightarrow> (nat \<Rightarrow> 'k) \<Rightarrow> u64 \<Rightarrow> 'c KStream \<Rightarrow> (nat \<times> 'c KStream) option" where
  "poll_once drive_handshake decode keys now s =
     (if ks_phase s \<noteq> HsEstablished then Some (0, drive_handshake s)
      else if ks_state s \<noteq> Established then Some (0, s)
      else if \<not> ks_has_sink s then
        let s = s\<lparr>ks_no_sink_warned := True\<rparr> in
        (case bs_recv (ks_fd s) (ks_recv_os s) kNoSinkDrainBytes of
           None \<Rightarrow> None
         | Some (Inl e, os) \<Rightarrow>
             Some (0, s\<lparr>ks_recv_os := os, ks_state := (if err_code e = Disconnected then Closed else ks_state s)\<rparr>)
         | Some (Inr _, os) \<Rightarrow> Some (0, s\<lparr>ks_recv_os := os\<rparr>))
      else
        case (if rb_readable (ks_rx s) > 0 then drain_codec decode keys now 0 s else Some (0, s)) of
          None \<Rightarrow> None
        | Some (preserved, s) \<Rightarrow>
            if ks_state s \<noteq> Established then Some (preserved, s)
            else
              let s = s\<lparr>ks_rx := rb_compact (ks_rx s)\<rparr> in
              if rb_writable_capacity (ks_rx s) = 0
              then Some (preserved, s\<lparr>kReasmOverflows := kReasmOverflows s + 1, ks_state := Closed\<rparr>)
              else
                (case bs_recv (ks_fd s) (ks_recv_os s) (rb_writable_capacity (ks_rx s)) of
                   None \<Rightarrow> None
                 | Some (Inl e, os) \<Rightarrow>
                     Some (preserved, s\<lparr>ks_recv_os := os, ks_state := (if err_code e = WouldBlock then ks_state s else Closed)\<rparr>)
                 | Some (Inr bs, os) \<Rightarrow>
                     let s = s\<lparr>ks_recv_os := os, ks_rx := rb_push (ks_rx s) bs, kBytesRecv := kBytesRecv s + of_nat (length bs)\<rparr> in
                     (case drain_codec decode keys now 0 s of
                        None \<Rightarrow> None
                      | Some (n, s) \<Rightarrow> Some (preserved + n, s))))"

section \<open>The decode loop computes the run\<close>

definition ks_ready :: "'c KStream \<Rightarrow> bool" where
  "ks_ready s \<longleftrightarrow> ks_attached s \<and> ks_state s = Established \<and> 0 \<le> ks_fd s \<and> rb_wf (ks_rx s) \<and>
     list_all patient (ks_send_os s)"

abbreviation budget :: "'c KStream \<Rightarrow> nat" where
  "budget s \<equiv> accepts (ks_send_os s)"

lemma ks_flush_ok:
  assumes "ks_ready s" "ob_wf out" "ob_len out \<le> budget s"
  shows "\<exists>s'. ks_flush now out s = Some s' \<and> ks_wire s' = ks_wire s @ ob_data out \<and> ks_ready s' \<and>
    budget s \<le> budget s' + ob_len out"
proof (cases "ob_len out > 0")
  case True
  have len: "length (ob_data out) = ob_len out" using assms(2) by (simp add: ob_data_def ob_wf_def)
  obtain os' where b: "bs_send (ks_fd s) (ks_send_os s) (ob_data out) = Some (Inr (ob_len out), ob_data out, os')"
      "list_all patient os'" "budget s \<le> accepts os' + ob_len out"
    using bs_send_returns [of "ks_send_os s" "ob_data out" "ks_fd s"] assms len by (auto simp: ks_ready_def)
  then show ?thesis using True assms(1) len by (simp add: ks_flush_def ks_send_defs ks_ready_def Let_def)
next
  case False
  then show ?thesis using assms(1) by (simp add: ks_flush_def ob_data_def)
qed

definition drained :: "'c KStream \<Rightarrow> 'c run \<Rightarrow> 'c KStream \<Rightarrow> bool" where
  "drained s q s' \<longleftrightarrow>
     ks_messages s' = ks_messages s @ run_msgs q \<and> ks_wire s' = ks_wire s @ run_resps q \<and>
     ks_nkeys s' = run_keys q \<and> ks_codec s' = run_codec q \<and>
     rb_wf (ks_rx s') \<and> rb_window (ks_rx s') = run_rest q \<and> length (rb_buf (ks_rx s')) = length (rb_buf (ks_rx s)) \<and>
     ks_state s' = (case run_end q of Waiting \<Rightarrow> Established | Failed e \<Rightarrow> Closed) \<and>
     ks_attached s' = ks_attached s \<and> ks_fd s' = ks_fd s \<and> ks_has_sink s' = ks_has_sink s \<and>
     ks_phase s' = ks_phase s \<and> ks_recv_os s' = ks_recv_os s \<and> list_all patient (ks_send_os s') \<and>
     kReasmOverflows s' = kReasmOverflows s \<and> budget s \<le> budget s' + length (run_resps q)"

text \<open>One productive iteration in front of a drained remainder.\<close>

lemma drained_step:
  assumes "drained s3 q3 s'"
    and "ks_messages s3 = ks_messages s @ ms" "ks_wire s3 = ks_wire s @ w"
    and "length (rb_buf (ks_rx s3)) = length (rb_buf (ks_rx s))"
    and "ks_attached s3 = ks_attached s" "ks_fd s3 = ks_fd s" "ks_has_sink s3 = ks_has_sink s"
    and "ks_phase s3 = ks_phase s" "ks_recv_os s3 = ks_recv_os s"
    and "kReasmOverflows s3 = kReasmOverflows s" "budget s \<le> budget s3 + length w"
  shows "drained s (q3\<lparr>run_msgs := ms @ run_msgs q3, run_resps := w @ run_resps q3\<rparr>) s'"
  using assms by (simp add: drained_def)

lemma drain_codec_unfold:
  assumes "rb_readable (ks_rx s) \<noteq> 0"
    and "decode (keys (ks_nkeys s)) (ks_codec s) (sv_make (rb_window (ks_rx s))) fresh_sink = (r, c, v, out)"
    and "ks_flush now out (s\<lparr>ks_codec := c, ks_nkeys := next_keys (ks_nkeys s) out\<rparr>) = Some s2"
  shows "drain_codec decode keys now d s =
    (case r of
       Inl e \<Rightarrow> Some (d, s2\<lparr>kCodecErrors := kCodecErrors s2 + 1, ks_state := Closed\<rparr>)
     | Inr m \<Rightarrow>
         if rb_readable (ks_rx s) - view_length v = 0 then Some (d, s2\<lparr>ks_rx := rb_consume 0 (ks_rx s2)\<rparr>)
         else drain_codec decode keys now (d + length (message_of m))
           (s2\<lparr>ks_rx := rb_consume (rb_readable (ks_rx s) - view_length v) (ks_rx s2),
               ks_messages := ks_messages s2 @ message_of m,
               kFramesDecoded := kFramesDecoded s2 + of_nat (length (message_of m))\<rparr>))"
  using assms by (subst drain_codec.simps) (simp add: Let_def message_of_def split: sum.split option.split)

context framing_codec begin

lemma run_first_response:
  assumes "decode (keys n) c (sv_make xs) fresh_sink = (r, c', v, out)" "xs \<noteq> []"
  shows "length (ob_data out) \<le> length (run_resps (codec_run decode keys n c xs))"
  using assms by (subst codec_run.simps) (auto simp: Let_def split: sum.split)

lemma drain_codec_run:
  assumes "ks_ready s" "length (run_resps q) \<le> budget s"
    and "q = codec_run decode keys (ks_nkeys s) (ks_codec s) (rb_window (ks_rx s))"
  shows "\<exists>s'. drain_codec decode keys now d s = Some (d + length (run_msgs q), s') \<and> drained s q s'"
  using assms
proof (induction "rb_readable (ks_rx s)" arbitrary: s q d rule: less_induct)
  case less
  let ?xs = "rb_window (ks_rx s)"
  have wf: "rb_wf (ks_rx s)" using less.prems(1) by (simp add: ks_ready_def)
  have len: "length ?xs = rb_readable (ks_rx s)" by (rule length_rb_window [OF wf])
  show ?case
  proof (cases "rb_readable (ks_rx s) = 0")
    case True
    then have "?xs = []" using len by simp
    then show ?thesis using True less.prems
      by (subst drain_codec.simps) (auto simp: drained_def codec_run_Nil ks_ready_def)
  next
    case False
    then have ne: "?xs \<noteq> []" using len by auto
    obtain r c v out where dec: "decode (keys (ks_nkeys s)) (ks_codec s) (sv_make ?xs) fresh_sink = (r, c, v, out)"
      using prod_cases4 by blast
    have o: "ob_wf out" using decode_out_wf [OF ob_make_wf dec] by simp
    then have ol: "length (ob_data out) = ob_len out" by (simp add: ob_wf_def ob_data_def)
    have bud: "ob_len out \<le> budget s"
      using run_first_response [of keys "ks_nkeys s" "ks_codec s", OF dec ne] less.prems(2,3) ol by simp
    define s1 where "s1 = s\<lparr>ks_codec := c, ks_nkeys := next_keys (ks_nkeys s) out\<rparr>"
    have "ks_ready s1" "ob_len out \<le> budget s1" using less.prems(1) bud by (simp_all add: s1_def ks_ready_def)
    from ks_flush_ok [OF this(1) o this(2), of now] obtain s2 where
      f: "ks_flush now out s1 = Some s2" "ks_wire s2 = ks_wire s1 @ ob_data out" "ks_ready s2" "budget s1 \<le> budget s2 + ob_len out"
      by blast
    note k = ks_flush_keeps [OF f(1)]
    note dc = drain_codec_unfold [of s decode keys, OF False dec f(1) [unfolded s1_def], of d]
    show ?thesis
    proof (cases r)
      case (Inl e)
      have q: "q = \<lparr>run_msgs = [], run_resps = ob_data out, run_keys = next_keys (ks_nkeys s) out, run_codec = c, run_rest = ?xs, run_end = Failed e\<rparr>"
        using less.prems(3) codec_run_fail [of decode keys "ks_nkeys s" "ks_codec s", OF dec [unfolded Inl] ne] by simp
      show ?thesis using dc k f(2,3,4) wf ol by (simp add: Inl q drained_def s1_def ks_ready_def)
    next
      case m: (Inr m)
      show ?thesis
      proof (cases "view_length v < length ?xs")
        case nlt: False
        have "view_length v \<le> length ?xs" using decode_length [OF sv_make_wf dec] by simp
        then have vl: "view_length v = length ?xs" using nlt by simp
        note idle = decode_idle [OF dec [unfolded m] vl]
        have q: "q = \<lparr>run_msgs = [], run_resps = [], run_keys = ks_nkeys s, run_codec = ks_codec s, run_rest = ?xs, run_end = Waiting\<rparr>"
          using less.prems(3) codec_run_wait [of decode keys "ks_nkeys s" "ks_codec s", OF dec [unfolded m] ne] vl
          by (simp add: idle fresh_sink_data)
        have "ob_len out = 0" by (simp add: idle ob_make_def)
        then show ?thesis using dc k f(2,3,4) wf rbq.pop_window [OF wf, of 0] rbq.pop_cap [of 0 "ks_rx s"] vl len less.prems(1)
          by (simp add: m q drained_def s1_def ks_ready_def idle fresh_sink_data)
      next
        case lt: True
        let ?k = "rb_readable (ks_rx s) - view_length v"
        have kpos: "0 < ?k" using lt len by simp
        define s3 where "s3 = s2\<lparr>ks_rx := rb_consume ?k (ks_rx s2), ks_messages := ks_messages s2 @ message_of m,
          kFramesDecoded := kFramesDecoded s2 + of_nat (length (message_of m))\<rparr>"
        have w3: "rb_wf (ks_rx s3)" "rb_window (ks_rx s3) = drop ?k ?xs" "length (rb_buf (ks_rx s3)) = length (rb_buf (ks_rx s))"
          using rbq.pop_window [OF wf, of ?k] rbq.pop_cap [of ?k "ks_rx s"] k(1) by (simp_all add: s3_def s1_def)
        have r3: "rb_readable (ks_rx s3) = view_length v"
          using length_rb_window [OF w3(1)] w3(2) lt len by simp
        have rd3: "ks_ready s3" using f(3) w3(1) by (simp add: s3_def ks_ready_def)
        have lt3: "rb_readable (ks_rx s3) < rb_readable (ks_rx s)" using r3 lt len by simp
        have b3: "budget s \<le> budget s3 + length (ob_data out)" using f(4) ol by (simp add: s3_def s1_def)
        define q3 where "q3 = codec_run decode keys (ks_nkeys s3) (ks_codec s3) (rb_window (ks_rx s3))"
        have sel: "ks_nkeys s3 = next_keys (ks_nkeys s) out" "ks_codec s3 = c" using k by (simp_all add: s3_def s1_def)
        have q: "q = q3\<lparr>run_msgs := message_of m @ run_msgs q3, run_resps := ob_data out @ run_resps q3\<rparr>"
          using less.prems(3) codec_run_step [of decode keys "ks_nkeys s" "ks_codec s", OF dec [unfolded m] lt] w3(2) len
          by (simp add: q3_def sel Let_def)
        have bud3: "length (run_resps q3) \<le> budget s3" using b3 less.prems(2) by (simp add: q)
        obtain s' where s': "drain_codec decode keys now (d + length (message_of m)) s3 =
            Some (d + length (message_of m) + length (run_msgs q3), s')" "drained s3 q3 s'"
          using less.hyps [OF lt3 rd3 bud3 q3_def, of "d + length (message_of m)"] by blast
        have "drained s q s'" unfolding q
          by (rule drained_step [OF s'(2)])
            (use k f(2) b3 w3 in \<open>simp_all add: s3_def s1_def\<close>)
        then show ?thesis using s'(1) dc kpos m by (simp add: q s3_def add.assoc)
      qed
    qed
  qed
qed

end

section \<open>Polling\<close>

fun polls ::
    "('c KStream \<Rightarrow> 'c KStream) \<Rightarrow> ('k, 'c) decoder \<Rightarrow> (nat \<Rightarrow> 'k) \<Rightarrow> u64 \<Rightarrow> nat \<Rightarrow> 'c KStream \<Rightarrow> (nat \<times> 'c KStream) option" where
  "polls drive decode keys now 0 s = Some (0, s)"
| "polls drive decode keys now (Suc k) s =
     (case poll_once drive decode keys now s of
        None \<Rightarrow> None
      | Some (n, s) \<Rightarrow> (case polls drive decode keys now k s of None \<Rightarrow> None | Some (m, s) \<Rightarrow> Some (n + m, s)))"

text \<open>
  What the operating system promises of the reads: a read for which there is room, beside the unfinished
  frame \<open>w\<close> in a receive buffer of \<open>cap\<close> bytes, returns at least one byte and at most that room. The
  total is not bounded.
\<close>

fun reads_ok :: "('k, 'c) decoder \<Rightarrow> (nat \<Rightarrow> 'k) \<Rightarrow> nat \<Rightarrow> 'c \<Rightarrow> bytes \<Rightarrow> nat \<Rightarrow> bytes list \<Rightarrow> bool" where
  "reads_ok decode keys n c w cap [] \<longleftrightarrow> True"
| "reads_ok decode keys n c w cap (bs # chunks) \<longleftrightarrow> (length w < cap \<longrightarrow>
     bs \<noteq> [] \<and> length w + length bs \<le> cap \<and>
     (let q = codec_run decode keys n c (w @ bs) in
      run_end q = Waiting \<longrightarrow> reads_ok decode keys (run_keys q) (run_codec q) (run_rest q) cap chunks))"

text \<open>A stream between two polls: everything decodable has been decoded.\<close>

definition ks_idle :: "('k, 'c) decoder \<Rightarrow> (nat \<Rightarrow> 'k) \<Rightarrow> 'c KStream \<Rightarrow> bool" where
  "ks_idle decode keys s \<longleftrightarrow> ks_ready s \<and> ks_phase s = HsEstablished \<and> ks_has_sink s \<and>
     codec_run decode keys (ks_nkeys s) (ks_codec s) (rb_window (ks_rx s)) =
       \<lparr>run_msgs = [], run_resps = [], run_keys = ks_nkeys s, run_codec = ks_codec s,
        run_rest = rb_window (ks_rx s), run_end = Waiting\<rparr>"

text \<open>What polling shows of a run: the deliveries, the responses, and how it ended, \<open>full\<close> meaning with a full buffer.\<close>

definition polled :: "'c KStream \<Rightarrow> 'c run \<Rightarrow> bool \<Rightarrow> 'c KStream \<Rightarrow> bool" where
  "polled s q full s' \<longleftrightarrow>
     ks_messages s' = ks_messages s @ run_msgs q \<and> ks_wire s' = ks_wire s @ run_resps q \<and>
     ks_state s' = (if full then Closed else case run_end q of Waiting \<Rightarrow> Established | Failed e \<Rightarrow> Closed) \<and>
     kReasmOverflows s' = kReasmOverflows s + (if full then 1 else 0)"

lemma polls_closed:
  "ks_phase s = HsEstablished \<Longrightarrow> ks_state s = Closed \<Longrightarrow> polls drive decode keys now k s = Some (0, s)"
  by (induction k) (simp_all add: poll_once_def)

context framing_codec begin

lemma drain_idle:
  assumes "ks_idle decode keys s"
  shows "\<exists>s1. drain_codec decode keys now 0 s = Some (0, s1) \<and> ks_idle decode keys s1 \<and>
    rb_window (ks_rx s1) = rb_window (ks_rx s) \<and> length (rb_buf (ks_rx s1)) = length (rb_buf (ks_rx s)) \<and>
    ks_messages s1 = ks_messages s \<and> ks_wire s1 = ks_wire s \<and> ks_nkeys s1 = ks_nkeys s \<and> ks_codec s1 = ks_codec s \<and>
    ks_recv_os s1 = ks_recv_os s \<and> kReasmOverflows s1 = kReasmOverflows s \<and> budget s \<le> budget s1"
proof -
  have r: "ks_ready s" using assms by (simp add: ks_idle_def)
  obtain s1 where s1: "drain_codec decode keys now 0 s = Some (0, s1)"
    "drained s \<lparr>run_msgs = [], run_resps = [], run_keys = ks_nkeys s, run_codec = ks_codec s,
        run_rest = rb_window (ks_rx s), run_end = Waiting\<rparr> s1"
    using drain_codec_run [OF r _ refl, of keys now 0] assms by (auto simp: ks_idle_def)
  then show ?thesis using assms by (auto simp: drained_def ks_idle_def ks_ready_def)
qed

lemma poll_once_full:
  assumes idle: "ks_idle decode keys s" and full: "length (rb_window (ks_rx s)) = length (rb_buf (ks_rx s))"
  shows "\<exists>s'. poll_once drive decode keys now s = Some (0, s') \<and> ks_phase s' = HsEstablished \<and> ks_state s' = Closed \<and>
    ks_messages s' = ks_messages s \<and> ks_wire s' = ks_wire s \<and> kReasmOverflows s' = kReasmOverflows s + 1"
proof -
  from drain_idle [OF idle, of now] obtain s1 where
    d1: "(if rb_readable (ks_rx s) > 0 then drain_codec decode keys now 0 s else Some (0, s)) = Some (0, s1)"
    and i1: "ks_idle decode keys s1" and w1: "rb_window (ks_rx s1) = rb_window (ks_rx s)"
      "length (rb_buf (ks_rx s1)) = length (rb_buf (ks_rx s))"
      "ks_messages s1 = ks_messages s" "ks_wire s1 = ks_wire s" "kReasmOverflows s1 = kReasmOverflows s"
    using idle by (cases "rb_readable (ks_rx s) > 0") auto
  have wf1: "rb_wf (ks_rx s1)" and st1: "ks_state s1 = Established" "ks_phase s1 = HsEstablished"
    using i1 by (auto simp: ks_idle_def ks_ready_def)
  have z: "rb_writable_capacity (rb_compact (ks_rx s1)) = 0" using rbq.tidy_room [OF wf1] w1 full by simp
  have phase: "ks_phase s = HsEstablished" "ks_state s = Established" "ks_has_sink s" using idle by (auto simp: ks_idle_def ks_ready_def)
  show ?thesis using phase st1 z w1 by (simp add: poll_once_def d1 Let_def)
qed

lemma poll_once_chunk:
  assumes idle: "ks_idle decode keys s" and os: "ks_recv_os s = Received bs # os" and ne: "bs \<noteq> []"
    and cap: "length (rb_window (ks_rx s)) + length bs \<le> length (rb_buf (ks_rx s))"
    and q: "q = codec_run decode keys (ks_nkeys s) (ks_codec s) (rb_window (ks_rx s) @ bs)"
    and bud: "length (run_resps q) \<le> budget s"
  shows "\<exists>s'. poll_once drive decode keys now s = Some (length (run_msgs q), s') \<and> polled s q False s' \<and>
    ks_phase s' = HsEstablished \<and> ks_recv_os s' = os \<and>
    (run_end q = Waiting \<longrightarrow> ks_idle decode keys s' \<and> ks_nkeys s' = run_keys q \<and> ks_codec s' = run_codec q \<and>
       rb_window (ks_rx s') = run_rest q \<and> length (rb_buf (ks_rx s')) = length (rb_buf (ks_rx s)) \<and>
       budget s \<le> budget s' + length (run_resps q))"
proof -
  have wf: "rb_wf (ks_rx s)" and fd: "\<not> ks_fd s < 0" using idle by (auto simp: ks_idle_def ks_ready_def)
  from drain_idle [OF idle, of now] obtain s1 where
    d1: "(if rb_readable (ks_rx s) > 0 then drain_codec decode keys now 0 s else Some (0, s)) = Some (0, s1)"
    and i1: "ks_idle decode keys s1" and w1: "rb_window (ks_rx s1) = rb_window (ks_rx s)"
    and e1: "length (rb_buf (ks_rx s1)) = length (rb_buf (ks_rx s))"
      "ks_messages s1 = ks_messages s" "ks_wire s1 = ks_wire s" "ks_nkeys s1 = ks_nkeys s" "ks_codec s1 = ks_codec s"
      "ks_recv_os s1 = ks_recv_os s" "budget s \<le> budget s1" "kReasmOverflows s1 = kReasmOverflows s"
    using idle by (cases "rb_readable (ks_rx s) > 0") auto
  have wf1: "rb_wf (ks_rx s1)" and st1: "ks_state s1 = Established" "\<not> ks_fd s1 < 0" "ks_phase s1 = HsEstablished" "ks_has_sink s1"
    using i1 by (auto simp: ks_idle_def ks_ready_def)
  let ?rx = "rb_compact (ks_rx s1)"
  have room: "length bs \<le> rb_writable_capacity ?rx" using rbq.tidy_room [OF wf1] w1 e1(1) cap by simp
  have cap1: "length (rb_window (ks_rx s1)) + length bs \<le> length (rb_buf (ks_rx s1))" using cap w1 e1(1) by simp
  have roompos: "rb_writable_capacity ?rx \<noteq> 0" using room ne by (cases bs) auto
  define s2 where "s2 = s1\<lparr>ks_recv_os := os, ks_rx := rb_push ?rx bs, kBytesRecv := kBytesRecv s1 + of_nat (length bs)\<rparr>"
  note p2 = rbq.push_tidy [OF wf1 cap1]
  have rd2: "ks_ready s2" using i1 p2 by (simp add: s2_def ks_idle_def ks_ready_def)
  have w2: "rb_window (ks_rx s2) = rb_window (ks_rx s) @ bs" "length (rb_buf (ks_rx s2)) = length (rb_buf (ks_rx s))"
    using p2 w1 e1 by (simp_all add: s2_def)
  have b2: "budget s \<le> budget s2" using e1(7) by (simp add: s2_def)
  have "length (run_resps q) \<le> budget s2" using bud b2 by simp
  moreover have q2: "q = codec_run decode keys (ks_nkeys s2) (ks_codec s2) (rb_window (ks_rx s2))"
    using q w2(1) e1 by (simp add: s2_def)
  ultimately obtain s' where s': "drain_codec decode keys now 0 s2 = Some (length (run_msgs q), s')" "drained s2 q s'"
    using drain_codec_run [OF rd2, of q keys now 0] by auto
  have phase: "ks_phase s = HsEstablished" "ks_state s = Established" "ks_has_sink s" using idle by (auto simp: ks_idle_def ks_ready_def)
  have "poll_once drive decode keys now s = Some (length (run_msgs q), s')"
    using phase st1 roompos room os e1(6) ne s'(1)
    by (simp add: poll_once_def d1 Let_def bs_recv_def s2_def)
  moreover have "polled s q False s'" using s'(2) e1 by (simp add: drained_def polled_def s2_def)
  moreover have "ks_phase s' = HsEstablished" "ks_recv_os s' = os"
    using s'(2) st1 by (simp_all add: drained_def s2_def)
  moreover have "ks_idle decode keys s'" if "run_end q = Waiting"
    using s'(2) that i1 rd2 run_rest_idle [OF q [symmetric] that] st1
    by (simp add: drained_def ks_idle_def ks_ready_def s2_def)
  moreover have "budget s \<le> budget s' + length (run_resps q)" using s'(2) b2 by (simp add: drained_def)
  ultimately show ?thesis using s'(2) w2(2) by (auto simp: drained_def)
qed

lemma polls_chunks:
  assumes "ks_idle decode keys s" "ks_recv_os s = map Received chunks"
    and "reads_ok decode keys (ks_nkeys s) (ks_codec s) (rb_window (ks_rx s)) (length (rb_buf (ks_rx s))) chunks"
    and "length (run_resps (codec_run decode keys (ks_nkeys s) (ks_codec s) (rb_window (ks_rx s) @ concat chunks))) \<le> budget s"
  shows "\<exists>k q s'. k \<le> length chunks \<and>
    q = codec_run decode keys (ks_nkeys s) (ks_codec s) (rb_window (ks_rx s) @ concat (take k chunks)) \<and>
    polls drive decode keys now (length chunks) s = Some (length (run_msgs q), s') \<and> polled s q (k < length chunks) s' \<and>
    (k < length chunks \<longrightarrow> run_end q = Waiting \<and> length (run_rest q) = length (rb_buf (ks_rx s)))"
  using assms
proof (induction chunks arbitrary: s)
  case Nil
  then show ?case by (auto simp: ks_idle_def polled_def ks_ready_def)
next
  case (Cons bs chunks)
  let ?run = "codec_run decode keys (ks_nkeys s) (ks_codec s)" and ?w = "rb_window (ks_rx s)"
  have wf: "rb_wf (ks_rx s)" using Cons.prems(1) by (simp add: ks_idle_def ks_ready_def)
  define q1 where "q1 = ?run (?w @ bs)"
  have join: "?run (?w @ bs @ ys) = (case run_end q1 of
        Waiting \<Rightarrow> run_join q1 (codec_run decode keys (run_keys q1) (run_codec q1) (run_rest q1 @ ys))
      | Failed e \<Rightarrow> q1\<lparr>run_rest := run_rest q1 @ ys\<rparr>)" for ys
    using run_append [of keys "ks_nkeys s" "ks_codec s" "?w @ bs" ys] unfolding q1_def Let_def append_assoc .
  show ?case
  proof (cases "length ?w < length (rb_buf (ks_rx s))")
    case False
    then have full: "length ?w = length (rb_buf (ks_rx s))"
      using length_rb_window [OF wf] wf unfolding rb_wf_def rb_readable_def by linarith
    from poll_once_full [OF Cons.prems(1) full, of drive now] obtain s1 where
      p: "poll_once drive decode keys now s = Some (0, s1)" "ks_phase s1 = HsEstablished" "ks_state s1 = Closed"
        "ks_messages s1 = ks_messages s" "ks_wire s1 = ks_wire s" "kReasmOverflows s1 = kReasmOverflows s + 1" by blast
    have "?run ?w = \<lparr>run_msgs = [], run_resps = [], run_keys = ks_nkeys s, run_codec = ks_codec s, run_rest = ?w, run_end = Waiting\<rparr>"
      using Cons.prems(1) by (simp add: ks_idle_def)
    then show ?thesis using p polls_closed [OF p(2,3), of drive decode keys now "length chunks"] full by (intro exI [of _ 0]) (simp add: polled_def)
  next
    case True
    then have fit: "bs \<noteq> []" "length ?w + length bs \<le> length (rb_buf (ks_rx s))" using Cons.prems(3) by (simp_all add: Let_def)
    have b1: "length (run_resps q1) \<le> budget s"
      using Cons.prems(4) join [of "concat chunks"] by (cases "run_end q1") (simp_all add: run_join_def)
    from poll_once_chunk [OF Cons.prems(1) _ fit q1_def b1, of "map Received chunks" drive now] Cons.prems(2)
    obtain s1 where p1: "poll_once drive decode keys now s = Some (length (run_msgs q1), s1)" "polled s q1 False s1"
        "ks_phase s1 = HsEstablished" "ks_recv_os s1 = map Received chunks"
      and w1: "run_end q1 = Waiting \<Longrightarrow> ks_idle decode keys s1 \<and> ks_nkeys s1 = run_keys q1 \<and> ks_codec s1 = run_codec q1 \<and>
         rb_window (ks_rx s1) = run_rest q1 \<and> length (rb_buf (ks_rx s1)) = length (rb_buf (ks_rx s)) \<and>
         budget s \<le> budget s1 + length (run_resps q1)"
      by auto
    show ?thesis
    proof (cases "run_end q1")
      case Waiting
      note w = w1 [OF Waiting]
      let ?run1 = "codec_run decode keys (ks_nkeys s1) (ks_codec s1)" and ?w1 = "rb_window (ks_rx s1)"
      have j: "?run (?w @ bs @ ys) = run_join q1 (?run1 (?w1 @ ys))" for ys using join [of ys] Waiting w by simp
      have "length (run_resps (?run1 (?w1 @ concat chunks))) \<le> budget s1"
        using w j [of "concat chunks"] Cons.prems(4) by (simp add: run_join_def)
      moreover have "reads_ok decode keys (ks_nkeys s1) (ks_codec s1) ?w1 (length (rb_buf (ks_rx s1))) chunks"
        using Cons.prems(3) True w Waiting by (simp add: Let_def flip: q1_def)
      ultimately obtain k q2 s' where
        p: "k \<le> length chunks" "q2 = ?run1 (?w1 @ concat (take k chunks))"
          "polls drive decode keys now (length chunks) s1 = Some (length (run_msgs q2), s')" "polled s1 q2 (k < length chunks) s'"
          "k < length chunks \<longrightarrow> run_end q2 = Waiting \<and> length (run_rest q2) = length (rb_buf (ks_rx s1))"
        using Cons.IH [of s1] w p1(4) by blast
      have "?run (?w @ concat (take (Suc k) (bs # chunks))) = run_join q1 q2" using j p(2) by simp
      then show ?thesis using p1 p w Waiting
        by (intro exI [of _ "Suc k"] exI [of _ "run_join q1 q2"] exI [of _ s']) (simp add: polled_def run_join_def)
    next
      case (Failed e)
      then have "ks_state s1 = Closed" using p1(2) by (simp add: polled_def)
      from polls_closed [OF p1(3) this, of drive decode keys now "length chunks"] p1 join [of "concat chunks"] Failed
      show ?thesis by (intro exI [of _ "Suc (length chunks)"]) (simp add: polled_def)
    qed
  qed
qed

lemma strict_prefix_waits:
  assumes "decode (keys n) c (sv_make (xs @ ys)) fresh_sink = (Inr (Some m), c', trim_front l (sv_make (xs @ ys)), out)"
    and "length xs < l" "l \<le> length (xs @ ys)"
  shows "codec_run decode keys n c xs =
    \<lparr>run_msgs = [], run_resps = [], run_keys = n, run_codec = c, run_rest = xs, run_end = Waiting\<rparr>"
proof (cases "xs = []")
  case ne: False
  obtain r c1 v o1 where d: "decode (keys n) c (sv_make xs) fresh_sink = (r, c1, v, o1)" using prod_cases4 by blast
  have le: "view_length v \<le> length xs" using decode_length [OF sv_make_wf d] by simp
  have "\<not> (r \<noteq> Inr None \<or> view_length v < view_length (sv_make xs))"
  proof
    assume "r \<noteq> Inr None \<or> view_length v < view_length (sv_make xs)"
    from decode_stable [OF sv_make_wf sv_make_wf [of "xs @ ys"] _ d this] assms(1)
    have "trim_front l (sv_make (xs @ ys)) = trim_front (length xs - view_length v) (sv_make (xs @ ys))" by simp
    from arg_cong [OF this, of view_length] show False using assms(2,3) by simp
  qed
  then have r: "r = Inr None" "view_length v = length xs" using le by simp_all
  from decode_need_more [OF sv_make_wf d [unfolded r(1)]] r(2) have "c1 = c" "o1 = fresh_sink" by simp_all
  then show ?thesis using codec_run_wait [of decode keys n c, OF d [unfolded r(1)] ne] r(2) by (simp add: fresh_sink_data)
qed (simp add: codec_run_Nil)

end

text \<open>A concrete stream for the evaluations below.\<close>

definition ks_fresh :: "'c \<Rightarrow> nat \<Rightarrow> send_answer list \<Rightarrow> recv_answer list \<Rightarrow> 'c KStream" where
  "ks_fresh c cap sos ros = \<lparr>ks_attached = True, ks_state = Established, ks_phase = HsEstablished, ks_fd = 3, ks_codec = c,
     ks_rx = rb_make cap, ks_has_sink = True, ks_no_sink_warned = False, ks_in_flight = default_InFlightDetail,
     kBytesSent = 0, kBytesRecv = 0, kFramesDecoded = 0, kCodecErrors = 0, kReasmOverflows = 0,
     ks_send_os = sos, ks_recv_os = ros, ks_wire = [], ks_messages = [], ks_nkeys = 0\<rparr>"

lemma ks_fresh_ready: "list_all patient sos \<Longrightarrow> ks_ready (ks_fresh c cap sos ros)"
  by (simp add: ks_ready_def ks_fresh_def rb_make_wf)


section \<open>Closing\<close>

datatype shutdown_answer = ShutOk | ShutEnotconn | ShutEother

text \<open>
  \<open>close_gracefully\<close>; \<open>encode_close\<close> is present exactly for codecs that have the member (the
  \<open>requires\<close> test), here applied to the size of the scratch buffer and the status code.
\<close>

definition close_gracefully ::
    "(nat \<Rightarrow> u16 \<Rightarrow> (ErrorInfo, bytes) expected) option \<Rightarrow> u64 \<Rightarrow> shutdown_answer \<Rightarrow> 'c KStream \<Rightarrow>
     ((ErrorInfo, unit) expected \<times> 'c KStream) option" where
  "close_gracefully encode_close now sd s =
     (case (case encode_close of
              None \<Rightarrow> Some s
            | Some enc \<Rightarrow>
                if ks_state s = Established
                then (case enc 16 kNormal of
                        Inl e \<Rightarrow> Some s
                      | Inr close_buf \<Rightarrow> map_option snd (ks_send now close_buf s))
                else Some s) of
        None \<Rightarrow> None
      | Some s \<Rightarrow>
          if ks_fd s < 0 then Some (Inr (), s\<lparr>ks_state := Closed\<rparr>)
          else
            (case sd of
               ShutEnotconn \<Rightarrow> Some (Inr (), s\<lparr>ks_state := FinWait1\<rparr>)
             | ShutEother \<Rightarrow>
                 Some (Inl (ErrorInfo Disconnected ''KernelTcpStream::close_gracefully: shutdown(SHUT_WR) failed''), s)
             | ShutOk \<Rightarrow> Some (Inr (), s\<lparr>ks_state := FinWait1\<rparr>)))"

text \<open>
  A graceful close of an established WebSocket stream puts one Close frame on the wire, which the
  peer decodes as status 1000 with no reason; the stream then refuses to send, whatever the caller tries.
\<close>

theorem close_gracefully_says_goodbye:
  assumes "ks_ready s" "length key = 4" "16 \<le> accepts (ks_send_os s)"
  shows "\<exists>s' w f. close_gracefully (Some (\<lambda>cap code. ws_encode_close key cap code [])) now ShutOk s = Some (Inr (), s') \<and>
    ks_wire s' = ks_wire s @ w \<and> decode_frame w False = Inr f \<and> is_close f \<and> close_status_code f = kNormal \<and>
    close_reason_unmasked f = [] \<and> df_total_len f = length w \<and> ks_state s' = FinWait1 \<and>
    (\<forall>t d. \<exists>e s''. ks_send t d s' = Some (Inl e, s'') \<and> err_code e = Disconnected \<and> ks_wire s'' = ks_wire s')"
proof -
  define p :: bytes where "p = [ucast (drop_bit 8 kNormal), ucast (kNormal AND 0xFF)]"
  let ?w = "build_close_frame key kNormal []"
  have s: "sendable kClose p True" by (auto simp: sendable_def p_def)
  have w: "?w = encode_frame key kClose p True" by (simp add: build_close_frame_def p_def Let_def)
  have len: "length ?w = 8"
    unfolding w length_encode_frame [OF s assms(2)] by (simp add: p_def total_frame_size_def frame_header_size_def SIZE_MAX_def)
  then have ne: "?w \<noteq> []" by auto
  have enc: "ws_encode_close key 16 kNormal [] = Inr ?w"
    using ne by (simp add: ws_encode_close_def kMaxFrameHeaderLen_def Let_def)
  obtain f where f: "decode_frame ?w False = Inr f" "is_close f" "close_status_code f = kNormal" "close_reason_unmasked f = []"
      "df_total_len f = length ?w"
    using build_close_frame_decodes [OF assms(2), of kNormal "[]" "[]"] by auto
  have r: "ks_fd s \<ge> 0" "list_all patient (ks_send_os s)" "ks_attached s" "ks_state s = Established"
    using assms(1) by (auto simp: ks_ready_def)
  obtain os' where b: "bs_send (ks_fd s) (ks_send_os s) ?w = Some (Inr 8, ?w, os')"
    using bs_send_returns [of "ks_send_os s" ?w "ks_fd s"] r len assms(3) by auto
  show ?thesis
    using f b r len by (auto simp: close_gracefully_def enc ks_send_defs Let_def)
qed

section \<open>What a failed send reports\<close>

lemma bs_send_fails_anywhere:
  "k < length d \<Longrightarrow> 0 \<le> fd \<Longrightarrow> \<exists>os e. bs_send fd os d = Some (Inl e, take k d, [])"
  by (rule exI [of _ "(if k = 0 then [] else [Accepted k]) @ [SendEpipe]"]) (auto simp: bs_send_def)

text \<open>
  C38. What a plaintext send leaves behind, for every behaviour of the kernel. When it succeeds the whole
  payload went out and was counted, and the in-flight record is untouched. When it fails a proper prefix
  went out, nothing was counted, and the record says \<open>Unsent\<close> with no confirmed byte, whatever the
  length of that prefix; and every length shorter than the payload can occur. So the record does not tell
  the caller that part of the payload may be on the wire.
\<close>

theorem failed_send_reported_unsent:
  assumes "ks_attached s" "ks_state s = Established" "0 \<le> ks_fd s"
  shows "(\<forall>r s'. ks_send now payload s = Some (r, s') \<longrightarrow>
      (case r of
         Inr n \<Rightarrow> n = length payload \<and> ks_wire s' = ks_wire s @ payload \<and> kBytesSent s' = kBytesSent s + of_nat n \<and>
           ks_in_flight s' = ks_in_flight s
       | Inl e \<Rightarrow> (\<exists>k<length payload. ks_wire s' = ks_wire s @ take k payload) \<and> kBytesSent s' = kBytesSent s \<and>
           ifd_status (ks_in_flight s') = Unsent \<and> bytes_confirmed (ks_in_flight s') = 0)) \<and>
    (\<forall>k<length payload. \<exists>os e s'. ks_send now payload (s\<lparr>ks_send_os := os\<rparr>) = Some (Inl e, s') \<and>
      ks_wire s' = ks_wire s @ take k payload)"
proof (intro conjI allI impI)
  fix r s' assume a: "ks_send now payload s = Some (r, s')"
  then obtain sr wire os where b: "bs_send (ks_fd s) (ks_send_os s) payload = Some (sr, wire, os)"
    using assms by (auto simp: ks_send_defs split: option.splits)
  have "(\<exists>k. wire = take k payload) \<and>
      (case sr of Inr n \<Rightarrow> n = length payload \<and> wire = payload | Inl e \<Rightarrow> length wire < length payload)"
    using b assms(3) bs_send_loop_prefix [of "ks_send_os s" payload "[]" sr wire os]
    by (auto simp: bs_send_def split: if_splits sum.splits)
  moreover from this have "\<exists>k<length payload. wire = take k payload" if "sr = Inl e" for e
    using that by (auto intro!: exI [of _ "length wire"])
  ultimately show "case r of
         Inr n \<Rightarrow> n = length payload \<and> ks_wire s' = ks_wire s @ payload \<and> kBytesSent s' = kBytesSent s + of_nat n \<and>
           ks_in_flight s' = ks_in_flight s
       | Inl e \<Rightarrow> (\<exists>k<length payload. ks_wire s' = ks_wire s @ take k payload) \<and> kBytesSent s' = kBytesSent s \<and>
           ifd_status (ks_in_flight s') = Unsent \<and> bytes_confirmed (ks_in_flight s') = 0"
    using a b assms by (auto simp: ks_send_defs Let_def set_in_flight_detail_def split: sum.splits if_splits)
next
  fix k assume "k < length payload"
  from bs_send_fails_anywhere [OF this assms(3)] obtain os e where "bs_send (ks_fd s) os payload = Some (Inl e, take k payload, [])" by blast
  then show "\<exists>os e s'. ks_send now payload (s\<lparr>ks_send_os := os\<rparr>) = Some (Inl e, s') \<and> ks_wire s' = ks_wire s @ take k payload"
    using assms by (intro exI [of _ os]) (auto simp: ks_send_defs Let_def)
qed

theorem failed_send_reported_unsent_witness:
  "\<exists>e s'. ks_send 7 [1, 2, 3] (ks_fresh () 64 [SendEintr, Accepted 2, SendEpipe] []) = Some (Inl e, s') \<and> ks_wire s' = [1, 2] \<and>
    ifd_status (ks_in_flight s') = Unsent \<and> bytes_confirmed (ks_in_flight s') = 0"
proof -
  let ?s = "ks_fresh () 64 [SendEintr, Accepted 2, SendEpipe] []"
  have s: "ks_attached ?s" "ks_state ?s = Established" "0 \<le> ks_fd ?s" by (simp_all add: ks_fresh_def)
  obtain e s' where r: "ks_send 7 [1, 2, 3] ?s = Some (Inl e, s')" "ks_wire s' = [1, 2]"
    by (auto simp: ks_send_defs bs_send_def ks_fresh_def Let_def)
  from failed_send_reported_unsent [OF s, of 7 "[1, 2, 3]", THEN conjunct1, THEN spec, THEN spec, THEN mp, OF r(1)] r
  show ?thesis by auto
qed

section \<open>A WebSocket peer\<close>

type_synonym ws_message = "bytes \<times> u8 \<times> bytes"

definition ws_message_ok :: "nat \<Rightarrow> ws_message \<Rightarrow> bool" where
  "ws_message_ok limit m = (case m of (key, op, payload) \<Rightarrow>
     length key = 4 \<and> length payload \<le> limit \<and> length payload < 2 ^ 63 \<and> op \<in> {kBinary, kText})"

definition ws_wire_of :: "ws_message list \<Rightarrow> bytes" where
  "ws_wire_of ms = concat (map (\<lambda>(key, op, payload). encode_frame key op payload True) ms)"

definition ws_payloads :: "ws_message list \<Rightarrow> bytes list" where
  "ws_payloads ms = filter (\<lambda>p. p \<noteq> []) (map (\<lambda>(key, op, payload). payload) ms)"

lemma ws_run_frames:
  assumes "list_all (ws_message_ok (max_message_size (ws_cfg c))) ms"
  shows "\<exists>c'. codec_run (ws_decode zl) keys n c (ws_wire_of ms) =
    \<lparr>run_msgs = ws_payloads ms, run_resps = [], run_keys = n, run_codec = c', run_rest = [], run_end = Waiting\<rparr>"
  using assms
proof (induction ms arbitrary: c)
  case Nil
  show ?case by (simp add: codec_run_Nil ws_wire_of_def ws_payloads_def)
next
  case (Cons m ms)
  obtain key op payload where m: "m = (key, op, payload)" by (cases m)
  let ?w = "encode_frame key op payload True"
  have ok: "length key = 4" "length payload \<le> max_message_size (ws_cfg c)" "length payload < 2 ^ 63" "op \<in> {kBinary, kText}"
    using Cons.prems by (auto simp: m ws_message_ok_def)
  have v: "view_wf (sv_make (?w @ ws_wire_of ms))" "view_data (sv_make (?w @ ws_wire_of ms)) = ?w @ ws_wire_of ms"
    by simp_all
  obtain buf where d: "ws_decode zl (keys n) c (sv_make (?w @ ws_wire_of ms)) fresh_sink =
     (Inr (Some payload), c\<lparr>frag_opcode := 0, compressed_msg := False, frag_buf := buf\<rparr>,
      trim_front (length ?w) (sv_make (?w @ ws_wire_of ms)), fresh_sink)"
    using ws_decode_data_frame [OF ok v, of zl "keys n" fresh_sink] by blast
  let ?c = "c\<lparr>frag_opcode := 0, compressed_msg := False, frag_buf := buf\<rparr>"
  have "list_all (ws_message_ok (max_message_size (ws_cfg ?c))) ms" using Cons.prems by simp
  from Cons.IH [OF this] obtain c' where
    r: "codec_run (ws_decode zl) keys n ?c (ws_wire_of ms) =
      \<lparr>run_msgs = ws_payloads ms, run_resps = [], run_keys = n, run_codec = c', run_rest = [], run_end = Waiting\<rparr>" by blast
  have ne: "?w \<noteq> []"
    using encode_frame_not_Nil [of op payload True key] ok by (auto simp: sendable_def)
  have w: "ws_wire_of (m # ms) = ?w @ ws_wire_of ms" by (simp add: ws_wire_of_def m)
  have vl: "view_length (trim_front (length ?w) (sv_make (?w @ ws_wire_of ms))) = length (ws_wire_of ms)"
    by simp
  have "codec_run (ws_decode zl) keys n c (?w @ ws_wire_of ms) =
      \<lparr>run_msgs = message_of (Some payload) @ ws_payloads ms, run_resps = [], run_keys = n, run_codec = c', run_rest = [], run_end = Waiting\<rparr>"
    using codec_run_step [of "ws_decode zl" keys n c, OF d] ne r by (simp add: vl fresh_sink_data Let_def)
  then show ?case unfolding w by (auto simp: m ws_payloads_def message_of_def)
qed

text \<open>
  A prefix of the wire image of some messages decodes to the first of them and waits with a proper part of
  the next frame, or with nothing.
\<close>

lemma ws_run_prefix:
  assumes "list_all (ws_message_ok (max_message_size (ws_cfg c))) ms" "xs @ ys = ws_wire_of ms"
  shows "\<exists>ms1 ms2 c' r. ms = ms1 @ ms2 \<and> r @ ys = ws_wire_of ms2 \<and> ws_cfg c' = ws_cfg c \<and>
    (r = [] \<or> (\<exists>m\<in>set ms2. length r < length (ws_wire_of [m]))) \<and>
    codec_run (ws_decode zl) keys n c xs =
      \<lparr>run_msgs = ws_payloads ms1, run_resps = [], run_keys = n, run_codec = c', run_rest = r, run_end = Waiting\<rparr>"
  using assms
proof (induction ms arbitrary: c xs)
  case Nil
  then show ?case by (auto simp: codec_run_Nil ws_wire_of_def ws_payloads_def)
next
  case (Cons m ms)
  obtain key op payload where m: "m = (key, op, payload)" by (cases m)
  let ?w = "encode_frame key op payload True"
  have ok: "length key = 4" "length payload \<le> max_message_size (ws_cfg c)" "length payload < 2 ^ 63" "op \<in> {kBinary, kText}"
    using Cons.prems by (auto simp: m ws_message_ok_def)
  have w: "ws_wire_of (m # ms) = ?w @ ws_wire_of ms" "ws_wire_of [m] = ?w" by (simp_all add: ws_wire_of_def m)
  have ne: "?w \<noteq> []" using encode_frame_not_Nil [of op payload True key] ok by (auto simp: sendable_def)
  note d = ws_decode_data_frame [OF ok sv_make_wf, of _ _ zl "keys n" fresh_sink]
  show ?case
  proof (cases "length ?w \<le> length xs")
    case True
    have x: "xs = ?w @ drop (length ?w) xs" "drop (length ?w) xs @ ys = ws_wire_of ms"
    proof -
      have "take (length ?w) (xs @ ys) = ?w" "drop (length ?w) (xs @ ys) = ws_wire_of ms" using Cons.prems(2) w(1) by simp_all
      then show "xs = ?w @ drop (length ?w) xs" "drop (length ?w) xs @ ys = ws_wire_of ms"
        using True append_take_drop_id [of "length ?w" xs] by simp_all
    qed
    define x where "x = drop (length ?w) xs"
    note x = x [folded x_def]
    obtain buf where e: "ws_decode zl (keys n) c (sv_make (?w @ x)) fresh_sink =
        (Inr (Some payload), c\<lparr>frag_opcode := 0, compressed_msg := False, frag_buf := buf\<rparr>, trim_front (length ?w) (sv_make (?w @ x)), fresh_sink)"
      using d [of "?w @ x" x] by auto
    let ?c = "c\<lparr>frag_opcode := 0, compressed_msg := False, frag_buf := buf\<rparr>"
    have "list_all (ws_message_ok (max_message_size (ws_cfg ?c))) ms" using Cons.prems(1) by simp
    moreover have cfg: "ws_cfg ?c = ws_cfg c" by simp
    ultimately obtain ms1 ms2 c' r where
      i: "ms = ms1 @ ms2" "r @ ys = ws_wire_of ms2" "ws_cfg c' = ws_cfg c" "r = [] \<or> (\<exists>m\<in>set ms2. length r < length (ws_wire_of [m]))"
        "codec_run (ws_decode zl) keys n ?c x =
          \<lparr>run_msgs = ws_payloads ms1, run_resps = [], run_keys = n, run_codec = c', run_rest = r, run_end = Waiting\<rparr>"
      using Cons.IH [OF _ x(2), of ?c] unfolding cfg by blast
    have "codec_run (ws_decode zl) keys n c xs =
        \<lparr>run_msgs = message_of (Some payload) @ ws_payloads ms1, run_resps = [], run_keys = n, run_codec = c', run_rest = r, run_end = Waiting\<rparr>"
      unfolding x(1) using codec_run_step [of "ws_decode zl" keys n c, OF e] ne i(5) by (simp add: fresh_sink_data Let_def)
    then show ?thesis using i(1-4) by (intro exI [of _ "m # ms1"] exI [of _ ms2]) (simp add: m ws_payloads_def message_of_def)
  next
    case False
    obtain buf where e: "ws_decode zl (keys n) c (sv_make (xs @ ys)) fresh_sink =
        (Inr (Some payload), c\<lparr>frag_opcode := 0, compressed_msg := False, frag_buf := buf\<rparr>, trim_front (length ?w) (sv_make (xs @ ys)), fresh_sink)"
      using d [of "xs @ ys" "ws_wire_of ms"] Cons.prems(2) w(1) by auto
    have "length ?w \<le> length (xs @ ys)" using Cons.prems(2) w(1) by simp
    from wsc.strict_prefix_waits [of zl keys n c, OF e _ this] False
    have "codec_run (ws_decode zl) keys n c xs =
        \<lparr>run_msgs = [], run_resps = [], run_keys = n, run_codec = c, run_rest = xs, run_end = Waiting\<rparr>" by simp
    then show ?thesis using Cons.prems(2) False w(2)
      by (intro exI [of _ "[]"] exI [of _ "m # ms"] exI [of _ c] exI [of _ xs]) (simp add: ws_payloads_def)
  qed
qed

text \<open>While every frame is no longer than the buffer, the unfinished one never fills it.\<close>

lemma ws_never_full:
  assumes "list_all (ws_message_ok (max_message_size (ws_cfg c))) ms" "\<forall>m\<in>set ms. length (ws_wire_of [m]) \<le> cap" "0 < cap"
    and "xs @ ys = ws_wire_of ms"
  shows "length (run_rest (codec_run (ws_decode zl) keys n c xs)) < cap"
proof -
  obtain ms1 ms2 c' r where p: "ms = ms1 @ ms2" "r = [] \<or> (\<exists>m\<in>set ms2. length r < length (ws_wire_of [m]))"
    "codec_run (ws_decode zl) keys n c xs =
       \<lparr>run_msgs = ws_payloads ms1, run_resps = [], run_keys = n, run_codec = c', run_rest = r, run_end = Waiting\<rparr>"
    using ws_run_prefix [OF assms(1,4), of zl keys n] by blast
  then show ?thesis using assms(2,3) by (auto intro: less_le_trans)
qed

text \<open>Reads that are short enough to fit beside any one frame keep the promise.\<close>

lemma ws_reads_ok:
  assumes "list_all (ws_message_ok (max_message_size (ws_cfg c))) ms" "w @ concat chunks = ws_wire_of ms"
    and "\<forall>bs\<in>set chunks. bs \<noteq> []" "\<forall>m\<in>set ms. \<forall>bs\<in>set chunks. length (ws_wire_of [m]) + length bs \<le> cap"
    and "w = [] \<or> (\<exists>m\<in>set ms. length w < length (ws_wire_of [m]))"
  shows "reads_ok (ws_decode zl) keys n c w cap chunks"
  using assms
proof (induction chunks arbitrary: ms c w)
  case (Cons bs chunks)
  have "ms \<noteq> []" using Cons.prems(2,3) by (auto simp: ws_wire_of_def)
  then obtain m0 where "m0 \<in> set ms" by (cases ms) auto
  then have "\<exists>m\<in>set ms. length w \<le> length (ws_wire_of [m])" using Cons.prems(5) by (auto intro: less_imp_le)
  then have fit: "length w + length bs \<le> cap" using Cons.prems(4) by fastforce
  have "(w @ bs) @ concat chunks = ws_wire_of ms" using Cons.prems(2) by simp
  from ws_run_prefix [OF Cons.prems(1) this, of zl keys n] obtain ms1 ms2 c' r where
    p: "ms = ms1 @ ms2" "r @ concat chunks = ws_wire_of ms2" "ws_cfg c' = ws_cfg c"
      "r = [] \<or> (\<exists>m\<in>set ms2. length r < length (ws_wire_of [m]))"
      "codec_run (ws_decode zl) keys n c (w @ bs) =
        \<lparr>run_msgs = ws_payloads ms1, run_resps = [], run_keys = n, run_codec = c', run_rest = r, run_end = Waiting\<rparr>" by blast
  have "list_all (ws_message_ok (max_message_size (ws_cfg c'))) ms2" using Cons.prems(1) p(1,3) by simp
  from Cons.IH [OF this p(2) _ _ p(4)] Cons.prems(3,4) p(1)
  have "reads_ok (ws_decode zl) keys n c' r cap chunks" by simp
  then show ?case using fit Cons.prems(3) p(5) by simp
qed simp

end
