(* ===== verification/Ring_Buffer.thy ===== *)
theory Ring_Buffer
  imports Eph_Prelude
begin

text \<open>
  Power-of-two rings with free-running 64-bit indices, and the tick history
  \<^verbatim>\<open>eph-containers/include/eph/containers/ring_buffer.hpp\<close>. The index lemmas are shared with the
  queues: a slot is \<open>index & (Capacity - 1)\<close>, which is the index modulo the capacity even after the
  index has wrapped around.
\<close>

section \<open>Slots\<close>

definition ring_slot :: "u64 \<Rightarrow> u64 \<Rightarrow> nat" where
  "ring_slot Capacity i = unat (i AND (Capacity - 1))"

text \<open>The \<open>static_assert\<close>: the capacity is a power of two.\<close>

definition pow2 :: "u64 \<Rightarrow> bool" where
  "pow2 Capacity \<longleftrightarrow> (\<exists>k < 64. Capacity = 2 ^ k)"

lemma unat_exp64: "k < 64 \<Longrightarrow> unat ((2 :: u64) ^ k) = 2 ^ k"
proof -
  assume "k < 64"
  then have "(2 :: nat) ^ k < 2 ^ 64" by (intro power_strict_increasing) auto
  moreover have "unat (of_nat n :: u64) = n" if "n < 2 ^ 64" for n using that by (simp add: unat_of_nat)
  ultimately have "unat (of_nat (2 ^ k) :: u64) = 2 ^ k" by blast
  then show ?thesis by simp
qed

lemma pow2_unat: "pow2 C \<Longrightarrow> \<exists>k < 64. unat C = 2 ^ k"
  using unat_exp64 by (auto simp: pow2_def)

lemma pow2_pos [simp]: "pow2 C \<Longrightarrow> 0 < unat C"
  by (auto dest!: pow2_unat)

lemma pow2_dvd: "pow2 C \<Longrightarrow> unat C dvd 2 ^ 64"
proof -
  assume "pow2 C"
  then obtain k where k: "k < 64" "unat C = 2 ^ k" by (auto dest: pow2_unat)
  have "(2 :: nat) ^ k dvd 2 ^ 64" by (rule le_imp_power_dvd) (use k in simp)
  then show ?thesis unfolding k(2) .
qed

lemma pow2_le: "pow2 C \<Longrightarrow> unat C \<le> 2 ^ 63"
proof -
  assume "pow2 C"
  then obtain k where "k < 64" "unat C = 2 ^ k" by (auto dest: pow2_unat)
  moreover from this have "(2::nat) ^ k \<le> 2 ^ 63" by (intro power_increasing) auto
  ultimately show ?thesis by simp
qed

lemma ring_slot_mod: "pow2 C \<Longrightarrow> ring_slot C i = unat i mod unat C"
proof -
  assume "pow2 C"
  then obtain k where k: "k < 64" "C = 2 ^ k" by (auto simp: pow2_def)
  have "i AND (C - 1) = take_bit k i" by (simp add: k take_bit_eq_mask mask_eq_exp_minus_1)
  then have "ring_slot C i = take_bit k (unat i)" using k(1) by (simp only: ring_slot_def unsigned_take_bit_eq)
  then show ?thesis using k by (simp add: take_bit_eq_mod unat_exp64)
qed

lemma ring_slot_less [simp]: "pow2 C \<Longrightarrow> ring_slot C i < unat C"
  by (simp add: ring_slot_mod)

lemma ring_slot_add:
  assumes "pow2 C"
  shows "ring_slot C (i + of_nat n) = (unat i + n) mod unat C"
proof -
  have "unat (i + of_nat n) = (unat i + n) mod 2 ^ 64"
    by (simp add: unat_word_ariths unat_of_nat mod_add_right_eq)
  then show ?thesis using pow2_dvd [OF assms] by (simp add: ring_slot_mod [OF assms] mod_mod_cancel)
qed

lemma mod_less_eq_iff:
  assumes "i < C" "j < C"
  shows "(h + i) mod C = (h + j) mod C \<longleftrightarrow> i = (j :: nat)"
proof -
  have "i = j" if "(h + i) mod C = (h + j) mod C" "i \<le> j" "j < C" for i j :: nat
  proof -
    have "C dvd (h + j) - (h + i)" using mod_eq_dvd_iff_nat [of "h + i" "h + j" C] that by simp
    then have "C dvd j - i" by simp
    with that show ?thesis by (metis diff_is_0_eq diff_le_self dvd_imp_le le_less_trans less_le_not_le not_gr_zero order_antisym_conv)
  qed
  with assms show ?thesis by (metis linear)
qed

lemma unat_diff_of_nat [simp]: "n < 2 ^ 64 \<Longrightarrow> unat ((h :: u64) + of_nat n - h) = n"
  by (simp add: unat_of_nat)

lemma of_nat_unat_diff: "(h :: u64) + of_nat (unat (t - h)) = t"
  by simp

section \<open>The tick history\<close>

record 'a RingBuffer =
  rg_data :: "'a list"
  rg_head :: u64
  rg_count :: u64

definition mk_RingBuffer :: "u64 \<Rightarrow> 'a \<Rightarrow> 'a RingBuffer" where
  "mk_RingBuffer Capacity d = \<lparr>rg_data = replicate (unat Capacity) d, rg_head = 0, rg_count = 0\<rparr>"

definition rg_push :: "u64 \<Rightarrow> 'a \<Rightarrow> 'a RingBuffer \<Rightarrow> 'a RingBuffer" where
  "rg_push Capacity item r =
     (let h = rg_head r;
          r = r\<lparr>rg_data := (rg_data r)[ring_slot Capacity h := item], rg_head := h + 1\<rparr>;
          c = rg_count r in
      if c < Capacity then r\<lparr>rg_count := c + 1\<rparr> else r)"

definition rg_at :: "u64 \<Rightarrow> u64 \<Rightarrow> 'a RingBuffer \<Rightarrow> 'a option" where
  "rg_at Capacity offset r =
     (let h = rg_head r; c = rg_count r in
      if offset \<ge> c then None
      else Some (rg_data r ! ring_slot Capacity (h - 1 - offset)))"

definition rg_front :: "u64 \<Rightarrow> 'a RingBuffer \<Rightarrow> 'a option" where
  "rg_front Capacity r = rg_at Capacity 0 r"

definition rg_back :: "u64 \<Rightarrow> 'a RingBuffer \<Rightarrow> 'a option" where
  "rg_back Capacity r =
     (let h = rg_head r; c = rg_count r in
      if c = 0 then None
      else Some (rg_data r ! ring_slot Capacity (h - 1 - (c - 1))))"

definition rg_full :: "u64 \<Rightarrow> 'a RingBuffer \<Rightarrow> bool" where
  "rg_full Capacity r = (rg_count r = Capacity)"

definition rg_empty :: "'a RingBuffer \<Rightarrow> bool" where
  "rg_empty r = (rg_count r = 0)"

definition rg_clear :: "'a RingBuffer \<Rightarrow> 'a RingBuffer" where
  "rg_clear r = r\<lparr>rg_head := 0, rg_count := 0\<rparr>"

definition rg_wf :: "u64 \<Rightarrow> 'a RingBuffer \<Rightarrow> bool" where
  "rg_wf C r \<longleftrightarrow> pow2 C \<and> length (rg_data r) = unat C \<and> rg_count r \<le> C"

text \<open>The elements held, newest first.\<close>

definition rg_recent :: "u64 \<Rightarrow> 'a RingBuffer \<Rightarrow> 'a list" where
  "rg_recent C r = map (\<lambda>i. rg_data r ! ring_slot C (rg_head r - 1 - of_nat i)) [0..<unat (rg_count r)]"

lemma ring_slot_back:
  assumes "pow2 C" "0 < i" "i \<le> unat C - 1"
  shows "ring_slot C (h - of_nat i) \<noteq> ring_slot C h"
proof -
  let ?g = "h - of_nat i"
  have "ring_slot C h = (unat ?g + i) mod unat C" using ring_slot_add [OF assms(1), of ?g i] by simp
  moreover have "ring_slot C ?g = (unat ?g + 0) mod unat C" by (simp add: ring_slot_mod [OF assms(1)])
  moreover have "(unat ?g + i) mod unat C = (unat ?g + 0) mod unat C \<longleftrightarrow> i = 0"
    by (rule mod_less_eq_iff) (use assms pow2_pos [OF assms(1)] in linarith)+
  ultimately show ?thesis using assms(2) by simp
qed

lemma rg_push_recent:
  assumes "rg_wf C r"
  shows "rg_wf C (rg_push C x r)" "rg_recent C (rg_push C x r) = take (unat C) (x # rg_recent C r)"
proof -
  have C: "pow2 C" "length (rg_data r) = unat C" "rg_count r \<le> C" using assms by (auto simp: rg_wf_def)
  have s: "unat (rg_count r + 1) = unat (rg_count r) + 1" if "rg_count r < C"
  proof -
    have "unat (rg_count r) + 1 < 2 ^ 64" using that pow2_le [OF C(1)] by (simp add: word_less_nat_alt)
    then show ?thesis by (simp add: unat_word_ariths)
  qed
  have le: "unat (rg_count r) \<le> unat C" using C(3) by (simp add: word_le_nat_alt)
  show "rg_wf C (rg_push C x r)"
    using C s by (auto simp: rg_wf_def rg_push_def Let_def word_less_nat_alt word_le_nat_alt)
  define d where "d = (rg_data r)[ring_slot C (rg_head r) := x]"
  have old: "d ! ring_slot C (rg_head r - of_nat i) = (if i = 0 then x else rg_data r ! ring_slot C (rg_head r - 1 - of_nat (i - 1)))"
    if "i < unat C" for i
  proof (cases i)
    case (Suc j)
    then have "i \<le> unat C - 1" using that by linarith
    from ring_slot_back [OF C(1) _ this, of "rg_head r"] Suc show ?thesis
      by (auto simp: d_def diff_diff_eq nth_list_update_neq)
  qed (use C in \<open>simp add: d_def\<close>)
  have m: "map (\<lambda>i. d ! ring_slot C (rg_head r - of_nat i)) [0..<n] =
      take n (x # map (\<lambda>i. rg_data r ! ring_slot C (rg_head r - 1 - of_nat i)) [0..<unat (rg_count r)])"
    if "n \<le> unat C" "n \<le> Suc (unat (rg_count r))" for n
  proof (rule nth_equalityI)
    fix i assume "i < length (map (\<lambda>i. d ! ring_slot C (rg_head r - of_nat i)) [0..<n])"
    then show "map (\<lambda>i. d ! ring_slot C (rg_head r - of_nat i)) [0..<n] ! i =
        take n (x # map (\<lambda>i. rg_data r ! ring_slot C (rg_head r - 1 - of_nat i)) [0..<unat (rg_count r)]) ! i"
      using that old [of i] by (cases i) auto
  qed (use that in auto)
  show "rg_recent C (rg_push C x r) = take (unat C) (x # rg_recent C r)"
  proof (cases "rg_count r < C")
    case True
    then have "unat (rg_count r) + 1 \<le> unat C" by (simp add: word_less_nat_alt)
    then show ?thesis using m [of "unat (rg_count r) + 1"] s [OF True] True
      by (simp add: rg_recent_def rg_push_def d_def Let_def)
  next
    case False
    then have "rg_count r = C" using C(3) by simp
    then show ?thesis using m [of "unat C"] False
      by (simp add: rg_recent_def rg_push_def d_def Let_def)
  qed
qed

fun rg_push_all :: "u64 \<Rightarrow> 'a list \<Rightarrow> 'a RingBuffer \<Rightarrow> 'a RingBuffer" where
  "rg_push_all C [] r = r"
| "rg_push_all C (x # xs) r = rg_push_all C xs (rg_push C x r)"

lemma rg_push_all_recent:
  "rg_wf C r \<Longrightarrow> rg_wf C (rg_push_all C xs r) \<and> rg_recent C (rg_push_all C xs r) = take (unat C) (rev xs @ rg_recent C r)"
proof (induction xs arbitrary: r)
  case Nil
  then show ?case by (simp add: rg_recent_def rg_wf_def word_le_nat_alt)
next
  case (Cons x xs)
  from Cons.IH [OF rg_push_recent(1) [OF Cons.prems]] rg_push_recent(2) [OF Cons.prems, of x]
  show ?case by (auto simp: take_append min_def)
qed

lemma rg_at_recent:
  assumes "rg_wf C r"
  shows "rg_at C off r = (if unat off < length (rg_recent C r) then Some (rg_recent C r ! unat off) else None)"
  by (auto simp: rg_at_def rg_recent_def Let_def word_le_nat_alt not_less)

text \<open>
  C19. Looking back into the history: after any pushes, even once the 64-bit write index has wrapped
  around, \<open>at(i)\<close> is the element pushed \<open>i\<close> pushes ago as long as \<open>i\<close> is below both the capacity and
  the number of elements seen, and nothing otherwise; \<open>front\<close> is the newest and \<open>back\<close> the oldest held.
\<close>

theorem ring_buffer_lookback:
  assumes "rg_wf C r"
    and h_def: "h = take (unat C) (rev xs @ rg_recent C r)"
  shows "rg_at C off (rg_push_all C xs r) = (if unat off < length h then Some (h ! unat off) else None) \<and>
    rg_front C (rg_push_all C xs r) = (if h = [] then None else Some (hd h)) \<and>
    rg_back C (rg_push_all C xs r) = (if h = [] then None else Some (last h)) \<and>
    unat (rg_count (rg_push_all C xs r)) = length h"
proof -
  let ?r = "rg_push_all C xs r"
  have r: "rg_wf C ?r" "rg_recent C ?r = h" using rg_push_all_recent [OF assms(1)] by (auto simp: h_def)
  have n: "unat (rg_count ?r) = length h" using r(2) by (auto simp: rg_recent_def)
  have b: "rg_back C ?r = (if h = [] then None else rg_at C (rg_count ?r - 1) ?r)"
    using n by (auto simp: rg_back_def rg_at_def Let_def word_le_nat_alt unat_eq_0)
      (metis length_0_conv unat_0 unat_minus_one diff_less leD zero_less_one word_gt_0 unat_gt_0)
  have c: "unat (rg_count ?r - 1) = length h - 1" if "h \<noteq> []"
    using n that by (metis One_nat_def length_0_conv unat_0 unat_minus_one)
  show ?thesis
    using rg_at_recent [OF r(1)] r(2) n b c
    by (auto simp: rg_front_def hd_conv_nth last_conv_nth)
qed

theorem ring_buffer_lookback_witness:
  "rg_at 4 3 (rg_push_all 4 [1, 2, 3, 4, 5 :: nat] \<lparr>rg_data = [0, 0, 0, 0], rg_head = - 2, rg_count = 0\<rparr>) = Some 2"
proof -
  let ?r = "\<lparr>rg_data = [0, 0, 0, 0 :: nat], rg_head = - 2, rg_count = 0\<rparr>"
  have "pow2 4" by (auto simp: pow2_def intro: exI [of _ 2])
  then have "rg_wf 4 ?r" by (simp add: rg_wf_def)
  from ring_buffer_lookback [OF this refl, of 3 "[1, 2, 3, 4, 5]"] show ?thesis by (simp add: rg_recent_def)
qed

end
