(* ===== verification/Bounded_Queue.thy ===== *)
theory Bounded_Queue
  imports Ring_Buffer
begin

text \<open>
  The single-producer single-consumer queue of
  \<^verbatim>\<open>eph-containers/include/eph/containers/bounded_queue.hpp\<close> (\<open>BoundedQueue\<close>): the non-blocking
  operations as functions, the blocking and timed ones as retry loops against an environment, and the
  protocol between the two threads as a step relation with one shared-memory access per step. The
  locale \<open>bounded_fifo\<close> states what a client relies on.
\<close>

section \<open>What a bounded queue promises\<close>

datatype 'a queue_op = Push 'a | Push_n "'a list" | Pop | Pop_n nat

text \<open>What a caller of an operation, and of a sequence of them, observes.\<close>

datatype 'a queue_result = Stored bool | Taken "'a list"

type_synonym ('a, 'q) queue_api =
  "('a \<Rightarrow> 'q \<Rightarrow> bool \<times> 'q) \<times> ('a list \<Rightarrow> 'q \<Rightarrow> bool \<times> 'q) \<times> ('q \<Rightarrow> 'a option \<times> 'q) \<times> (nat \<Rightarrow> 'q \<Rightarrow> 'a list \<times> 'q)"

fun apply_op :: "('a, 'q) queue_api \<Rightarrow> 'a queue_op \<Rightarrow> 'q \<Rightarrow> 'a queue_result \<times> 'q" where
  "apply_op (push, push_n, pop, pop_n) (Push x) q = (let (ok, q) = push x q in (Stored ok, q))"
| "apply_op (push, push_n, pop, pop_n) (Push_n xs) q = (let (ok, q) = push_n xs q in (Stored ok, q))"
| "apply_op (push, push_n, pop, pop_n) Pop q = (let (r, q) = pop q in (Taken (case r of None \<Rightarrow> [] | Some x \<Rightarrow> [x]), q))"
| "apply_op (push, push_n, pop, pop_n) (Pop_n n) q = (let (xs, q) = pop_n n q in (Taken xs, q))"

fun apply_ops :: "('a, 'q) queue_api \<Rightarrow> 'a queue_op list \<Rightarrow> 'q \<Rightarrow> 'a queue_result list \<times> 'q" where
  "apply_ops api [] q = ([], q)"
| "apply_ops api (p # ps) q = (let (r, q) = apply_op api p q; (rs, q) = apply_ops api ps q in (r # rs, q))"

text \<open>
  The abstract bounded queue: a list of at most \<open>cap\<close> elements. A push is accepted exactly when it fits,
  a batch entirely or not at all; a pop takes the front element exactly when there is one. A batched pop
  takes a front segment of at most \<open>n\<close> elements, which is empty only if \<open>n\<close> is zero or the queue is empty
  (it may be shorter than what is held: the reader works from its copy of the writer's index).
\<close>

fun fifo_allows :: "nat \<Rightarrow> 'a queue_op \<Rightarrow> 'a list \<Rightarrow> 'a queue_result \<Rightarrow> bool" where
  "fifo_allows cap (Push x) xs r \<longleftrightarrow> r = Stored (length xs < cap)"
| "fifo_allows cap (Push_n ys) xs r \<longleftrightarrow> r = Stored (length xs + length ys \<le> cap)"
| "fifo_allows cap Pop xs r \<longleftrightarrow> r = Taken (take 1 xs)"
| "fifo_allows cap (Pop_n n) xs r \<longleftrightarrow>
     (case r of Stored ok \<Rightarrow> False
      | Taken ys \<Rightarrow> ys = take (length ys) xs \<and> length ys \<le> n \<and> (ys = [] \<longleftrightarrow> n = 0 \<or> xs = []))"

fun fifo_after :: "'a queue_op \<Rightarrow> 'a list \<Rightarrow> 'a queue_result \<Rightarrow> 'a list" where
  "fifo_after (Push x) xs (Stored ok) = (if ok then xs @ [x] else xs)"
| "fifo_after (Push_n ys) xs (Stored ok) = (if ok then xs @ ys else xs)"
| "fifo_after p xs (Taken ys) = drop (length ys) xs"
| "fifo_after p xs r = xs"

fun fifo_run :: "nat \<Rightarrow> 'a queue_op list \<Rightarrow> 'a list \<Rightarrow> 'a queue_result list \<Rightarrow> 'a list \<Rightarrow> bool" where
  "fifo_run cap [] xs [] zs \<longleftrightarrow> zs = xs"
| "fifo_run cap (p # ps) xs (r # rs) zs \<longleftrightarrow> fifo_allows cap p xs r \<and> fifo_run cap ps (fifo_after p xs r) rs zs"
| "fifo_run cap ps xs rs zs \<longleftrightarrow> False"

primrec op_size :: "'a queue_op \<Rightarrow> nat" where
  "op_size (Push x) = 1"
| "op_size (Push_n xs) = length xs"
| "op_size Pop = 1"
| "op_size (Pop_n n) = n"

locale bounded_fifo =
  fixes cap :: nat
    and inv :: "'q \<Rightarrow> bool"
    and contents :: "'q \<Rightarrow> 'a list"
    and push :: "'a \<Rightarrow> 'q \<Rightarrow> bool \<times> 'q"
    and push_n :: "'a list \<Rightarrow> 'q \<Rightarrow> bool \<times> 'q"
    and pop :: "'q \<Rightarrow> 'a option \<times> 'q"
    and pop_n :: "nat \<Rightarrow> 'q \<Rightarrow> 'a list \<times> 'q"
  assumes contents_cap: "inv q \<Longrightarrow> length (contents q) \<le> cap"
    and push_law: "inv q \<Longrightarrow> push x q = (ok, q') \<Longrightarrow>
      inv q' \<and> (ok \<longleftrightarrow> length (contents q) < cap) \<and> contents q' = contents q @ (if ok then [x] else [])"
    and push_n_law: "inv q \<Longrightarrow> length xs < 2 ^ 64 \<Longrightarrow> push_n xs q = (ok, q') \<Longrightarrow>
      inv q' \<and> (ok \<longleftrightarrow> length (contents q) + length xs \<le> cap) \<and> contents q' = contents q @ (if ok then xs else [])"
    and pop_law: "inv q \<Longrightarrow> pop q = (r, q') \<Longrightarrow>
      inv q' \<and> contents q = (case r of None \<Rightarrow> [] | Some x \<Rightarrow> [x]) @ contents q' \<and> (r = None \<longleftrightarrow> contents q = [])"
    and pop_n_law: "inv q \<Longrightarrow> n < 2 ^ 64 \<Longrightarrow> pop_n n q = (xs, q') \<Longrightarrow>
      inv q' \<and> contents q = xs @ contents q' \<and> length xs \<le> n \<and> (xs = [] \<longleftrightarrow> n = 0 \<or> contents q = [])"
begin

lemma apply_op_fifo:
  assumes "inv q" "op_size p < 2 ^ 64" "apply_op (push, push_n, pop, pop_n) p q = (r, q')"
  shows "inv q' \<and> fifo_allows cap p (contents q) r \<and> contents q' = fifo_after p (contents q) r"
proof (cases p)
  case (Push x)
  obtain ok q1 where "push x q = (ok, q1)" by (cases "push x q")
  then show ?thesis using assms Push push_law [of q x ok q1] by (auto simp: Let_def)
next
  case (Push_n xs)
  obtain ok q1 where "push_n xs q = (ok, q1)" by (cases "push_n xs q")
  then show ?thesis using assms Push_n push_n_law [of q xs ok q1] by (auto simp: Let_def)
next
  case Pop
  obtain o1 q1 where "pop q = (o1, q1)" by (cases "pop q")
  then show ?thesis using assms Pop pop_law [of q o1 q1] by (cases o1) (auto simp: Let_def)
next
  case (Pop_n n)
  obtain xs q1 where "pop_n n q = (xs, q1)" by (cases "pop_n n q")
  then show ?thesis using assms Pop_n pop_n_law [of q n xs q1] by (auto simp: Let_def)
qed

lemma apply_ops_fifo:
  assumes "inv q" "list_all (\<lambda>p. op_size p < 2 ^ 64) ps" "apply_ops (push, push_n, pop, pop_n) ps q = (rs, q')"
  shows "inv q' \<and> fifo_run cap ps (contents q) rs (contents q')"
  using assms
proof (induction ps arbitrary: q rs q')
  case (Cons p ps)
  obtain r q1 where a: "apply_op (push, push_n, pop, pop_n) p q = (r, q1)" using prod.exhaust by blast
  obtain rs2 q2 where b: "apply_ops (push, push_n, pop, pop_n) ps q1 = (rs2, q2)" using prod.exhaust by blast
  have e: "rs = r # rs2" "q' = q2" using Cons.prems(3) by (simp_all add: a b)
  have s: "op_size p < 2 ^ 64" "list_all (\<lambda>p. op_size p < 2 ^ 64) ps" using Cons.prems(2) by simp_all
  note c = apply_op_fifo [OF Cons.prems(1) s(1) a]
  from Cons.IH [OF _ s(2) b] c show ?case by (simp add: e)
qed simp

end

section \<open>State\<close>

record 'a BoundedQueue =
  bq_tail :: u64
  bq_shadow_head :: u64
  bq_head :: u64
  bq_shadow_tail :: u64
  bq_buffer :: "'a list"

definition mk_BoundedQueue :: "u64 \<Rightarrow> 'a \<Rightarrow> 'a BoundedQueue" where
  "mk_BoundedQueue Capacity d = \<lparr>bq_tail = 0, bq_shadow_head = 0, bq_head = 0, bq_shadow_tail = 0,
     bq_buffer = replicate (unat Capacity) d\<rparr>"

section \<open>Writer\<close>

definition try_produce :: "u64 \<Rightarrow> ('a \<Rightarrow> 'a) \<Rightarrow> ('a, 'x) BoundedQueue_scheme \<Rightarrow> bool \<times> ('a, 'x) BoundedQueue_scheme" where
  "try_produce Capacity writer_func q =
     (let tail = bq_tail q;
          (full, q) =
            (if tail - bq_shadow_head q \<ge> Capacity
             then (let head = bq_head q in (tail - head \<ge> Capacity, q\<lparr>bq_shadow_head := head\<rparr>))
             else (False, q)) in
      if full then (False, q)
      else
        let s = ring_slot Capacity tail in
        (True, q\<lparr>bq_buffer := (bq_buffer q)[s := writer_func (bq_buffer q ! s)], bq_tail := tail + 1\<rparr>))"

definition try_push :: "u64 \<Rightarrow> 'a \<Rightarrow> ('a, 'x) BoundedQueue_scheme \<Rightarrow> bool \<times> ('a, 'x) BoundedQueue_scheme" where
  "try_push Capacity data q = try_produce Capacity (\<lambda>slot. data) q"

definition try_emplace :: "u64 \<Rightarrow> 'a \<Rightarrow> ('a, 'x) BoundedQueue_scheme \<Rightarrow> bool \<times> ('a, 'x) BoundedQueue_scheme" where
  "try_emplace Capacity constructed q = try_produce Capacity (\<lambda>slot. constructed) q"

text \<open>The space check the batch writers share, and their loop over the slots.\<close>

definition bq_reserve :: "u64 \<Rightarrow> u64 \<Rightarrow> ('a, 'x) BoundedQueue_scheme \<Rightarrow> bool \<times> ('a, 'x) BoundedQueue_scheme" where
  "bq_reserve Capacity n q =
     (let tail = bq_tail q; available = Capacity - (tail - bq_shadow_head q) in
      if available < n
      then
        let head = bq_head q; available = Capacity - (tail - head) in
        (\<not> available < n, q\<lparr>bq_shadow_head := head\<rparr>)
      else (True, q))"

primrec write_n :: "u64 \<Rightarrow> (nat \<Rightarrow> 'a \<Rightarrow> 'a) \<Rightarrow> u64 \<Rightarrow> nat \<Rightarrow> 'a list \<Rightarrow> 'a list" where
  "write_n Capacity writer tail 0 buf = buf"
| "write_n Capacity writer tail (Suc i) buf =
     (let buf = write_n Capacity writer tail i buf; s = ring_slot Capacity (tail + of_nat i) in
      buf[s := writer i (buf ! s)])"

definition try_produce_n ::
    "u64 \<Rightarrow> nat \<Rightarrow> (nat \<Rightarrow> 'a \<Rightarrow> 'a) \<Rightarrow> ('a, 'x) BoundedQueue_scheme \<Rightarrow> bool \<times> ('a, 'x) BoundedQueue_scheme" where
  "try_produce_n Capacity n writer q =
     (if n = 0 then (True, q)
      else
        let tail = bq_tail q; (ok, q) = bq_reserve Capacity (of_nat n) q in
        if ok then (True, q\<lparr>bq_buffer := write_n Capacity writer tail n (bq_buffer q), bq_tail := tail + of_nat n\<rparr>)
        else (False, q))"

definition try_push_n :: "u64 \<Rightarrow> 'a list \<Rightarrow> ('a, 'x) BoundedQueue_scheme \<Rightarrow> bool \<times> ('a, 'x) BoundedQueue_scheme" where
  "try_push_n Capacity data q =
     (let n = length data in
      if n = 0 then (True, q)
      else
        let tail = bq_tail q; (ok, q) = bq_reserve Capacity (of_nat n) q in
        if ok then (True, q\<lparr>bq_buffer := write_n Capacity (\<lambda>i slot. data ! i) tail n (bq_buffer q), bq_tail := tail + of_nat n\<rparr>)
        else (False, q))"

section \<open>Reader\<close>

text \<open>A visitor receives the slot; the result is the slot's value.\<close>

definition bq_refresh :: "('a, 'x) BoundedQueue_scheme \<Rightarrow> bool \<times> ('a, 'x) BoundedQueue_scheme" where
  "bq_refresh q =
     (let head = bq_head q in
      if bq_shadow_tail q = head
      then (let tail = bq_tail q in (head \<noteq> tail, q\<lparr>bq_shadow_tail := tail\<rparr>))
      else (True, q))"

definition try_consume :: "u64 \<Rightarrow> ('a, 'x) BoundedQueue_scheme \<Rightarrow> 'a option \<times> ('a, 'x) BoundedQueue_scheme" where
  "try_consume Capacity q =
     (let head = bq_head q; (ok, q) = bq_refresh q in
      if ok then (Some (bq_buffer q ! ring_slot Capacity head), q\<lparr>bq_head := head + 1\<rparr>)
      else (None, q))"

definition try_peek :: "u64 \<Rightarrow> ('a, 'x) BoundedQueue_scheme \<Rightarrow> 'a option \<times> ('a, 'x) BoundedQueue_scheme" where
  "try_peek Capacity q =
     (let head = bq_head q; (ok, q) = bq_refresh q in
      if ok then (Some (bq_buffer q ! ring_slot Capacity head), q)
      else (None, q))"

definition try_pop :: "u64 \<Rightarrow> ('a, 'x) BoundedQueue_scheme \<Rightarrow> 'a option \<times> ('a, 'x) BoundedQueue_scheme" where
  "try_pop Capacity q = try_consume Capacity q"

definition try_consume_n :: "u64 \<Rightarrow> nat \<Rightarrow> ('a, 'x) BoundedQueue_scheme \<Rightarrow> 'a list \<times> ('a, 'x) BoundedQueue_scheme" where
  "try_consume_n Capacity n q =
     (if n = 0 then ([], q)
      else
        let head = bq_head q; available = bq_shadow_tail q - head;
            (available, q) =
              (if available = 0
               then (let tail = bq_tail q in (tail - head, q\<lparr>bq_shadow_tail := tail\<rparr>))
               else (available, q)) in
        if available = 0 then ([], q)
        else
          let count = (if available < of_nat n then available else of_nat n) in
          (map (\<lambda>i. bq_buffer q ! ring_slot Capacity (head + of_nat i)) [0..<unat count],
           q\<lparr>bq_head := head + count\<rparr>))"

definition try_pop_n :: "u64 \<Rightarrow> nat \<Rightarrow> ('a, 'x) BoundedQueue_scheme \<Rightarrow> 'a list \<times> ('a, 'x) BoundedQueue_scheme" where
  "try_pop_n Capacity max_n q = try_consume_n Capacity max_n q"

definition try_consume_all :: "u64 \<Rightarrow> ('a, 'x) BoundedQueue_scheme \<Rightarrow> 'a list \<times> ('a, 'x) BoundedQueue_scheme" where
  "try_consume_all Capacity q = try_consume_n Capacity (unat Capacity) q"

section \<open>Queries\<close>

definition bq_clear :: "('a, 'x) BoundedQueue_scheme \<Rightarrow> ('a, 'x) BoundedQueue_scheme" where
  "bq_clear q = (let tail = bq_tail q in q\<lparr>bq_head := tail, bq_shadow_head := tail, bq_shadow_tail := tail\<rparr>)"

definition bq_size :: "('a, 'x) BoundedQueue_scheme \<Rightarrow> u64" where
  "bq_size q = bq_tail q - bq_head q"

definition bq_empty :: "('a, 'x) BoundedQueue_scheme \<Rightarrow> bool" where
  "bq_empty q = (bq_size q = 0)"

definition bq_full :: "u64 \<Rightarrow> ('a, 'x) BoundedQueue_scheme \<Rightarrow> bool" where
  "bq_full Capacity q = (bq_size q \<ge> Capacity)"

definition available_write :: "u64 \<Rightarrow> ('a, 'x) BoundedQueue_scheme \<Rightarrow> u64" where
  "available_write Capacity q = (let used = bq_size q in if used < Capacity then Capacity - used else 0)"

definition available_read :: "('a, 'x) BoundedQueue_scheme \<Rightarrow> u64" where
  "available_read q = bq_size q"

record BoundedQueueStats =
  total_pushed :: u64
  total_popped :: u64
  current_size :: u64
  st_capacity :: u64

definition bq_stats :: "u64 \<Rightarrow> ('a, 'x) BoundedQueue_scheme \<Rightarrow> BoundedQueueStats" where
  "bq_stats Capacity q =
     (let tail = bq_tail q; head = bq_head q; size = (if tail \<ge> head then tail - head else 0) in
      \<lparr>total_pushed = tail, total_popped = head, current_size = min size Capacity, st_capacity = Capacity\<rparr>)"

definition stats_minus :: "BoundedQueueStats \<Rightarrow> BoundedQueueStats \<Rightarrow> BoundedQueueStats" where
  "stats_minus lhs rhs =
     \<lparr>total_pushed = (if total_pushed lhs \<ge> total_pushed rhs then total_pushed lhs - total_pushed rhs else 0),
      total_popped = (if total_popped lhs \<ge> total_popped rhs then total_popped lhs - total_popped rhs else 0),
      current_size = current_size lhs, st_capacity = st_capacity lhs\<rparr>"

section \<open>The queue is a bounded FIFO\<close>

definition bq_contents :: "u64 \<Rightarrow> ('a, 'x) BoundedQueue_scheme \<Rightarrow> 'a list" where
  "bq_contents C q = map (\<lambda>i. bq_buffer q ! ring_slot C (bq_head q + of_nat i)) [0..<unat (bq_tail q - bq_head q)]"

text \<open>\<open>shadow_head\<close> lags behind \<open>head\<close>, and \<open>shadow_tail\<close> lies between \<open>head\<close> and \<open>tail\<close>.\<close>

definition bq_inv :: "u64 \<Rightarrow> ('a, 'x) BoundedQueue_scheme \<Rightarrow> bool" where
  "bq_inv C q \<longleftrightarrow> pow2 C \<and> length (bq_buffer q) = unat C \<and>
     unat (bq_tail q - bq_head q) \<le> unat (bq_tail q - bq_shadow_head q) \<and>
     unat (bq_tail q - bq_shadow_head q) \<le> unat C \<and>
     unat (bq_shadow_tail q - bq_head q) \<le> unat (bq_tail q - bq_head q)"

lemma bq_contents_cong:
  "bq_buffer q' = bq_buffer q \<Longrightarrow> bq_head q' = bq_head q \<Longrightarrow> bq_tail q' = bq_tail q \<Longrightarrow> bq_contents C q' = bq_contents C q"
  by (simp add: bq_contents_def)

lemma unat_add_small: "unat (x :: u64) + n < 2 ^ 64 \<Longrightarrow> unat (x + of_nat n) = unat x + n"
proof -
  assume s: "unat x + n < 2 ^ 64"
  then have "unat (of_nat n :: u64) = n" by (simp add: unat_of_nat)
  with s unat_add_lem [of x "of_nat n"] show ?thesis by simp
qed

lemma unat_sub_small: "n \<le> unat (x :: u64) \<Longrightarrow> unat (x - of_nat n) = unat x - n"
proof -
  assume n: "n \<le> unat x"
  then have "unat (of_nat n :: u64) = n" by (rule le_unat_uoi)
  moreover from this n have "of_nat n \<le> x" by (simp add: word_le_nat_alt)
  ultimately show ?thesis by (simp add: unat_sub)
qed

lemma bq_inv_len: "bq_inv C q \<Longrightarrow> length (bq_contents C q) \<le> unat C"
  by (simp add: bq_inv_def bq_contents_def)

lemma length_bq_contents: "length (bq_contents C q) = unat (bq_tail q - bq_head q)"
  by (simp add: bq_contents_def)

lemma slots_distinct:
  assumes "pow2 C" "i < unat C" "j < unat C"
  shows "ring_slot C (h + of_nat i) = ring_slot C (h + of_nat j) \<longleftrightarrow> i = j"
  using mod_less_eq_iff [OF assms(2,3)] by (simp add: ring_slot_add [OF assms(1)])

lemma length_write_n [simp]: "length (write_n C w t n buf) = length buf"
  by (induction n) (simp_all add: Let_def)

lemma write_n_nth:
  assumes "pow2 C" "length buf = unat C" "n \<le> unat C" "i < unat C"
  shows "write_n C w t n buf ! ring_slot C (t + of_nat i) =
    (if i < n then w i (buf ! ring_slot C (t + of_nat i)) else buf ! ring_slot C (t + of_nat i))"
  using assms(3)
proof (induction n)
  case (Suc n)
  then have n: "n < unat C" by simp
  show ?case using Suc slots_distinct [OF assms(1) n assms(4), of t] assms(1,2)
    by (auto simp: Let_def nth_list_update less_Suc_eq)
qed simp

text \<open>Publishing \<open>n\<close> written slots appends them to the contents.\<close>

lemma bq_append:
  assumes "bq_inv C q" "unat (bq_tail q - bq_shadow_head q) + n \<le> unat C"
    and "q' = q\<lparr>bq_buffer := write_n C w (bq_tail q) n (bq_buffer q), bq_tail := bq_tail q + of_nat n\<rparr>"
  shows "bq_inv C q'" "bq_contents C q' = bq_contents C q @ map (\<lambda>i. w i (bq_buffer q ! ring_slot C (bq_tail q + of_nat i))) [0..<n]"
proof -
  let ?m = "unat (bq_tail q - bq_head q)"
  have i: "pow2 C" "length (bq_buffer q) = unat C" "?m \<le> unat (bq_tail q - bq_shadow_head q)"
    "unat (bq_shadow_tail q - bq_head q) \<le> ?m"
    using assms(1) by (auto simp: bq_inv_def)
  have C: "unat C < 2 ^ 64" using pow2_le [OF i(1)] by simp
  have "unat (bq_tail q - bq_head q + of_nat n) = ?m + n"
    by (rule unat_add_small) (use i assms(2) C in linarith)
  then have t: "unat (bq_tail q + of_nat n - bq_head q) = ?m + n" by (simp add: diff_add_eq)
  have "unat (bq_tail q - bq_shadow_head q + of_nat n) = unat (bq_tail q - bq_shadow_head q) + n"
    by (rule unat_add_small) (use assms(2) C in linarith)
  then have sh: "unat (bq_tail q + of_nat n - bq_shadow_head q) = unat (bq_tail q - bq_shadow_head q) + n" by (simp add: diff_add_eq)
  show "bq_inv C q'" using i assms(2) by (simp add: assms(3) bq_inv_def t sh)
  define m where "m = ?m"
  have tl: "bq_tail q = bq_head q + of_nat m" by (simp add: m_def)
  have mn: "m + n \<le> unat C" using i(3) assms(2) by (simp add: m_def)
  have wrap: "ring_slot C (x + of_nat (unat C)) = ring_slot C x" for x
    using ring_slot_add [OF i(1), of x "unat C"] by (simp add: ring_slot_mod [OF i(1)])
  note nth = write_n_nth [OF i(1,2), of n _ w "bq_tail q"]
  have old: "write_n C w (bq_tail q) n (bq_buffer q) ! ring_slot C (bq_head q + of_nat j) =
      bq_buffer q ! ring_slot C (bq_head q + of_nat j)" if "j < m" for j
  proof -
    let ?k = "unat C - m + j"
    have "bq_tail q + of_nat ?k = bq_head q + of_nat j + of_nat (unat C)"
      using mn by (simp add: tl of_nat_diff)
    then have "ring_slot C (bq_tail q + of_nat ?k) = ring_slot C (bq_head q + of_nat j)" by (simp only: wrap)
    moreover have k: "n \<le> unat C" "?k < unat C" "\<not> ?k < n" using that mn by linarith+
    ultimately show ?thesis using nth [OF k(1,2)] by (simp only: k(3) if_False)
  qed
  have new: "write_n C w (bq_tail q) n (bq_buffer q) ! ring_slot C (bq_tail q + of_nat j) =
      w j (bq_buffer q ! ring_slot C (bq_tail q + of_nat j))" if "j < n" for j
    using nth [of j] that mn by simp
  have new': "write_n C w (bq_tail q) n (bq_buffer q) ! ring_slot C (bq_head q + of_nat (m + j)) =
      w j (bq_buffer q ! ring_slot C (bq_tail q + of_nat j))" if "j < n" for j
  proof -
    have "bq_head q + of_nat (m + j) = bq_tail q + of_nat j" by (simp add: tl)
    with new [OF that] show ?thesis by (simp only:)
  qed
  have c: "bq_contents C q' = map (\<lambda>j. write_n C w (bq_tail q) n (bq_buffer q) ! ring_slot C (bq_head q + of_nat j)) ([0..<m] @ [m..<m + n])"
    by (simp add: bq_contents_def assms(3) t m_def flip: upt_add_eq_append)
  have "map (\<lambda>j. write_n C w (bq_tail q) n (bq_buffer q) ! ring_slot C (bq_head q + of_nat j)) [m..<m + n] =
      map (\<lambda>j. w j (bq_buffer q ! ring_slot C (bq_tail q + of_nat j))) [0..<n]"
    by (rule nth_equalityI) (simp_all only: length_map length_upt nth_map nth_upt new' add_0 diff_add_inverse diff_zero add_less_cancel_left)
  with c old show "bq_contents C q' = bq_contents C q @ map (\<lambda>i. w i (bq_buffer q ! ring_slot C (bq_tail q + of_nat i))) [0..<n]"
    by (simp add: bq_contents_def m_def)
qed

text \<open>Advancing \<open>head\<close> by \<open>n\<close> published slots drops them.\<close>

lemma bq_drop:
  assumes "bq_inv C q" "n \<le> unat (bq_shadow_tail q - bq_head q)" "q' = q\<lparr>bq_head := bq_head q + of_nat n\<rparr>"
  shows "bq_inv C q'" "bq_contents C q' = drop n (bq_contents C q)"
    "map (\<lambda>i. bq_buffer q ! ring_slot C (bq_head q + of_nat i)) [0..<n] = take n (bq_contents C q)"
proof -
  have n: "n \<le> unat (bq_tail q - bq_head q)" using assms(1,2) by (simp add: bq_inv_def)
  have t: "unat (bq_tail q - (bq_head q + of_nat n)) = unat (bq_tail q - bq_head q) - n"
    using unat_sub_small [OF n] by (simp add: diff_diff_eq)
  have st: "unat (bq_shadow_tail q - (bq_head q + of_nat n)) = unat (bq_shadow_tail q - bq_head q) - n"
    using unat_sub_small [OF assms(2)] by (simp add: diff_diff_eq)
  show "bq_inv C q'" using assms(1) by (auto simp: assms(3) bq_inv_def t st)
  show "bq_contents C q' = drop n (bq_contents C q)"
  proof (rule nth_equalityI)
    fix i assume "i < length (bq_contents C q')"
    then have "n + i < unat (bq_tail q - bq_head q)" "i < unat (bq_tail q - bq_head q) - n"
      by (simp_all add: length_bq_contents assms(3) t)
    then show "bq_contents C q' ! i = drop n (bq_contents C q) ! i"
      by (simp add: bq_contents_def assms(3) t add.assoc)
  qed (simp add: length_bq_contents assms(3) t)
  show "map (\<lambda>i. bq_buffer q ! ring_slot C (bq_head q + of_nat i)) [0..<n] = take n (bq_contents C q)"
    using n by (simp add: bq_contents_def take_map)
qed

lemma bq_shadow_head_ok: "bq_inv C q \<Longrightarrow> bq_inv C (q\<lparr>bq_shadow_head := bq_head q\<rparr>)"
  by (auto simp: bq_inv_def)

lemma bq_shadow_tail_ok: "bq_inv C q \<Longrightarrow> bq_inv C (q\<lparr>bq_shadow_tail := bq_tail q\<rparr>)"
  by (auto simp: bq_inv_def)

lemma bq_reserve_law:
  assumes "bq_inv C q" "n < 2 ^ 64" "bq_reserve C (of_nat n) q = (ok, q')"
  shows "bq_inv C q'" "ok \<longleftrightarrow> length (bq_contents C q) + n \<le> unat C" "bq_contents C q' = bq_contents C q"
    "bq_buffer q' = bq_buffer q" "bq_tail q' = bq_tail q"
    "ok \<Longrightarrow> unat (bq_tail q' - bq_shadow_head q') + n \<le> unat C"
proof -
  have i: "unat (bq_tail q - bq_head q) \<le> unat (bq_tail q - bq_shadow_head q)" "unat (bq_tail q - bq_shadow_head q) \<le> unat C"
    using assms(1) by (auto simp: bq_inv_def)
  have av: "unat (C - x) = unat C - unat x" if "unat x \<le> unat C" for x using that by (simp add: unat_sub word_le_nat_alt)
  have n: "unat (of_nat n :: u64) = n" using assms(2) by (simp add: unat_of_nat)
  note d = assms(3) [unfolded bq_reserve_def Let_def word_less_nat_alt n av [OF i(2)] av [OF order_trans [OF i]]]
  show "bq_inv C q'" "bq_contents C q' = bq_contents C q" "bq_buffer q' = bq_buffer q" "bq_tail q' = bq_tail q"
    using d assms(1) bq_shadow_head_ok [OF assms(1)] by (auto split: if_splits intro: bq_contents_cong)
  show "ok \<longleftrightarrow> length (bq_contents C q) + n \<le> unat C" "ok \<Longrightarrow> unat (bq_tail q' - bq_shadow_head q') + n \<le> unat C"
    using d i by (auto simp: length_bq_contents split: if_splits)
qed

lemma try_produce_law:
  assumes "bq_inv C q" "try_produce C f q = (ok, q')"
  shows "bq_inv C q' \<and> (ok \<longleftrightarrow> length (bq_contents C q) < unat C) \<and>
    bq_contents C q' = bq_contents C q @ (if ok then [f (bq_buffer q ! ring_slot C (bq_tail q))] else [])"
proof -
  have i: "unat (bq_tail q - bq_head q) \<le> unat (bq_tail q - bq_shadow_head q)" using assms(1) by (auto simp: bq_inv_def)
  define q1 where "q1 = (if C \<le> bq_tail q - bq_shadow_head q then q\<lparr>bq_shadow_head := bq_head q\<rparr> else q)"
  have q1: "bq_inv C q1" "bq_contents C q1 = bq_contents C q" "bq_tail q1 = bq_tail q" "bq_buffer q1 = bq_buffer q" "bq_head q1 = bq_head q"
    using assms(1) bq_shadow_head_ok [OF assms(1)] by (auto simp: q1_def intro: bq_contents_cong)
  have e: "try_produce C f q = (if C \<le> bq_tail q - bq_shadow_head q \<and> C \<le> bq_tail q - bq_head q then (False, q1)
      else (True, q1\<lparr>bq_buffer := write_n C (\<lambda>i. f) (bq_tail q1) 1 (bq_buffer q1), bq_tail := bq_tail q1 + of_nat 1\<rparr>))"
    by (auto simp: try_produce_def q1_def Let_def)
  show ?thesis
  proof (cases "C \<le> bq_tail q - bq_shadow_head q \<and> C \<le> bq_tail q - bq_head q")
    case True
    then show ?thesis using assms(2) e q1 by (simp add: length_bq_contents word_le_nat_alt)
  next
    case False
    then have "unat (bq_tail q1 - bq_shadow_head q1) + 1 \<le> unat C" by (auto simp: q1_def word_le_nat_alt)
    note a = bq_append [OF q1(1) this refl, of "\<lambda>i. f"]
    have "length (bq_contents C q) < unat C" using False i by (auto simp: length_bq_contents word_le_nat_alt)
    then show ?thesis using assms(2) e False a q1 by auto
  qed
qed

lemma bq_refresh_law:
  assumes "bq_inv C q" "bq_refresh q = (ok, q')"
  shows "bq_inv C q'" "ok \<longleftrightarrow> bq_contents C q \<noteq> []" "bq_contents C q' = bq_contents C q" "bq_head q' = bq_head q"
    "ok \<Longrightarrow> 1 \<le> unat (bq_shadow_tail q' - bq_head q')"
proof -
  have i: "unat (bq_shadow_tail q - bq_head q) \<le> unat (bq_tail q - bq_head q)" using assms(1) by (simp add: bq_inv_def)
  have z: "unat (x - y) = 0 \<longleftrightarrow> x = y" for x y :: u64 by (simp add: unat_eq_0)
  note d = assms(2) [unfolded bq_refresh_def Let_def]
  show "bq_inv C q'" "bq_contents C q' = bq_contents C q" "bq_head q' = bq_head q"
    using d assms(1) bq_shadow_tail_ok [OF assms(1)] by (auto split: if_splits intro: bq_contents_cong)
  have "bq_contents C q \<noteq> [] \<longleftrightarrow> bq_tail q \<noteq> bq_head q" using z by (simp add: bq_contents_def)
  then show "ok \<longleftrightarrow> bq_contents C q \<noteq> []" using d i z [of "bq_shadow_tail q" "bq_head q"] z [of "bq_tail q" "bq_head q"]
    by (auto split: if_splits)
  show "ok \<Longrightarrow> 1 \<le> unat (bq_shadow_tail q' - bq_head q')"
    using d z [of "bq_shadow_tail q'" "bq_head q'"] by (auto split: if_splits)
qed

lemma try_consume_law:
  assumes "bq_inv C q" "try_consume C q = (r, q')"
  shows "bq_inv C q' \<and> bq_contents C q = (case r of None \<Rightarrow> [] | Some x \<Rightarrow> [x]) @ bq_contents C q' \<and> (r = None \<longleftrightarrow> bq_contents C q = [])"
proof -
  obtain ok q1 where r: "bq_refresh q = (ok, q1)" by (cases "bq_refresh q")
  note l = bq_refresh_law [OF assms(1) r]
  show ?thesis
  proof (cases ok)
    case True
    note d = bq_drop [OF l(1) l(5) [OF True] refl]
    have "[bq_buffer q1 ! ring_slot C (bq_head q1)] = take 1 (bq_contents C q1)" using d(3) by simp
    then have "bq_contents C q1 = [bq_buffer q1 ! ring_slot C (bq_head q1)] @ drop 1 (bq_contents C q1)"
      by (metis append_take_drop_id)
    then show ?thesis using assms(2) True d(1,2) l r by (auto simp: try_consume_def Let_def)
  next
    case False
    then show ?thesis using assms(2) l r by (auto simp: try_consume_def Let_def)
  qed
qed

lemma try_consume_n_law:
  assumes "bq_inv C q" "n < 2 ^ 64" "try_consume_n C n q = (xs, q')"
  shows "bq_inv C q' \<and> bq_contents C q = xs @ bq_contents C q' \<and> length xs \<le> n \<and> (xs = [] \<longleftrightarrow> n = 0 \<or> bq_contents C q = [])"
proof (cases "n = 0")
  case False
  define q1 where "q1 = (if bq_shadow_tail q - bq_head q = 0 then q\<lparr>bq_shadow_tail := bq_tail q\<rparr> else q)"
  have q1: "bq_inv C q1" "bq_contents C q1 = bq_contents C q" "bq_head q1 = bq_head q"
    using assms(1) bq_shadow_tail_ok [OF assms(1)] by (auto simp: q1_def intro: bq_contents_cong)
  let ?a = "bq_shadow_tail q1 - bq_head q1"
  have n: "unat (of_nat n :: u64) = n" using assms(2) by (simp add: unat_of_nat)
  define k where "k = (if unat ?a < n then unat ?a else n)"
  have k: "k \<le> unat ?a" "k \<le> n" by (auto simp: k_def)
  have cnt: "(if ?a < of_nat n then ?a else of_nat n) = of_nat k" "unat (of_nat k :: u64) = k"
    using n by (auto simp: k_def word_less_nat_alt)
  have e: "try_consume_n C n q = (if ?a = 0 then ([], q1)
      else (map (\<lambda>i. bq_buffer q1 ! ring_slot C (bq_head q1 + of_nat i)) [0..<k], q1\<lparr>bq_head := bq_head q1 + of_nat k\<rparr>))"
  proof -
    have "try_consume_n C n q = (if ?a = 0 then ([], q1)
        else (let c = (if ?a < of_nat n then ?a else of_nat n) in
          (map (\<lambda>i. bq_buffer q1 ! ring_slot C (bq_head q1 + of_nat i)) [0..<unat c], q1\<lparr>bq_head := bq_head q1 + c\<rparr>)))"
      using False by (auto simp: try_consume_n_def q1_def Let_def)
    then show ?thesis by (simp only: cnt Let_def)
  qed
  have a0: "?a = 0 \<longleftrightarrow> bq_contents C q1 = []"
    using q1(1) by (auto simp: bq_inv_def bq_contents_def unat_eq_0 q1_def split: if_splits)
  show ?thesis
  proof (cases "?a = 0")
    case True
    then show ?thesis using assms(3) e a0 q1 False by auto
  next
    case nz: False
    then have "0 < k" using False by (auto simp: k_def unat_eq_0 unat_gt_0)
    have lk: "k \<le> length (bq_contents C q1)" using q1(1) k(1) by (auto simp: bq_inv_def length_bq_contents)
    note d = bq_drop [OF q1(1) k(1) refl]
    have "xs = take k (bq_contents C q1)" "bq_contents C q' = drop k (bq_contents C q1)" "bq_inv C q'"
      using assms(3) e nz d by simp_all
    then show ?thesis using nz \<open>0 < k\<close> k(2) lk a0 q1(2) False by auto
  qed
qed (use assms in \<open>auto simp: try_consume_n_def\<close>)

lemma try_push_n_law:
  assumes "bq_inv C q" "length xs < 2 ^ 64" "try_push_n C xs q = (ok, q')"
  shows "bq_inv C q' \<and> (ok \<longleftrightarrow> length (bq_contents C q) + length xs \<le> unat C) \<and>
    bq_contents C q' = bq_contents C q @ (if ok then xs else [])"
proof (cases "xs = []")
  case False
  obtain ok1 q1 where r: "bq_reserve C (of_nat (length xs)) q = (ok1, q1)" by (cases "bq_reserve C (of_nat (length xs)) q")
  note l = bq_reserve_law [OF assms(1,2) r]
  show ?thesis
  proof (cases ok1)
    case True
    note a = bq_append [OF l(1) l(6) [OF True] refl, of "\<lambda>i slot. xs ! i"]
    show ?thesis using assms(3) r False True a l by (auto simp: try_push_n_def Let_def map_nth)
  next
    case F: False
    then show ?thesis using assms(3) r False l by (auto simp: try_push_n_def Let_def)
  qed
qed (use assms bq_inv_len [OF assms(1)] in \<open>auto simp: try_push_n_def\<close>)

interpretation spsc: bounded_fifo "unat C" "bq_inv C" "bq_contents C" "try_push C" "try_push_n C" "try_pop C" "try_pop_n C" for C :: u64
proof unfold_locales
  show "bq_inv C q \<Longrightarrow> length (bq_contents C q) \<le> unat C" for q :: "('a, 'x) BoundedQueue_scheme" by (rule bq_inv_len)
  show "bq_inv C q \<Longrightarrow> try_push C x q = (ok, q') \<Longrightarrow>
      bq_inv C q' \<and> ok = (length (bq_contents C q) < unat C) \<and> bq_contents C q' = bq_contents C q @ (if ok then [x] else [])"
    for q q' :: "('a, 'x) BoundedQueue_scheme" and x ok
    unfolding try_push_def by (drule (1) try_produce_law) simp
  show "bq_inv C q \<Longrightarrow> length xs < 2 ^ 64 \<Longrightarrow> try_push_n C xs q = (ok, q') \<Longrightarrow>
      bq_inv C q' \<and> ok = (length (bq_contents C q) + length xs \<le> unat C) \<and> bq_contents C q' = bq_contents C q @ (if ok then xs else [])"
    for q q' :: "('a, 'x) BoundedQueue_scheme" and xs ok by (rule try_push_n_law)
  show "bq_inv C q \<Longrightarrow> try_pop C q = (r, q') \<Longrightarrow>
      bq_inv C q' \<and> bq_contents C q = (case r of None \<Rightarrow> [] | Some x \<Rightarrow> [x]) @ bq_contents C q' \<and> (r = None) = (bq_contents C q = [])"
    for q q' :: "('a, 'x) BoundedQueue_scheme" and r unfolding try_pop_def by (rule try_consume_law)
  show "bq_inv C q \<Longrightarrow> n < 2 ^ 64 \<Longrightarrow> try_pop_n C n q = (xs, q') \<Longrightarrow>
      bq_inv C q' \<and> bq_contents C q = xs @ bq_contents C q' \<and> length xs \<le> n \<and> (xs = []) = (n = 0 \<or> bq_contents C q = [])"
    for q q' :: "('a, 'x) BoundedQueue_scheme" and n xs unfolding try_pop_n_def by (rule try_consume_n_law)
qed

section \<open>Two threads\<close>

text \<open>
  The writer runs \<open>try_push\<close>, the reader \<open>try_pop\<close>, each shared access being one step: the control
  points of \<open>try_produce\<close> are before the reload of \<open>head\<close>, before the slot is written and before the
  index is published; those of \<open>try_consume\<close> correspond. \<open>sp_pushed\<close> and \<open>sp_popped\<close> record what the
  successful calls published and delivered.
\<close>

datatype 'a wpc = WIdle | WReload 'a | WWrite 'a | WPublish 'a

datatype 'a rpc = RIdle | RReload | RRead | RAdvance 'a

record 'a spsc_state = "'a BoundedQueue" +
  sp_wpc :: "'a wpc"
  sp_rpc :: "'a rpc"
  sp_pushed :: "'a list"
  sp_popped :: "'a list"

inductive spsc_step :: "u64 \<Rightarrow> 'a spsc_state \<Rightarrow> 'a spsc_state \<Rightarrow> bool" for C :: u64 where
  w_begin: "sp_wpc s = WIdle \<Longrightarrow>
    spsc_step C s (s\<lparr>sp_wpc := (if bq_tail s - bq_shadow_head s \<ge> C then WReload v else WWrite v)\<rparr>)"
| w_reload: "sp_wpc s = WReload v \<Longrightarrow>
    spsc_step C s (s\<lparr>bq_shadow_head := bq_head s, sp_wpc := (if bq_tail s - bq_head s \<ge> C then WIdle else WWrite v)\<rparr>)"
| w_write: "sp_wpc s = WWrite v \<Longrightarrow>
    spsc_step C s (s\<lparr>bq_buffer := (bq_buffer s)[ring_slot C (bq_tail s) := v], sp_wpc := WPublish v\<rparr>)"
| w_publish: "sp_wpc s = WPublish v \<Longrightarrow>
    spsc_step C s (s\<lparr>bq_tail := bq_tail s + 1, sp_wpc := WIdle, sp_pushed := sp_pushed s @ [v]\<rparr>)"
| r_begin: "sp_rpc s = RIdle \<Longrightarrow>
    spsc_step C s (s\<lparr>sp_rpc := (if bq_shadow_tail s = bq_head s then RReload else RRead)\<rparr>)"
| r_reload: "sp_rpc s = RReload \<Longrightarrow>
    spsc_step C s (s\<lparr>bq_shadow_tail := bq_tail s, sp_rpc := (if bq_head s = bq_tail s then RIdle else RRead)\<rparr>)"
| r_read: "sp_rpc s = RRead \<Longrightarrow>
    spsc_step C s (s\<lparr>sp_rpc := RAdvance (bq_buffer s ! ring_slot C (bq_head s))\<rparr>)"
| r_advance: "sp_rpc s = RAdvance v \<Longrightarrow>
    spsc_step C s (s\<lparr>bq_head := bq_head s + 1, sp_rpc := RIdle, sp_popped := sp_popped s @ [v]\<rparr>)"

definition w_ok :: "u64 \<Rightarrow> 'a spsc_state \<Rightarrow> bool" where
  "w_ok C s = (case sp_wpc s of
     WWrite v \<Rightarrow> unat (bq_tail s - bq_shadow_head s) < unat C
   | WPublish v \<Rightarrow> unat (bq_tail s - bq_shadow_head s) < unat C \<and> bq_buffer s ! ring_slot C (bq_tail s) = v
   | _ \<Rightarrow> True)"

definition r_ok :: "u64 \<Rightarrow> 'a spsc_state \<Rightarrow> bool" where
  "r_ok C s = (case sp_rpc s of
     RRead \<Rightarrow> 1 \<le> unat (bq_shadow_tail s - bq_head s)
   | RAdvance v \<Rightarrow> 1 \<le> unat (bq_shadow_tail s - bq_head s) \<and> bq_buffer s ! ring_slot C (bq_head s) = v
   | _ \<Rightarrow> True)"

definition spsc_inv :: "u64 \<Rightarrow> 'a spsc_state \<Rightarrow> bool" where
  "spsc_inv C s \<longleftrightarrow> bq_inv C s \<and> w_ok C s \<and> r_ok C s \<and> sp_popped s @ bq_contents C s = sp_pushed s"

lemma tail_slot_free:
  assumes "bq_inv C q" "unat (bq_tail q - bq_shadow_head q) < unat C" "j < unat (bq_tail q - bq_head q)"
  shows "ring_slot C (bq_head q + of_nat j) \<noteq> ring_slot C (bq_tail q)"
proof -
  have "bq_tail q = bq_head q + of_nat (unat (bq_tail q - bq_head q))" by simp
  moreover have "unat (bq_tail q - bq_head q) < unat C" "pow2 C" using assms(1,2) by (auto simp: bq_inv_def)
  ultimately show ?thesis using slots_distinct [of C j "unat (bq_tail q - bq_head q)" "bq_head q"] assms(3)
    by (metis less_trans nat_neq_iff)
qed

lemma write_keeps:
  assumes "bq_inv C q" "unat (bq_tail q - bq_shadow_head q) < unat C"
  shows "bq_inv C (q\<lparr>bq_buffer := (bq_buffer q)[ring_slot C (bq_tail q) := v]\<rparr>)"
    "bq_contents C (q\<lparr>bq_buffer := (bq_buffer q)[ring_slot C (bq_tail q) := v]\<rparr>) = bq_contents C q"
  using assms(1) tail_slot_free [OF assms, THEN not_sym] by (auto simp: bq_inv_def bq_contents_def)

lemma publish_appends:
  assumes "bq_inv C q" "unat (bq_tail q - bq_shadow_head q) < unat C" "bq_buffer q ! ring_slot C (bq_tail q) = v"
  shows "bq_inv C (q\<lparr>bq_tail := bq_tail q + 1\<rparr>)" "bq_contents C (q\<lparr>bq_tail := bq_tail q + 1\<rparr>) = bq_contents C q @ [v]"
proof -
  have "unat (bq_tail q - bq_shadow_head q) + 1 \<le> unat C" using assms(2) by simp
  from bq_append [OF assms(1) this refl, of "\<lambda>i x. x"] assms(3)
  show "bq_inv C (q\<lparr>bq_tail := bq_tail q + 1\<rparr>)" "bq_contents C (q\<lparr>bq_tail := bq_tail q + 1\<rparr>) = bq_contents C q @ [v]"
    by simp_all
qed

lemma advance_drops:
  assumes "bq_inv C q" "1 \<le> unat (bq_shadow_tail q - bq_head q)"
  shows "bq_inv C (q\<lparr>bq_head := bq_head q + 1\<rparr>)"
    "bq_contents C q = bq_buffer q ! ring_slot C (bq_head q) # bq_contents C (q\<lparr>bq_head := bq_head q + 1\<rparr>)"
proof -
  note d = bq_drop [OF assms(1,2) refl]
  have "[bq_buffer q ! ring_slot C (bq_head q)] = take 1 (bq_contents C q)" using d(3) by simp
  then have "bq_contents C q = [bq_buffer q ! ring_slot C (bq_head q)] @ drop 1 (bq_contents C q)"
    by (metis append_take_drop_id)
  then show "bq_contents C q = bq_buffer q ! ring_slot C (bq_head q) # bq_contents C (q\<lparr>bq_head := bq_head q + 1\<rparr>)"
    using d(2) by simp
  show "bq_inv C (q\<lparr>bq_head := bq_head q + 1\<rparr>)" using d(1) by simp
qed

lemma bq_ghost [simp]:
  "bq_inv C (s\<lparr>sp_wpc := a\<rparr>) = bq_inv C s" "bq_contents C (s\<lparr>sp_wpc := a\<rparr>) = bq_contents C s"
  "bq_inv C (s\<lparr>sp_rpc := b\<rparr>) = bq_inv C s" "bq_contents C (s\<lparr>sp_rpc := b\<rparr>) = bq_contents C s"
  "bq_inv C (s\<lparr>sp_pushed := c\<rparr>) = bq_inv C s" "bq_contents C (s\<lparr>sp_pushed := c\<rparr>) = bq_contents C s"
  "bq_inv C (s\<lparr>sp_popped := d\<rparr>) = bq_inv C s" "bq_contents C (s\<lparr>sp_popped := d\<rparr>) = bq_contents C s"
  for s :: "'a spsc_state"
  by (simp_all add: bq_inv_def bq_contents_def)

lemmas spsc_defs = spsc_inv_def w_ok_def r_ok_def

lemma spsc_step_inv: "spsc_step C s s' \<Longrightarrow> spsc_inv C s \<Longrightarrow> spsc_inv C s'"
proof (induction rule: spsc_step.induct)
  case (w_begin s v)
  then show ?case by (auto simp: spsc_defs word_le_nat_alt split: rpc.splits)
next
  case (w_reload s v)
  then have "bq_contents C (s\<lparr>bq_shadow_head := bq_head s\<rparr>) = bq_contents C s" by (simp add: bq_contents_def)
  with w_reload bq_shadow_head_ok [of C s] show ?case by (auto simp: spsc_defs word_le_nat_alt split: rpc.splits)
next
  case (w_write s v)
  then have i: "bq_inv C s" "unat (bq_tail s - bq_shadow_head s) < unat C" by (auto simp: spsc_defs)
  let ?s = "s\<lparr>bq_buffer := (bq_buffer s)[ring_slot C (bq_tail s) := v]\<rparr>"
  have l: "ring_slot C (bq_tail s) < length (bq_buffer s)" using i(1) by (simp add: bq_inv_def)
  have "(bq_buffer s)[ring_slot C (bq_tail s) := v] ! ring_slot C (bq_head s) = bq_buffer s ! ring_slot C (bq_head s)"
    if "1 \<le> unat (bq_shadow_tail s - bq_head s)"
    using that tail_slot_free [OF i, of 0] i(1) by (auto simp: bq_inv_def)
  with w_write write_keeps [OF i, of v] l show ?case by (auto simp: spsc_defs split: rpc.splits)
next
  case (w_publish s v)
  then have i: "bq_inv C s" "unat (bq_tail s - bq_shadow_head s) < unat C" "bq_buffer s ! ring_slot C (bq_tail s) = v"
    by (auto simp: spsc_defs)
  with w_publish publish_appends [OF i] show ?case by (auto simp: spsc_defs split: rpc.splits)
next
  case (r_begin s)
  then show ?case by (auto simp: spsc_defs unat_eq_0 Suc_le_eq unat_gt_0 split: wpc.splits)
next
  case (r_reload s)
  then have "bq_contents C (s\<lparr>bq_shadow_tail := bq_tail s\<rparr>) = bq_contents C s" by (simp add: bq_contents_def)
  with r_reload bq_shadow_tail_ok [of C s] show ?case
    by (auto simp: spsc_defs Suc_le_eq unat_gt_0 split: wpc.splits)
next
  case (r_read s)
  then show ?case by (auto simp: spsc_defs split: wpc.splits)
next
  case (r_advance s v)
  then have i: "bq_inv C s" "1 \<le> unat (bq_shadow_tail s - bq_head s)" "bq_buffer s ! ring_slot C (bq_head s) = v"
    by (auto simp: spsc_defs)
  with r_advance advance_drops [OF i(1,2)] show ?case by (auto simp: spsc_defs split: wpc.splits)
qed

lemma spsc_steps_inv: "(spsc_step C)\<^sup>*\<^sup>* s s' \<Longrightarrow> spsc_inv C s \<Longrightarrow> spsc_inv C s'"
  by (induction rule: rtranclp_induct) (auto intro: spsc_step_inv)

definition spsc_start :: "u64 \<Rightarrow> 'a \<Rightarrow> 'a spsc_state" where
  "spsc_start C d = BoundedQueue.extend (mk_BoundedQueue C d) \<lparr>sp_wpc = WIdle, sp_rpc = RIdle, sp_pushed = [], sp_popped = []\<rparr>"

lemma spsc_start_inv: "pow2 C \<Longrightarrow> spsc_inv C (spsc_start C d)"
  by (simp add: spsc_start_def BoundedQueue.defs mk_BoundedQueue_def spsc_defs bq_inv_def bq_contents_def)

text \<open>Run alone, the steps of a thread are the function.\<close>

lemma try_push_steps:
  assumes "sp_wpc s = WIdle" "try_push C v s = (ok, s')"
  shows "(spsc_step C)\<^sup>*\<^sup>* s (s'\<lparr>sp_pushed := sp_pushed s @ (if ok then [v] else [])\<rparr>)"
proof -
  let ?w = "\<lambda>s. s\<lparr>bq_buffer := (bq_buffer s)[ring_slot C (bq_tail s) := v], sp_wpc := WPublish v\<rparr>"
  let ?p = "\<lambda>s. s\<lparr>bq_tail := bq_tail s + 1, sp_wpc := WIdle, sp_pushed := sp_pushed s @ [v]\<rparr>"
  have wp: "(spsc_step C)\<^sup>*\<^sup>* t (?p (?w t))" if "sp_wpc t = WWrite v" for t
  proof -
    have "spsc_step C t (?w t)" by (rule spsc_step.w_write [OF that])
    moreover have "spsc_step C (?w t) (?p (?w t))" by (rule spsc_step.w_publish) simp
    ultimately show ?thesis by (meson r_into_rtranclp rtranclp_trans)
  qed
  have b: "spsc_step C s (s\<lparr>sp_wpc := (if C \<le> bq_tail s - bq_shadow_head s then WReload v else WWrite v)\<rparr>)"
    by (rule spsc_step.w_begin [OF assms(1)])
  show ?thesis
  proof (cases "C \<le> bq_tail s - bq_shadow_head s")
    case False
    have "s'\<lparr>sp_pushed := sp_pushed s @ (if ok then [v] else [])\<rparr> = ?p (?w (s\<lparr>sp_wpc := WWrite v\<rparr>))"
      using assms False by (auto simp: try_push_def try_produce_def Let_def)
    with b False wp [of "s\<lparr>sp_wpc := WWrite v\<rparr>"] show ?thesis by (simp add: converse_rtranclp_into_rtranclp)
  next
    case True
    let ?r = "s\<lparr>sp_wpc := WReload v\<rparr>"
    have "spsc_step C ?r (?r\<lparr>bq_shadow_head := bq_head ?r, sp_wpc := (if bq_tail ?r - bq_head ?r \<ge> C then WIdle else WWrite v)\<rparr>)"
      by (rule spsc_step.w_reload) simp
    with b True have r: "(spsc_step C)\<^sup>*\<^sup>* s (s\<lparr>bq_shadow_head := bq_head s, sp_wpc := (if bq_tail s - bq_head s \<ge> C then WIdle else WWrite v)\<rparr>)"
      by (simp add: converse_rtranclp_into_rtranclp)
    show ?thesis
    proof (cases "C \<le> bq_tail s - bq_head s")
      case full: True
      then have "s'\<lparr>sp_pushed := sp_pushed s @ (if ok then [v] else [])\<rparr> = s\<lparr>bq_shadow_head := bq_head s, sp_wpc := WIdle\<rparr>"
        using assms True by (auto simp: try_push_def try_produce_def Let_def)
      with r full show ?thesis by simp
    next
      case room: False
      let ?t = "s\<lparr>bq_shadow_head := bq_head s, sp_wpc := WWrite v\<rparr>"
      have "s'\<lparr>sp_pushed := sp_pushed s @ (if ok then [v] else [])\<rparr> = ?p (?w ?t)"
        using assms True room by (auto simp: try_push_def try_produce_def Let_def)
      with r room wp [of ?t] show ?thesis by simp
    qed
  qed
qed

lemma try_pop_steps:
  assumes "sp_rpc s = RIdle" "try_pop C s = (r, s')"
  shows "(spsc_step C)\<^sup>*\<^sup>* s (s'\<lparr>sp_popped := sp_popped s @ (case r of None \<Rightarrow> [] | Some v \<Rightarrow> [v])\<rparr>)"
proof -
  let ?v = "\<lambda>s. bq_buffer s ! ring_slot C (bq_head s)"
  let ?a = "\<lambda>s. s\<lparr>bq_head := bq_head s + 1, sp_rpc := RIdle, sp_popped := sp_popped s @ [?v s]\<rparr>"
  have ra: "(spsc_step C)\<^sup>*\<^sup>* t (?a t)" if "sp_rpc t = RRead" for t
  proof -
    have "spsc_step C t (t\<lparr>sp_rpc := RAdvance (?v t)\<rparr>)" by (rule spsc_step.r_read [OF that])
    moreover have "spsc_step C (t\<lparr>sp_rpc := RAdvance (?v t)\<rparr>) (?a t)"
      using spsc_step.r_advance [of "t\<lparr>sp_rpc := RAdvance (?v t)\<rparr>" "?v t" C] by simp
    ultimately show ?thesis by (meson r_into_rtranclp rtranclp_trans)
  qed
  have b: "spsc_step C s (s\<lparr>sp_rpc := (if bq_shadow_tail s = bq_head s then RReload else RRead)\<rparr>)"
    by (rule spsc_step.r_begin [OF assms(1)])
  show ?thesis
  proof (cases "bq_shadow_tail s = bq_head s")
    case False
    have "s'\<lparr>sp_popped := sp_popped s @ (case r of None \<Rightarrow> [] | Some v \<Rightarrow> [v])\<rparr> = ?a (s\<lparr>sp_rpc := RRead\<rparr>)"
      using assms False by (auto simp: try_pop_def try_consume_def bq_refresh_def Let_def)
    with b False ra [of "s\<lparr>sp_rpc := RRead\<rparr>"] show ?thesis by (simp add: converse_rtranclp_into_rtranclp)
  next
    case True
    let ?r = "s\<lparr>sp_rpc := RReload\<rparr>"
    have "spsc_step C ?r (?r\<lparr>bq_shadow_tail := bq_tail ?r, sp_rpc := (if bq_head ?r = bq_tail ?r then RIdle else RRead)\<rparr>)"
      by (rule spsc_step.r_reload) simp
    with b True have q: "(spsc_step C)\<^sup>*\<^sup>* s (s\<lparr>bq_shadow_tail := bq_tail s, sp_rpc := (if bq_head s = bq_tail s then RIdle else RRead)\<rparr>)"
      by (simp add: converse_rtranclp_into_rtranclp)
    let ?t = "s\<lparr>bq_shadow_tail := bq_tail s, sp_rpc := RRead\<rparr>"
    have "s'\<lparr>sp_popped := sp_popped s @ (case r of None \<Rightarrow> [] | Some v \<Rightarrow> [v])\<rparr> =
        (if bq_head s = bq_tail s then s\<lparr>bq_shadow_tail := bq_tail s, sp_rpc := RIdle\<rparr> else ?a ?t)"
      using assms True by (auto simp: try_pop_def try_consume_def bq_refresh_def Let_def split: if_splits)
    with q ra [of ?t] show ?thesis by (auto split: if_splits)
  qed
qed

text \<open>
  C13. The lock-free queue under every interleaving of one producer and one consumer: what has been
  popped, followed by what the queue holds, is exactly what has been pushed, never more than the
  capacity is held, and the producer never writes the slot the consumer is reading.
\<close>

theorem spsc_interleavings:
  assumes "pow2 C" "(spsc_step C)\<^sup>*\<^sup>* (spsc_start C d) s"
  shows "sp_popped s @ bq_contents C s = sp_pushed s \<and> length (bq_contents C s) \<le> unat C \<and>
    (\<forall>v. sp_wpc s = WWrite v \<and> sp_rpc s = RRead \<longrightarrow> ring_slot C (bq_tail s) \<noteq> ring_slot C (bq_head s))"
proof -
  have i: "spsc_inv C s" by (rule spsc_steps_inv [OF assms(2) spsc_start_inv [OF assms(1)]])
  have "ring_slot C (bq_tail s) \<noteq> ring_slot C (bq_head s)" if "sp_wpc s = WWrite v" "sp_rpc s = RRead" for v
  proof -
    have "bq_inv C s" "unat (bq_tail s - bq_shadow_head s) < unat C" "0 < unat (bq_tail s - bq_head s)"
      using i that by (auto simp: spsc_defs bq_inv_def)
    from tail_slot_free [OF this] show ?thesis by simp
  qed
  then show ?thesis using i bq_inv_len [of C s] by (auto simp: spsc_defs)
qed

theorem spsc_interleavings_witness:
  "\<exists>s. (spsc_step 2)\<^sup>*\<^sup>* (spsc_start 2 0) s \<and> sp_pushed s = [7 :: nat] \<and> sp_popped s @ bq_contents 2 s = [7]"
proof -
  obtain ok s' where t: "try_push 2 (7 :: nat) (spsc_start 2 0) = (ok, s')" by (cases "try_push 2 (7 :: nat) (spsc_start 2 0)")
  have p: "pow2 2" by (auto simp: pow2_def intro: exI [of _ 1])
  have w: "sp_wpc (spsc_start 2 (0 :: nat)) = WIdle" "sp_pushed (spsc_start 2 (0 :: nat)) = []" ok
    using t by (auto simp: spsc_start_def BoundedQueue.defs mk_BoundedQueue_def try_push_def try_produce_def Let_def)
  let ?s = "s'\<lparr>sp_pushed := [7]\<rparr>"
  have r: "(spsc_step 2)\<^sup>*\<^sup>* (spsc_start 2 0) ?s" using try_push_steps [OF w(1) t] w by simp
  from spsc_interleavings [OF p this] show ?thesis using r by (intro exI [of _ ?s]) simp
qed

text \<open>
  C15. The queue refines the abstract bounded queue of its capacity: for any sequence of single and batched
  pushes and pops, from any position of the wrapping indices, every result is one the abstract queue gives
  on the list of elements held, and the elements held change as it says. In particular a push is refused
  only when \<open>Capacity\<close> elements are held, and a pop returns nothing only when none is.
\<close>

theorem bounded_queue_fifo:
  assumes "bq_inv C q" "list_all (\<lambda>p. op_size p < 2 ^ 64) ps"
    and "apply_ops (try_push C, try_push_n C, try_pop C, try_pop_n C) ps q = (rs, q')"
  shows "bq_inv C q' \<and> fifo_run (unat C) ps (bq_contents C q) rs (bq_contents C q')"
  by (rule spsc.apply_ops_fifo [OF assms])

theorem bounded_queue_fifo_witness:
  "\<exists>q'. apply_ops (try_push 2, try_push_n 2, try_pop 2, try_pop_n 2) [Push 1, Push_n [2, 3], Push 4, Push 5, Pop_n 5, Pop]
      \<lparr>bq_tail = - 1, bq_shadow_head = - 1, bq_head = - 1, bq_shadow_tail = - 1, bq_buffer = [0, 0 :: nat]\<rparr> =
      ([Stored True, Stored False, Stored True, Stored False, Taken [1, 4], Taken []], q') \<and> bq_contents 2 q' = []"
proof -
  let ?q = "\<lparr>bq_tail = - 1, bq_shadow_head = - 1, bq_head = - 1, bq_shadow_tail = - 1, bq_buffer = [0, 0 :: nat]\<rparr>"
  let ?ps = "[Push 1, Push_n [2, 3], Push 4, Push 5, Pop_n 5, Pop] :: nat queue_op list"
  let ?rs = "[Stored True, Stored False, Stored True, Stored False, Taken [1, 4], Taken []] :: nat queue_result list"
  have i: "bq_inv 2 ?q" by (auto simp: bq_inv_def pow2_def intro: exI [of _ 1])
  let ?r = "apply_ops (try_push 2, try_push_n 2, try_pop 2, try_pop_n 2) ?ps ?q"
  have "fst ?r = ?rs" by code_simp
  then obtain q' where q': "?r = (?rs, q')" by (metis prod.collapse)
  from bounded_queue_fifo [OF i _ q'] show ?thesis using q' by (auto simp: bq_contents_def simp del: apply_ops.simps)
qed

section \<open>Blocking and timed operations\<close>

text \<open>
  The spin loops retry an attempt; between attempts the other thread acts, \<open>env i\<close> being what it does
  during the \<open>i\<close>-th \<open>cpu_relax\<close>, and \<open>before i\<close> the outcome of the \<open>i\<close>-th comparison of the clock with
  the deadline. \<open>None\<close> means that the loop does not end.
\<close>

partial_function (option) spin :: "(nat \<Rightarrow> 'q \<Rightarrow> 'q) \<Rightarrow> ('q \<Rightarrow> 'r option \<times> 'q) \<Rightarrow> nat \<Rightarrow> 'q \<Rightarrow> ('r \<times> 'q) option" where
  "spin env attempt i q =
     (let (r, q) = attempt q in
      case r of Some x \<Rightarrow> Some (x, q) | None \<Rightarrow> spin env attempt (Suc i) (env i q))"

partial_function (option) spin_until ::
    "(nat \<Rightarrow> 'q \<Rightarrow> 'q) \<Rightarrow> (nat \<Rightarrow> bool) \<Rightarrow> ('q \<Rightarrow> 'r option \<times> 'q) \<Rightarrow> nat \<Rightarrow> 'q \<Rightarrow> ('r option \<times> 'q) option" where
  "spin_until env before attempt i q =
     (let (r, q) = attempt (env i q) in
      case r of
        Some x \<Rightarrow> Some (Some x, q)
      | None \<Rightarrow> if before i then spin_until env before attempt (Suc i) q else Some (None, q))"

definition spin_for ::
    "(nat \<Rightarrow> 'q \<Rightarrow> 'q) \<Rightarrow> (nat \<Rightarrow> bool) \<Rightarrow> ('q \<Rightarrow> 'r option \<times> 'q) \<Rightarrow> 'q \<Rightarrow> ('r option \<times> 'q) option" where
  "spin_for env before attempt q =
     (let (r, q) = attempt q in
      case r of Some x \<Rightarrow> Some (Some x, q) | None \<Rightarrow> spin_until env before attempt 0 q)"

definition accepted :: "bool \<times> 'q \<Rightarrow> unit option \<times> 'q" where
  "accepted a = (case a of (ok, q) \<Rightarrow> (if ok then Some () else None, q))"

definition bq_produce where
  "bq_produce env Capacity writer q = spin env (\<lambda>q. accepted (try_produce Capacity writer q)) 0 q"


definition bq_push_n where
  "bq_push_n env Capacity data q = spin env (\<lambda>q. accepted (try_push_n Capacity data q)) 0 q"

definition bq_produce_n where
  "bq_produce_n env Capacity n writer q = spin env (\<lambda>q. accepted (try_produce_n Capacity n writer q)) 0 q"

definition bq_consume where
  "bq_consume env Capacity q = spin env (try_consume Capacity) 0 q"

definition some_if_any :: "'a list \<times> 'q \<Rightarrow> 'a list option \<times> 'q" where
  "some_if_any a = (case a of (xs, q) \<Rightarrow> (if xs = [] then None else Some xs, q))"

definition bq_consume_n where
  "bq_consume_n env Capacity n q = spin env (\<lambda>q. some_if_any (try_consume_n Capacity n q)) 0 q"

definition try_produce_for where
  "try_produce_for env before Capacity writer q = spin_for env before (\<lambda>q. accepted (try_produce Capacity writer q)) q"

definition try_push_n_for where
  "try_push_n_for env before Capacity data q = spin_for env before (\<lambda>q. accepted (try_push_n Capacity data q)) q"

definition try_produce_n_for where
  "try_produce_n_for env before Capacity n writer q = spin_for env before (\<lambda>q. accepted (try_produce_n Capacity n writer q)) q"

definition try_consume_for where
  "try_consume_for env before Capacity q = spin_for env before (try_consume Capacity) q"

definition try_pop_n_for where
  "try_pop_n_for env before Capacity max_n q = spin_for env before (\<lambda>q. some_if_any (try_pop_n Capacity max_n q)) q"

definition try_consume_n_for where
  "try_consume_n_for env before Capacity n q = spin_for env before (\<lambda>q. some_if_any (try_consume_n Capacity n q)) q"






text \<open>A timed operation ends as soon as one clock comparison fails.\<close>

lemma spin_until_returns: "\<not> before (i + m) \<Longrightarrow> \<exists>y. spin_until env before attempt i q = Some y"
proof (induction m arbitrary: i q)
  case 0
  then show ?case by (subst spin_until.simps) (auto split: prod.splits option.splits)
next
  case (Suc m)
  obtain r q1 where a: "attempt (env i q) = (r, q1)" by (cases "attempt (env i q)")
  show ?case using Suc.IH [of "Suc i" q1] Suc.prems by (subst spin_until.simps) (auto simp: a split: option.splits)
qed

lemma spin_for_returns: "\<not> before m \<Longrightarrow> \<exists>y. spin_for env before attempt q = Some y"
  using spin_until_returns [where before = before and i = 0 and m = m and env = env and attempt = attempt]
  by (auto simp: spin_for_def split: prod.splits option.splits)

end
