(* ===== verification/Queue_Bytes.thy ===== *)
theory Queue_Bytes
  imports Bounded_Queue
begin

text \<open>
  The byte-message queue of \<^verbatim>\<open>eph-containers/include/eph/containers/bounded_queue_bytes.hpp\<close>
  (\<open>BoundedQueueBytes\<close>), a client of \<open>BoundedQueue\<close> whose slots are fixed-size buffers with a length
  and a time stamp. The lemmas show that it queues exactly the messages, whatever stale bytes a slot held.
\<close>

section \<open>Slots\<close>

record DataWrap =
  dw_ts :: u64
  dw_len :: u32
  dw_data :: bytes

type_synonym bytes_queue = "DataWrap BoundedQueue"

text \<open>The writer lambda: stamp, length, and \<open>memcpy\<close> over the front of the slot's array.\<close>

definition fill_slot :: "bytes \<Rightarrow> u64 \<Rightarrow> DataWrap \<Rightarrow> DataWrap" where
  "fill_slot payload ts slot =
     slot\<lparr>dw_ts := ts, dw_len := of_nat (length payload), dw_data := payload @ drop (length payload) (dw_data slot)\<rparr>"

text \<open>The span a visitor sees.\<close>

definition safe_view :: "nat \<Rightarrow> DataWrap \<Rightarrow> bytes" where
  "safe_view MaxDataSize msg = (let safe_len = min (dw_len msg) (of_nat MaxDataSize) in take (unat safe_len) (dw_data msg))"

section \<open>Writer\<close>

definition bqb_try_push_wts :: "nat \<Rightarrow> u64 \<Rightarrow> bytes \<Rightarrow> u64 \<Rightarrow> bytes_queue \<Rightarrow> bool \<times> bytes_queue" where
  "bqb_try_push_wts MaxDataSize Capacity payload ts q =
     (if length payload > MaxDataSize then (False, q)
      else try_produce Capacity (fill_slot payload ts) q)"

definition bqb_try_push :: "nat \<Rightarrow> u64 \<Rightarrow> bytes \<Rightarrow> bytes_queue \<Rightarrow> bool \<times> bytes_queue" where
  "bqb_try_push MaxDataSize Capacity payload q = bqb_try_push_wts MaxDataSize Capacity payload 0 q"

definition bqb_try_push_n_wts :: "nat \<Rightarrow> u64 \<Rightarrow> bytes list \<Rightarrow> u64 list \<Rightarrow> bytes_queue \<Rightarrow> bool \<times> bytes_queue" where
  "bqb_try_push_n_wts MaxDataSize Capacity payloads timestamps q =
     (if list_ex (\<lambda>p. length p > MaxDataSize) payloads then (False, q)
      else try_produce_n Capacity (length payloads) (\<lambda>i. fill_slot (payloads ! i) (timestamps ! i)) q)"

definition bqb_try_push_n :: "nat \<Rightarrow> u64 \<Rightarrow> bytes list \<Rightarrow> bytes_queue \<Rightarrow> bool \<times> bytes_queue" where
  "bqb_try_push_n MaxDataSize Capacity payloads q =
     (if list_ex (\<lambda>p. length p > MaxDataSize) payloads then (False, q)
      else try_produce_n Capacity (length payloads) (\<lambda>i. fill_slot (payloads ! i) 0) q)"

definition bqb_push_wts :: "(nat \<Rightarrow> bytes_queue \<Rightarrow> bytes_queue) \<Rightarrow> nat \<Rightarrow> u64 \<Rightarrow> bytes \<Rightarrow> u64 \<Rightarrow> bytes_queue \<Rightarrow> (bool \<times> bytes_queue) option" where
  "bqb_push_wts env MaxDataSize Capacity payload ts q =
     (if length payload > MaxDataSize then Some (False, q)
      else case bq_produce env Capacity (fill_slot payload ts) q of None \<Rightarrow> None | Some (_, q) \<Rightarrow> Some (True, q))"

definition bqb_try_push_wts_for ::
    "(nat \<Rightarrow> bytes_queue \<Rightarrow> bytes_queue) \<Rightarrow> (nat \<Rightarrow> bool) \<Rightarrow> nat \<Rightarrow> u64 \<Rightarrow> bytes \<Rightarrow> u64 \<Rightarrow> bytes_queue \<Rightarrow> (unit option \<times> bytes_queue) option" where
  "bqb_try_push_wts_for env before MaxDataSize Capacity payload ts q =
     (if length payload > MaxDataSize then Some (None, q)
      else try_produce_for env before Capacity (fill_slot payload ts) q)"

section \<open>Reader\<close>

definition bqb_try_consume_wts :: "nat \<Rightarrow> u64 \<Rightarrow> bytes_queue \<Rightarrow> (bytes \<times> u64) option \<times> bytes_queue" where
  "bqb_try_consume_wts MaxDataSize Capacity q =
     (let (r, q) = try_consume Capacity q in (map_option (\<lambda>msg. (safe_view MaxDataSize msg, dw_ts msg)) r, q))"

definition bqb_try_consume :: "nat \<Rightarrow> u64 \<Rightarrow> bytes_queue \<Rightarrow> bytes option \<times> bytes_queue" where
  "bqb_try_consume MaxDataSize Capacity q =
     (let (r, q) = try_consume Capacity q in (map_option (safe_view MaxDataSize) r, q))"

definition bqb_try_consume_n_wts :: "nat \<Rightarrow> u64 \<Rightarrow> nat \<Rightarrow> bytes_queue \<Rightarrow> (bytes \<times> u64) list \<times> bytes_queue" where
  "bqb_try_consume_n_wts MaxDataSize Capacity n q =
     (let (ms, q) = try_consume_n Capacity n q in (map (\<lambda>msg. (safe_view MaxDataSize msg, dw_ts msg)) ms, q))"

definition bqb_try_consume_n :: "nat \<Rightarrow> u64 \<Rightarrow> nat \<Rightarrow> bytes_queue \<Rightarrow> bytes list \<times> bytes_queue" where
  "bqb_try_consume_n MaxDataSize Capacity n q =
     (let (ms, q) = try_consume_n Capacity n q in (map (safe_view MaxDataSize) ms, q))"

definition bqb_try_peek_visit :: "nat \<Rightarrow> u64 \<Rightarrow> bytes_queue \<Rightarrow> bytes option \<times> bytes_queue" where
  "bqb_try_peek_visit MaxDataSize Capacity q =
     (let (r, q) = try_peek Capacity q in (map_option (safe_view MaxDataSize) r, q))"

text \<open>Copying into the caller's buffer of \<open>n\<close> bytes.\<close>

definition copy_out :: "nat \<Rightarrow> bytes \<Rightarrow> u32 \<times> bytes" where
  "copy_out n data = (let copy_len = min (min (length data) n) (2 ^ 32 - 1) in (of_nat copy_len, take copy_len data))"

definition bqb_try_pop_wts :: "nat \<Rightarrow> u64 \<Rightarrow> nat \<Rightarrow> bytes_queue \<Rightarrow> (u32 \<times> bytes \<times> u64) option \<times> bytes_queue" where
  "bqb_try_pop_wts MaxDataSize Capacity out_size q =
     (let (r, q) = bqb_try_consume_wts MaxDataSize Capacity q in
      (map_option (\<lambda>(data, ts). let (copy_len, out_buf) = copy_out out_size data in (copy_len, out_buf, ts)) r, q))"

definition bqb_try_pop :: "nat \<Rightarrow> u64 \<Rightarrow> nat \<Rightarrow> bytes_queue \<Rightarrow> (u32 \<times> bytes) option \<times> bytes_queue" where
  "bqb_try_pop MaxDataSize Capacity out_size q =
     (let (r, q) = bqb_try_consume MaxDataSize Capacity q in (map_option (copy_out out_size) r, q))"

section \<open>Messages in, messages out\<close>

definition bqb_inv :: "nat \<Rightarrow> u64 \<Rightarrow> bytes_queue \<Rightarrow> bool" where
  "bqb_inv MaxDataSize C q \<longleftrightarrow> MaxDataSize < 2 ^ 32 \<and> bq_inv C q \<and> list_all (\<lambda>m. length (dw_data m) = MaxDataSize) (bq_buffer q)"

definition bqb_messages :: "nat \<Rightarrow> u64 \<Rightarrow> bytes_queue \<Rightarrow> (bytes \<times> u64) list" where
  "bqb_messages MaxDataSize C q = map (\<lambda>m. (safe_view MaxDataSize m, dw_ts m)) (bq_contents C q)"

lemma fill_slot_view:
  assumes "length payload \<le> M" "M < 2 ^ 32" "length (dw_data slot) = M"
  shows "safe_view M (fill_slot payload ts slot) = payload" "dw_ts (fill_slot payload ts slot) = ts"
    "length (dw_data (fill_slot payload ts slot)) = M"
proof -
  have u: "unat (of_nat (length payload) :: u32) = length payload" "unat (of_nat M :: u32) = M"
    using assms(1,2) by (simp_all add: unat_of_nat)
  then have "min (of_nat (length payload)) (of_nat M) = (of_nat (length payload) :: u32)"
    using assms(1) by (simp add: min_def word_le_nat_alt)
  then show "safe_view M (fill_slot payload ts slot) = payload" using u by (simp add: safe_view_def fill_slot_def)
qed (use assms in \<open>simp_all add: fill_slot_def\<close>)

lemma try_produce_buffer:
  "try_produce C f q = (ok, q') \<Longrightarrow>
   bq_buffer q' = (if ok then (bq_buffer q)[ring_slot C (bq_tail q) := f (bq_buffer q ! ring_slot C (bq_tail q))] else bq_buffer q)"
  by (auto simp: try_produce_def Let_def split: if_splits)

lemma try_consume_buffer: "try_consume C q = (r, q') \<Longrightarrow> bq_buffer q' = bq_buffer q"
  by (auto simp: try_consume_def bq_refresh_def Let_def split: if_splits)

lemma bqb_push_law:
  assumes "bqb_inv M C q" "bqb_try_push_wts M C payload ts q = (ok, q')"
  shows "bqb_inv M C q'" "ok \<longleftrightarrow> length payload \<le> M \<and> length (bqb_messages M C q) < unat C"
    "bqb_messages M C q' = bqb_messages M C q @ (if ok then [(payload, ts)] else [])"
proof -
  have i: "M < 2 ^ 32" "bq_inv C q" "list_all (\<lambda>m. length (dw_data m) = M) (bq_buffer q)" using assms(1) by (auto simp: bqb_inv_def)
  have "bqb_inv M C q' \<and> (ok \<longleftrightarrow> length payload \<le> M \<and> length (bqb_messages M C q) < unat C) \<and>
    bqb_messages M C q' = bqb_messages M C q @ (if ok then [(payload, ts)] else [])"
  proof (cases "length payload \<le> M")
    case True
    let ?s = "bq_buffer q ! ring_slot C (bq_tail q)"
    have p: "try_produce C (fill_slot payload ts) q = (ok, q')" using assms(2) True by (simp add: bqb_try_push_wts_def)
    have "ring_slot C (bq_tail q) < length (bq_buffer q)" using i(2) by (simp add: bq_inv_def)
    then have s: "length (dw_data ?s) = M" using i(3) by (simp add: list_all_length)
    note f = fill_slot_view [OF True i(1) s, of ts]
    have "list_all (\<lambda>m. length (dw_data m) = M) (bq_buffer q')"
      using try_produce_buffer [OF p] i(3) f(3) by (auto simp: list_all_iff dest!: set_update_subset_insert [THEN subsetD])
    then show ?thesis using try_produce_law [OF i(2) p] i(1) f True by (auto simp: bqb_inv_def bqb_messages_def)
  next
    case False
    then show ?thesis using assms by (auto simp: bqb_try_push_wts_def)
  qed
  then show "bqb_inv M C q'" "ok \<longleftrightarrow> length payload \<le> M \<and> length (bqb_messages M C q) < unat C"
    "bqb_messages M C q' = bqb_messages M C q @ (if ok then [(payload, ts)] else [])" by auto
qed

lemma bqb_pop_law:
  assumes "bqb_inv M C q" "bqb_try_consume_wts M C q = (r, q')"
  shows "bqb_inv M C q'" "bqb_messages M C q = (case r of None \<Rightarrow> [] | Some m \<Rightarrow> [m]) @ bqb_messages M C q'"
    "r = None \<longleftrightarrow> bqb_messages M C q = []"
proof -
  obtain r0 q1 where c1: "try_consume C q = (r0, q1)" by (cases "try_consume C q")
  have q1: "q1 = q'" and r: "r = map_option (\<lambda>msg. (safe_view M msg, dw_ts msg)) r0"
    using assms(2) by (simp_all add: bqb_try_consume_wts_def c1)
  note c = c1 [unfolded q1]
  have i: "bq_inv C q" using assms(1) by (simp add: bqb_inv_def)
  note l = try_consume_law [OF i c]
  show "bqb_inv M C q'" using assms(1) l try_consume_buffer [OF c] by (simp add: bqb_inv_def)
  have "map f (bq_contents C q) = (case map_option f r0 of None \<Rightarrow> [] | Some m \<Rightarrow> [m]) @ map f (bq_contents C q')" for f
    using l by (cases r0) auto
  then show "bqb_messages M C q = (case r of None \<Rightarrow> [] | Some m \<Rightarrow> [m]) @ bqb_messages M C q'"
    unfolding bqb_messages_def r .
  show "r = None \<longleftrightarrow> bqb_messages M C q = []" using l by (simp add: bqb_messages_def r)
qed

text \<open>Pushes and pops in any order, with what the caller of each observes; a pop names the size of its buffer.\<close>

datatype bytes_op = PutMsg bytes u64 | GetMsg nat
datatype bytes_result = PutDone bool | GetDone "(u32 \<times> bytes \<times> u64) option"

fun bqb_call :: "nat \<Rightarrow> u64 \<Rightarrow> bytes_op \<Rightarrow> bytes_queue \<Rightarrow> bytes_result \<times> bytes_queue" where
  "bqb_call M C (PutMsg payload ts) q = (let (ok, q) = bqb_try_push_wts M C payload ts q in (PutDone ok, q))"
| "bqb_call M C (GetMsg out_size) q = (let (r, q) = bqb_try_pop_wts M C out_size q in (GetDone r, q))"

fun bqb_calls :: "nat \<Rightarrow> u64 \<Rightarrow> bytes_op list \<Rightarrow> bytes_queue \<Rightarrow> bytes_result list \<times> bytes_queue" where
  "bqb_calls M C [] q = ([], q)"
| "bqb_calls M C (p # ps) q = (let (r, q) = bqb_call M C p q; (rs, q) = bqb_calls M C ps q in (r # rs, q))"

text \<open>The specification: a list of at most \<open>cap\<close> messages of at most \<open>M\<close> bytes, each with its time stamp.\<close>

fun messages_call :: "nat \<Rightarrow> nat \<Rightarrow> bytes_op \<Rightarrow> (bytes \<times> u64) list \<Rightarrow> bytes_result \<times> (bytes \<times> u64) list" where
  "messages_call M cap (PutMsg payload ts) ms =
     (if length payload \<le> M \<and> length ms < cap then (PutDone True, ms @ [(payload, ts)]) else (PutDone False, ms))"
| "messages_call M cap (GetMsg n) [] = (GetDone None, [])"
| "messages_call M cap (GetMsg n) ((payload, ts) # ms) =
     (GetDone (Some (of_nat (min (length payload) n), take n payload, ts)), ms)"

fun messages_calls :: "nat \<Rightarrow> nat \<Rightarrow> bytes_op list \<Rightarrow> (bytes \<times> u64) list \<Rightarrow> bytes_result list \<times> (bytes \<times> u64) list" where
  "messages_calls M cap [] ms = ([], ms)"
| "messages_calls M cap (p # ps) ms =
     (let (r, ms) = messages_call M cap p ms; (rs, ms) = messages_calls M cap ps ms in (r # rs, ms))"

lemma safe_view_length: "M < 2 ^ 32 \<Longrightarrow> length (safe_view M msg) \<le> M"
proof -
  assume "M < 2 ^ 32"
  then have "unat (of_nat M :: u32) = M" by (simp add: unat_of_nat)
  then have "unat (min (dw_len msg) (of_nat M)) \<le> M" by (simp add: min_def word_le_nat_alt)
  then show ?thesis by (simp add: safe_view_def Let_def)
qed

lemma copy_out_eq: "length data < 2 ^ 32 \<Longrightarrow> copy_out n data = (of_nat (min (length data) n), take n data)"
  by (auto simp: copy_out_def Let_def min_def)

lemma bqb_call_refines:
  assumes "bqb_inv M C q" "bqb_call M C p q = (r, q')"
  shows "bqb_inv M C q' \<and> messages_call M (unat C) p (bqb_messages M C q) = (r, bqb_messages M C q')"
proof (cases p)
  case (PutMsg payload ts)
  obtain ok q1 where b: "bqb_try_push_wts M C payload ts q = (ok, q1)" by (cases "bqb_try_push_wts M C payload ts q")
  show ?thesis using bqb_push_law [OF assms(1) b] assms(2) b PutMsg by auto
next
  case (GetMsg n)
  obtain m q1 where c: "bqb_try_consume_wts M C q = (m, q1)" by (cases "bqb_try_consume_wts M C q")
  note l = bqb_pop_law [OF assms(1) c]
  have e: "q' = q1" "r = GetDone (map_option (\<lambda>(data, ts). let (k, out) = copy_out n data in (k, out, ts)) m)"
    using assms(2) c GetMsg by (auto simp: bqb_try_pop_wts_def)
  show ?thesis
  proof (cases m)
    case None
    then show ?thesis using l e GetMsg by simp
  next
    case (Some x)
    obtain data ts where x: "x = (data, ts)" by (cases x)
    then have ms: "bqb_messages M C q = (data, ts) # bqb_messages M C q1" using l(2) Some by simp
    then obtain d where "data = safe_view M d" by (auto simp: bqb_messages_def)
    then have "length data < 2 ^ 32" using safe_view_length [of M d] assms(1) by (simp add: bqb_inv_def)
    then show ?thesis using l(1) e ms Some x GetMsg by (simp add: copy_out_eq)
  qed
qed

lemma bqb_calls_refine:
  "bqb_inv M C q \<Longrightarrow> bqb_calls M C ps q = (rs, q') \<Longrightarrow>
   bqb_inv M C q' \<and> messages_calls M (unat C) ps (bqb_messages M C q) = (rs, bqb_messages M C q')"
proof (induction ps arbitrary: q rs q')
  case (Cons p ps)
  obtain r q1 where a: "bqb_call M C p q = (r, q1)" by (cases "bqb_call M C p q")
  obtain rs1 q2 where b: "bqb_calls M C ps q1 = (rs1, q2)" by (cases "bqb_calls M C ps q1")
  have "bqb_inv M C q1" "messages_call M (unat C) p (bqb_messages M C q) = (r, bqb_messages M C q1)"
    using bqb_call_refines [OF Cons.prems(1) a] by auto
  then show ?case using Cons.IH [OF _ b] Cons.prems(2) a b by auto
qed simp

text \<open>
  C17. The byte queue is a bounded queue of messages with time stamps, whatever its slots held before: for
  any sequence of pushes and pops, a push is accepted exactly when the message is no longer than the slot
  size and there is room; a pop into a buffer of \<open>n\<close> bytes returns the oldest message with its time stamp,
  byte for byte, cut to \<open>n\<close> bytes, and the number of bytes copied, and fails exactly when no message is held.
\<close>

theorem bytes_queue_round_trip:
  assumes "bqb_inv M C q" "bqb_calls M C ps q = (rs, q')"
  shows "bqb_inv M C q' \<and> messages_calls M (unat C) ps (bqb_messages M C q) = (rs, bqb_messages M C q')"
  by (rule bqb_calls_refine [OF assms])

theorem bytes_queue_round_trip_witness:
  "fst (bqb_calls 3 2 [PutMsg [1, 2] 7, PutMsg [1, 2, 3, 4] 8, PutMsg [5, 6, 7] 9, GetMsg 9, GetMsg 2, GetMsg 2]
     \<lparr>bq_tail = - 1, bq_shadow_head = - 1, bq_head = - 1, bq_shadow_tail = - 1,
      bq_buffer = [\<lparr>dw_ts = 0, dw_len = 3, dw_data = [9, 9, 9]\<rparr>, \<lparr>dw_ts = 0, dw_len = 1, dw_data = [8, 8, 8]\<rparr>]\<rparr>) =
   [PutDone True, PutDone False, PutDone True, GetDone (Some (2, [1, 2], 7)), GetDone (Some (2, [5, 6], 9)), GetDone None]"
proof -
  let ?q = "\<lparr>bq_tail = - 1, bq_shadow_head = - 1, bq_head = - 1, bq_shadow_tail = - 1,
      bq_buffer = [\<lparr>dw_ts = 0, dw_len = 3, dw_data = [9, 9, 9]\<rparr>, \<lparr>dw_ts = 0, dw_len = 1, dw_data = [8, 8, 8]\<rparr>]\<rparr>"
  let ?ps = "[PutMsg [1, 2] 7, PutMsg [1, 2, 3, 4] 8, PutMsg [5, 6, 7] 9, GetMsg 9, GetMsg 2, GetMsg 2]"
  have "pow2 2" by (auto simp: pow2_def intro: exI [of _ 1])
  then have i: "bqb_inv 3 2 ?q" by (simp add: bqb_inv_def bq_inv_def)
  have e: "bqb_messages 3 2 ?q = []" by (simp add: bqb_messages_def bq_contents_def)
  obtain rs q' where c: "bqb_calls 3 2 ?ps ?q = (rs, q')" by (cases "bqb_calls 3 2 ?ps ?q")
  show ?thesis using bytes_queue_round_trip [OF i c] unfolding e c by simp
qed

end
