(* ===== verification/Evicting_Queue.thy ===== *)
theory Evicting_Queue
  imports Bounded_Queue
begin

text \<open>
  The evicting queue of \<^verbatim>\<open>eph-containers/include/eph/containers/evicting_queue.hpp\<close>: a writer that
  never waits and a reader that takes the newest element under a sequence lock. The operations as
  functions, and the protocol between the two threads as a step relation in which an element is written
  and read cell by cell, so that a torn read is possible in the model if the protocol allows it. The
  steps are interleaved in one total order; the fences of the source are what makes that order exist.
\<close>

section \<open>Slot sequence numbers\<close>

definition encode_seq :: "u64 \<Rightarrow> bool \<Rightarrow> u64" where
  "encode_seq idx locked = push_bit 1 idx OR (if locked then 1 else 0)"

definition decode_idx :: "u64 \<Rightarrow> u64" where
  "decode_idx seq = drop_bit 1 seq"

definition is_locked :: "u64 \<Rightarrow> bool" where
  "is_locked seq = (seq AND 1 \<noteq> 0)"

lemma unat_encode_seq: "i < 2 ^ 63 \<Longrightarrow> unat (encode_seq (of_nat i) b) = 2 * i + (if b then 1 else 0)"
proof -
  assume i: "i < 2 ^ 63"
  have "encode_seq (of_nat i) b = of_nat (2 * i + (if b then 1 else 0))"
    by (simp add: encode_seq_def push_bit_eq_mult or_one_eq)
  moreover have "2 * i + (if b then 1 else 0) < 2 ^ 64" using i by simp
  ultimately show ?thesis by (simp only: unat_of_nat) simp
qed

lemma is_locked_odd: "is_locked s \<longleftrightarrow> odd (unat s)"
proof -
  have "s AND 1 \<noteq> 0 \<longleftrightarrow> unat (s mod 2) \<noteq> 0" by (simp only: and_one_eq unat_eq_0)
  then show ?thesis by (simp add: is_locked_def unat_mod odd_iff_mod_2_eq_one)
qed

lemma unat_decode_idx: "unat (decode_idx s) = unat s div 2"
  by (simp add: decode_idx_def drop_bit_eq_div unat_div)

section \<open>Operations\<close>

record 'a Slot =
  sl_seq :: u64
  sl_data :: 'a

record 'a EvictingQueue =
  global_index :: u64
  shadow_global_index :: u64
  last_global_index :: u64
  ev_slots :: "'a Slot list"

definition mk_EvictingQueue :: "u64 \<Rightarrow> 'a \<Rightarrow> 'a EvictingQueue" where
  "mk_EvictingQueue Capacity d = \<lparr>global_index = 0, shadow_global_index = 0, last_global_index = 0,
     ev_slots = replicate (unat Capacity) \<lparr>sl_seq = 0, sl_data = d\<rparr>\<rparr>"

definition ev_produce :: "u64 \<Rightarrow> ('a \<Rightarrow> 'a) \<Rightarrow> ('a, 'x) EvictingQueue_scheme \<Rightarrow> ('a, 'x) EvictingQueue_scheme" where
  "ev_produce Capacity writer_func q =
     (let current_idx = shadow_global_index q;
          next_idx = current_idx + 1;
          j = ring_slot Capacity next_idx;
          s = ev_slots q ! j;
          s = s\<lparr>sl_seq := encode_seq next_idx True\<rparr>;
          s = s\<lparr>sl_data := writer_func (sl_data s)\<rparr>;
          s = s\<lparr>sl_seq := encode_seq next_idx False\<rparr> in
      q\<lparr>ev_slots := (ev_slots q)[j := s], global_index := next_idx, shadow_global_index := next_idx\<rparr>)"

definition ev_push :: "u64 \<Rightarrow> 'a \<Rightarrow> ('a, 'x) EvictingQueue_scheme \<Rightarrow> ('a, 'x) EvictingQueue_scheme" where
  "ev_push Capacity val q = ev_produce Capacity (\<lambda>slot. val) q"

primrec ev_produce_n_upto :: "u64 \<Rightarrow> (nat \<Rightarrow> 'a \<Rightarrow> 'a) \<Rightarrow> nat \<Rightarrow> ('a, 'x) EvictingQueue_scheme \<Rightarrow> ('a, 'x) EvictingQueue_scheme" where
  "ev_produce_n_upto Capacity visitor 0 q = q"
| "ev_produce_n_upto Capacity visitor (Suc i) q = ev_produce Capacity (visitor i) (ev_produce_n_upto Capacity visitor i q)"

definition ev_push_n :: "u64 \<Rightarrow> 'a list \<Rightarrow> ('a, 'x) EvictingQueue_scheme \<Rightarrow> ('a, 'x) EvictingQueue_scheme" where
  "ev_push_n Capacity items q = ev_produce_n_upto Capacity (\<lambda>i slot. items ! i) (length items) q"

text \<open>The optimistic read; run alone, both readings of the sequence number agree.\<close>

definition ev_read_latest :: "u64 \<Rightarrow> ('a, 'x) EvictingQueue_scheme \<Rightarrow> (u64 \<times> 'a) option" where
  "ev_read_latest Capacity q =
     (let idx = global_index q; last_read = last_global_index q in
      if idx \<le> last_read then None
      else
        let s = ev_slots q ! ring_slot Capacity idx; seq1 = sl_seq s in
        if is_locked seq1 then None
        else
          let actual_idx = decode_idx seq1 in
          if actual_idx \<le> last_read then None
          else
            let data = sl_data s; seq2 = sl_seq s in
            if seq1 = seq2 then Some (actual_idx, data) else None)"

definition try_consume_latest :: "u64 \<Rightarrow> ('a, 'x) EvictingQueue_scheme \<Rightarrow> 'a option \<times> ('a, 'x) EvictingQueue_scheme" where
  "try_consume_latest Capacity q =
     (case ev_read_latest Capacity q of
        None \<Rightarrow> (None, q)
      | Some (actual_idx, data) \<Rightarrow> (Some data, q\<lparr>last_global_index := actual_idx\<rparr>))"

definition try_peek_latest :: "u64 \<Rightarrow> ('a, 'x) EvictingQueue_scheme \<Rightarrow> 'a option" where
  "try_peek_latest Capacity q = map_option snd (ev_read_latest Capacity q)"

definition ev_consume_latest where
  "ev_consume_latest env Capacity q = spin env (try_consume_latest Capacity) 0 q"

definition try_consume_latest_for where
  "try_consume_latest_for env before Capacity q = spin_for env before (try_consume_latest Capacity) q"

definition ev_clear :: "('a, 'x) EvictingQueue_scheme \<Rightarrow> ('a, 'x) EvictingQueue_scheme" where
  "ev_clear q = q\<lparr>last_global_index := global_index q\<rparr>"

definition size_approx :: "u64 \<Rightarrow> ('a, 'x) EvictingQueue_scheme \<Rightarrow> u64" where
  "size_approx Capacity q =
     (let written = global_index q; read = last_global_index q;
          pending = (if written \<ge> read then written - read else 0) in
      min pending Capacity)"

definition ev_empty :: "u64 \<Rightarrow> ('a, 'x) EvictingQueue_scheme \<Rightarrow> bool" where
  "ev_empty Capacity q = (size_approx Capacity q = 0)"

definition ev_full :: "u64 \<Rightarrow> ('a, 'x) EvictingQueue_scheme \<Rightarrow> bool" where
  "ev_full Capacity q = (size_approx Capacity q \<ge> Capacity)"

definition write_count :: "('a, 'x) EvictingQueue_scheme \<Rightarrow> u64" where
  "write_count q = global_index q"

definition overwrite_count_approx :: "u64 \<Rightarrow> ('a, 'x) EvictingQueue_scheme \<Rightarrow> u64" where
  "overwrite_count_approx Capacity q =
     (let written = global_index q; read = last_global_index q in
      if written \<le> read + Capacity then 0 else written - read - Capacity)"

definition read_count :: "('a, 'x) EvictingQueue_scheme \<Rightarrow> u64" where
  "read_count q = last_global_index q"

record EvictingQueueStats =
  ev_total_pushed :: u64
  ev_total_popped :: u64
  ev_overwritten :: u64
  ev_current_size :: u64
  ev_capacity :: u64

definition ev_stats :: "u64 \<Rightarrow> ('a, 'x) EvictingQueue_scheme \<Rightarrow> EvictingQueueStats" where
  "ev_stats Capacity q =
     (let written = global_index q; read = last_global_index q;
          pending = (if written \<ge> read then written - read else 0);
          cur_sz = min pending Capacity;
          overwritten = (if written > read + Capacity then written - read - Capacity else 0) in
      \<lparr>ev_total_pushed = written, ev_total_popped = read, ev_overwritten = overwritten,
       ev_current_size = cur_sz, ev_capacity = Capacity\<rparr>)"

definition ev_stats_minus :: "EvictingQueueStats \<Rightarrow> EvictingQueueStats \<Rightarrow> EvictingQueueStats" where
  "ev_stats_minus lhs rhs =
     (let sub = (\<lambda>a b :: u64. if a \<ge> b then a - b else 0) in
      \<lparr>ev_total_pushed = sub (ev_total_pushed lhs) (ev_total_pushed rhs),
       ev_total_popped = sub (ev_total_popped lhs) (ev_total_popped rhs),
       ev_overwritten = sub (ev_overwritten lhs) (ev_overwritten rhs),
       ev_current_size = ev_current_size lhs, ev_capacity = ev_capacity lhs\<rparr>)"

section \<open>Two threads\<close>

text \<open>
  Elements are lists of \<open>N\<close> cells. The writer locks the slot, writes the cells, unlocks and publishes;
  the reader loads the index, the sequence number, the cells, and the sequence number again.
  \<open>el_hist\<close> records the elements in the order they were unlocked, \<open>el_got\<close> what successful reads
  returned, with their index.
\<close>

datatype 'c el_wpc = LIdle | LData "'c list" nat | LPublish

datatype 'c el_rpc = ERIdle | ERSeq u64 | ERData nat u64 "'c list"

record 'c el_state = "'c list EvictingQueue" +
  el_wpc :: "'c el_wpc"
  el_rpc :: "'c el_rpc"
  el_hist :: "'c list list"
  el_got :: "(u64 \<times> 'c list) list"

abbreviation next_slot :: "u64 \<Rightarrow> 'c el_state \<Rightarrow> nat" where
  "next_slot C s \<equiv> ring_slot C (shadow_global_index s + 1)"

definition upd_slot :: "nat \<Rightarrow> ('a Slot \<Rightarrow> 'a Slot) \<Rightarrow> ('a, 'x) EvictingQueue_scheme \<Rightarrow> ('a, 'x) EvictingQueue_scheme" where
  "upd_slot j f q = q\<lparr>ev_slots := (ev_slots q)[j := f (ev_slots q ! j)]\<rparr>"

inductive el_step :: "u64 \<Rightarrow> nat \<Rightarrow> 'c el_state \<Rightarrow> 'c el_state \<Rightarrow> bool" for C :: u64 and N :: nat where
  w_lock: "el_wpc s = LIdle \<Longrightarrow> length v = N \<Longrightarrow>
    el_step C N s ((upd_slot (next_slot C s) (sl_seq_update (\<lambda>_. encode_seq (shadow_global_index s + 1) True)) s)\<lparr>el_wpc := LData v 0\<rparr>)"
| w_cell: "el_wpc s = LData v k \<Longrightarrow> k < N \<Longrightarrow>
    el_step C N s ((upd_slot (next_slot C s) (sl_data_update (\<lambda>d. d[k := v ! k])) s)\<lparr>el_wpc := LData v (Suc k)\<rparr>)"
| w_unlock: "el_wpc s = LData v N \<Longrightarrow>
    el_step C N s ((upd_slot (next_slot C s) (sl_seq_update (\<lambda>_. encode_seq (shadow_global_index s + 1) False)) s)
      \<lparr>el_wpc := LPublish, el_hist := el_hist s @ [v]\<rparr>)"
| w_publish: "el_wpc s = LPublish \<Longrightarrow>
    el_step C N s (s\<lparr>global_index := shadow_global_index s + 1, shadow_global_index := shadow_global_index s + 1, el_wpc := LIdle\<rparr>)"
| r_index: "el_rpc s = ERIdle \<Longrightarrow>
    el_step C N s (s\<lparr>el_rpc := (if global_index s \<le> last_global_index s then ERIdle else ERSeq (global_index s))\<rparr>)"
| r_seq: "el_rpc s = ERSeq idx \<Longrightarrow> j = ring_slot C idx \<Longrightarrow> seq1 = sl_seq (ev_slots s ! j) \<Longrightarrow>
    el_step C N s (s\<lparr>el_rpc := (if is_locked seq1 \<or> decode_idx seq1 \<le> last_global_index s then ERIdle else ERData j seq1 [])\<rparr>)"
| r_cell: "el_rpc s = ERData j seq1 acc \<Longrightarrow> length acc < N \<Longrightarrow>
    el_step C N s (s\<lparr>el_rpc := ERData j seq1 (acc @ [sl_data (ev_slots s ! j) ! length acc])\<rparr>)"
| r_check: "el_rpc s = ERData j seq1 acc \<Longrightarrow> length acc = N \<Longrightarrow>
    el_step C N s (if sl_seq (ev_slots s ! j) = seq1
      then s\<lparr>last_global_index := decode_idx seq1, el_rpc := ERIdle, el_got := el_got s @ [(decode_idx seq1, acc)]\<rparr>
      else s\<lparr>el_rpc := ERIdle\<rparr>)"

text \<open>A slot nobody is writing holds the element its sequence number names.\<close>

definition slot_ok :: "nat \<Rightarrow> 'c list list \<Rightarrow> 'c list Slot \<Rightarrow> bool" where
  "slot_ok N hist sl \<longleftrightarrow> length (sl_data sl) = N \<and>
     (\<exists>i \<le> length hist. sl_seq sl = encode_seq (of_nat i) False \<and> (0 < i \<longrightarrow> sl_data sl = hist ! (i - 1)))"

definition slot_locked :: "nat \<Rightarrow> 'c list list \<Rightarrow> 'c list \<Rightarrow> nat \<Rightarrow> 'c list Slot \<Rightarrow> bool" where
  "slot_locked N hist v k sl \<longleftrightarrow> length (sl_data sl) = N \<and> sl_seq sl = encode_seq (of_nat (length hist + 1)) True \<and>
     take k (sl_data sl) = take k v"

definition el_slots_ok :: "u64 \<Rightarrow> nat \<Rightarrow> 'c el_state \<Rightarrow> bool" where
  "el_slots_ok C N s \<longleftrightarrow> (\<forall>j < unat C.
     case el_wpc s of
       LData v k \<Rightarrow> if j = next_slot C s then slot_locked N (el_hist s) v k (ev_slots s ! j) else slot_ok N (el_hist s) (ev_slots s ! j)
     | _ \<Rightarrow> slot_ok N (el_hist s) (ev_slots s ! j))"

definition el_writer_ok :: "u64 \<Rightarrow> nat \<Rightarrow> 'c el_state \<Rightarrow> bool" where
  "el_writer_ok C N s \<longleftrightarrow> pow2 C \<and> length (ev_slots s) = unat C \<and> global_index s = shadow_global_index s \<and>
     (case el_wpc s of
        LPublish \<Rightarrow> shadow_global_index s + 1 = of_nat (length (el_hist s))
      | LData v k \<Rightarrow> shadow_global_index s = of_nat (length (el_hist s)) \<and> length v = N \<and> k \<le> N
      | LIdle \<Rightarrow> shadow_global_index s = of_nat (length (el_hist s)))"

text \<open>
  A read in progress started from an unlocked slot; while the slot still carries the same sequence
  number, what has been read is a prefix of that element, and once it has changed it is larger for good.
\<close>

definition el_reader_ok :: "u64 \<Rightarrow> nat \<Rightarrow> 'c el_state \<Rightarrow> bool" where
  "el_reader_ok C N s \<longleftrightarrow> (case el_rpc s of
     ERData j seq1 acc \<Rightarrow> j < unat C \<and> length acc \<le> N \<and>
       (\<exists>i. 0 < i \<and> i \<le> length (el_hist s) \<and> seq1 = encode_seq (of_nat i) False \<and> unat (last_global_index s) < i \<and>
         2 * i \<le> unat (sl_seq (ev_slots s ! j)) \<and>
         (sl_seq (ev_slots s ! j) = seq1 \<longrightarrow> acc = take (length acc) (el_hist s ! (i - 1))))
   | _ \<Rightarrow> True)"

definition el_got_ok :: "'c el_state \<Rightarrow> bool" where
  "el_got_ok s \<longleftrightarrow>
     (\<forall>(i, v) \<in> set (el_got s). 0 < unat i \<and> unat i \<le> length (el_hist s) \<and> el_hist s ! (unat i - 1) = v \<and> i \<le> last_global_index s) \<and>
     sorted_wrt (<) (map fst (el_got s))"

definition el_inv :: "u64 \<Rightarrow> nat \<Rightarrow> 'c el_state \<Rightarrow> bool" where
  "el_inv C N s \<longleftrightarrow> el_writer_ok C N s \<and> el_slots_ok C N s \<and> el_reader_ok C N s \<and> el_got_ok s"

abbreviation el_bound :: "'c el_state \<Rightarrow> bool" where
  "el_bound s \<equiv> length (el_hist s) + 1 < 2 ^ 63"

lemma upd_slot_sel [simp]:
  "ev_slots (upd_slot j f q) = (ev_slots q)[j := f (ev_slots q ! j)]"
  "global_index (upd_slot j f q) = global_index q" "shadow_global_index (upd_slot j f q) = shadow_global_index q"
  "last_global_index (upd_slot j f q) = last_global_index q"
  by (simp_all add: upd_slot_def)

lemma upd_slot_el [simp]:
  "el_wpc (upd_slot j f s) = el_wpc s" "el_rpc (upd_slot j f s) = el_rpc s"
  "el_hist (upd_slot j f s) = el_hist s" "el_got (upd_slot j f s) = el_got s" for s :: "'c el_state"
  by (simp_all add: upd_slot_def)

lemma slot_ok_seq:
  assumes "slot_ok N hist sl" "length hist < 2 ^ 63"
  shows "\<exists>i \<le> length hist. unat (sl_seq sl) = 2 * i \<and> (0 < i \<longrightarrow> sl_data sl = hist ! (i - 1))"
proof -
  obtain i where i: "i \<le> length hist" "sl_seq sl = encode_seq (of_nat i) False" "0 < i \<longrightarrow> sl_data sl = hist ! (i - 1)"
    using assms(1) by (auto simp: slot_ok_def)
  moreover have "unat (sl_seq sl) = 2 * i" using i(1,2) assms(2) unat_encode_seq [of i False] by simp
  ultimately show ?thesis by blast
qed

lemma slot_ok_append: "slot_ok N hist sl \<Longrightarrow> slot_ok N (hist @ [v]) sl"
  unfolding slot_ok_def
proof (elim conjE exE, intro conjI)
  fix i assume "i \<le> length hist" "sl_seq sl = encode_seq (of_nat i) False" "0 < i \<longrightarrow> sl_data sl = hist ! (i - 1)"
  then show "\<exists>i \<le> length (hist @ [v]). sl_seq sl = encode_seq (of_nat i) False \<and> (0 < i \<longrightarrow> sl_data sl = (hist @ [v]) ! (i - 1))"
    by (intro exI [of _ i]) (auto simp: nth_append)
qed

lemma slot_cases:
  assumes "el_slots_ok C N s" "j < unat C"
  obtains "slot_ok N (el_hist s) (ev_slots s ! j)" "\<And>v k. el_wpc s = LData v k \<Longrightarrow> j \<noteq> next_slot C s"
    | v k where "el_wpc s = LData v k" "j = next_slot C s" "slot_locked N (el_hist s) v k (ev_slots s ! j)"
  using assms unfolding el_slots_ok_def by (cases "el_wpc s") (auto split: if_splits)

text \<open>A slot with the sequence number of element \<open>i\<close> holds element \<open>i\<close>.\<close>

lemma slot_unlocked_data:
  assumes "el_slots_ok C N s" "j < unat C" "el_bound s" "even (unat (sl_seq (ev_slots s ! j)))"
  shows "slot_ok N (el_hist s) (ev_slots s ! j)"
proof (rule slot_cases [OF assms(1,2)])
  fix v k assume "slot_locked N (el_hist s) v k (ev_slots s ! j)"
  then have "unat (sl_seq (ev_slots s ! j)) = 2 * (length (el_hist s) + 1) + 1"
    using unat_encode_seq [of "length (el_hist s) + 1" True] assms(3) by (simp add: slot_locked_def)
  then show ?thesis using assms(4) by simp
qed

lemma slot_read:
  assumes "el_slots_ok C N s" "j < unat C" "el_bound s" "0 < i" "i \<le> length (el_hist s)"
    and "sl_seq (ev_slots s ! j) = encode_seq (of_nat i) False"
  shows "sl_data (ev_slots s ! j) = el_hist s ! (i - 1)" "length (el_hist s ! (i - 1)) = N"
proof -
  have u: "unat (sl_seq (ev_slots s ! j)) = 2 * i" using assms(3,5,6) unat_encode_seq [of i False] by simp
  then have ok: "slot_ok N (el_hist s) (ev_slots s ! j)" by (intro slot_unlocked_data [OF assms(1-3)]) simp
  with slot_ok_seq [OF ok] u assms(3,4) show "sl_data (ev_slots s ! j) = el_hist s ! (i - 1)" by auto
  with ok show "length (el_hist s ! (i - 1)) = N" by (simp add: slot_ok_def)
qed

lemma seq1_neq:
  assumes "i \<le> h" "h + 1 < 2 ^ 63"
  shows "encode_seq (of_nat (h + 1)) b \<noteq> encode_seq (of_nat i) False" "2 * i \<le> unat (encode_seq (of_nat (h + 1)) b)"
proof -
  have "unat (encode_seq (of_nat (h + 1)) b) = 2 * (h + 1) + (if b then 1 else 0)" by (rule unat_encode_seq [OF assms(2)])
  moreover have "unat (encode_seq (of_nat i) False) = 2 * i" using unat_encode_seq [of i False] assms by simp
  ultimately show "encode_seq (of_nat (h + 1)) b \<noteq> encode_seq (of_nat i) False" "2 * i \<le> unat (encode_seq (of_nat (h + 1)) b)"
    using assms(1) by (auto split: if_splits)
qed

text \<open>Changing the writer's slot to a newer sequence number keeps the reader's invariant.\<close>

lemma reader_ok_newer:
  assumes "el_reader_ok C N s" "length (el_hist s) + 1 < 2 ^ 63" "length (ev_slots s) = unat C"
    and "ev_slots s' = (ev_slots s)[jw := sl]" "sl_seq sl = encode_seq (of_nat (length (el_hist s) + 1)) b"
    and "el_rpc s' = el_rpc s" "last_global_index s' = last_global_index s" "el_hist s' = el_hist s @ vs"
  shows "el_reader_ok C N s'"
proof (cases "el_rpc s")
  case (ERData j seq1 acc)
  then obtain i where i: "j < unat C" "length acc \<le> N" "0 < i" "i \<le> length (el_hist s)" "seq1 = encode_seq (of_nat i) False"
      "unat (last_global_index s) < i" "2 * i \<le> unat (sl_seq (ev_slots s ! j))"
      "sl_seq (ev_slots s ! j) = seq1 \<longrightarrow> acc = take (length acc) (el_hist s ! (i - 1))"
    using assms(1) by (auto simp: el_reader_ok_def)
  note n = seq1_neq [OF i(4) assms(2), of b]
  have h: "el_hist s' ! (i - 1) = el_hist s ! (i - 1)" using i(3,4) assms(8) by (auto simp: nth_append)
  have sl: "ev_slots s' ! j = (if j = jw then sl else ev_slots s ! j)" using i(1) assms(3,4) by (simp add: nth_list_update)
  show ?thesis unfolding el_reader_ok_def assms(6) ERData el_rpc.case
    by (intro conjI exI [of _ i]) (use i n assms(5,7,8) h sl in auto)
qed (use assms(6) in \<open>simp_all add: el_reader_ok_def\<close>)

lemma reader_ok_same:
  assumes "el_reader_ok C N s" "el_rpc s' = el_rpc s" "last_global_index s' = last_global_index s" "el_hist s' = el_hist s"
    and "\<And>j. sl_seq (ev_slots s' ! j) = sl_seq (ev_slots s ! j)"
  shows "el_reader_ok C N s'"
  using assms(1) by (cases "el_rpc s") (simp_all add: el_reader_ok_def assms(2-5))

lemmas el_defs = el_inv_def el_writer_ok_def

lemma el_step_hist: "el_step C N s s' \<Longrightarrow> \<exists>vs. el_hist s' = el_hist s @ vs"
  by (induction rule: el_step.induct) auto

lemma el_step_writer: "el_step C N s s' \<Longrightarrow> el_writer_ok C N s \<Longrightarrow> el_writer_ok C N s'"
  by (induction rule: el_step.induct) (auto simp: el_writer_ok_def split: el_wpc.splits)

lemma slots_ok_others:
  assumes "el_slots_ok C N s" "j < unat C" "j \<noteq> next_slot C s"
  shows "slot_ok N (el_hist s) (ev_slots s ! j)"
  using assms unfolding el_slots_ok_def by (cases "el_wpc s") auto

lemma slots_ok_idle:
  assumes "el_slots_ok C N s" "j < unat C" "\<And>v k. el_wpc s \<noteq> LData v k"
  shows "slot_ok N (el_hist s) (ev_slots s ! j)"
  using assms unfolding el_slots_ok_def by (cases "el_wpc s") auto

lemma el_step_slots:
  assumes "el_step C N s s'" "el_writer_ok C N s" "el_slots_ok C N s"
  shows "el_slots_ok C N s'"
  using assms
proof (induction rule: el_step.induct)
  case (w_lock s v)
  have W: "pow2 C" "length (ev_slots s) = unat C" "shadow_global_index s = of_nat (length (el_hist s))"
    using w_lock by (auto simp: el_writer_ok_def)
  have d: "length (sl_data (ev_slots s ! next_slot C s)) = N"
    using slots_ok_idle [OF w_lock(4), of "next_slot C s"] w_lock(1) W(1) by (simp add: slot_ok_def)
  show ?case unfolding el_slots_ok_def
    using W d slots_ok_others [OF w_lock(4)] by (auto simp: slot_locked_def nth_list_update ac_simps)
next
  case (w_cell s v k)
  have W: "pow2 C" "length (ev_slots s) = unat C" "length v = N" using w_cell by (auto simp: el_writer_ok_def)
  have "slot_locked N (el_hist s) v k (ev_slots s ! next_slot C s)"
    using w_cell W(1) by (auto simp: el_slots_ok_def)
  then have "slot_locked N (el_hist s) v (Suc k) (sl_data_update (\<lambda>d. d[k := v ! k]) (ev_slots s ! next_slot C s))"
    using w_cell(2) W(3) by (auto simp: slot_locked_def take_Suc_conv_app_nth)
  then show ?case unfolding el_slots_ok_def
    using W slots_ok_others [OF w_cell(4)] by (auto simp: nth_list_update)
next
  case (w_unlock s v)
  have W: "pow2 C" "length (ev_slots s) = unat C" "length v = N" "shadow_global_index s = of_nat (length (el_hist s))"
    using w_unlock by (auto simp: el_writer_ok_def)
  have l: "slot_locked N (el_hist s) v N (ev_slots s ! next_slot C s)"
    using w_unlock W(1) by (auto simp: el_slots_ok_def)
  have "slot_ok N (el_hist s @ [v]) (sl_seq_update (\<lambda>_. encode_seq (shadow_global_index s + 1) False) (ev_slots s ! next_slot C s))"
    using l W(3,4) unfolding slot_ok_def slot_locked_def
    by (intro conjI exI [of _ "length (el_hist s) + 1"]) (auto simp: ac_simps)
  then show ?case unfolding el_slots_ok_def
    using W slots_ok_others [OF w_unlock(3), THEN slot_ok_append] by (auto simp: nth_list_update)
next
  case (w_publish s)
  then show ?case by (auto simp: el_slots_ok_def)
qed (auto simp: el_slots_ok_def split: el_wpc.splits)

lemma el_step_reader:
  assumes "el_step C N s s'" "el_inv C N s" "el_bound s"
  shows "el_reader_ok C N s'"
  using assms
proof (induction rule: el_step.induct)
  case (w_lock s v)
  then have W: "length (ev_slots s) = unat C" "shadow_global_index s = of_nat (length (el_hist s))" "el_reader_ok C N s"
    by (auto simp: el_defs)
  show ?case by (rule reader_ok_newer [OF W(3) w_lock(4) W(1), where b = True and vs = "[]" and jw = "next_slot C s"
      and sl = "sl_seq_update (\<lambda>_. encode_seq (shadow_global_index s + 1) True) (ev_slots s ! next_slot C s)"]) (use W(2) in \<open>simp_all add: ac_simps\<close>)
next
  case (w_cell s v k)
  then have W: "el_reader_ok C N s" by (simp add: el_inv_def)
  have "sl_seq ((ev_slots s)[next_slot C s := sl_data_update f (ev_slots s ! next_slot C s)] ! j) = sl_seq (ev_slots s ! j)" for j f
    by (cases "j = next_slot C s"; cases "j < length (ev_slots s)") (auto simp: nth_list_update list_update_beyond)
  then show ?case by (intro reader_ok_same [OF W]) simp_all
next
  case (w_unlock s v)
  then have W: "length (ev_slots s) = unat C" "shadow_global_index s = of_nat (length (el_hist s))" "el_reader_ok C N s"
    by (auto simp: el_defs)
  show ?case by (rule reader_ok_newer [OF W(3) w_unlock(3) W(1), where b = False and vs = "[v]" and jw = "next_slot C s"
      and sl = "sl_seq_update (\<lambda>_. encode_seq (shadow_global_index s + 1) False) (ev_slots s ! next_slot C s)"]) (use W(2) in \<open>simp_all add: ac_simps\<close>)
next
  case (w_publish s)
  then have "el_reader_ok C N s" by (simp add: el_inv_def)
  then show ?case by (rule reader_ok_same) simp_all
next
  case (r_seq s idx j seq1)
  have I: "pow2 C" "el_slots_ok C N s" using r_seq by (auto simp: el_defs)
  show ?case
  proof (cases "is_locked seq1 \<or> decode_idx seq1 \<le> last_global_index s")
    case False
    have j: "j < unat C" using r_seq(2) I(1) by simp
    have ok: "slot_ok N (el_hist s) (ev_slots s ! j)"
      by (rule slot_unlocked_data [OF I(2) j r_seq(5)]) (use False r_seq(3) in \<open>simp add: is_locked_odd\<close>)
    then obtain i where i: "i \<le> length (el_hist s)" "seq1 = encode_seq (of_nat i) False" using r_seq(3) by (auto simp: slot_ok_def)
    have u: "unat seq1 = 2 * i" using i r_seq(5) unat_encode_seq [of i False] by simp
    have "unat (last_global_index s) < i" using False u by (simp add: word_le_nat_alt unat_decode_idx)
    then show ?thesis using False i u j r_seq(3) by (auto simp: el_reader_ok_def intro!: exI [of _ i])
  qed (simp add: el_reader_ok_def)
next
  case (r_cell s j seq1 acc)
  have I: "el_slots_ok C N s" "el_reader_ok C N s" using r_cell by (auto simp: el_inv_def)
  obtain i where i: "j < unat C" "0 < i" "i \<le> length (el_hist s)" "seq1 = encode_seq (of_nat i) False"
      "unat (last_global_index s) < i" "2 * i \<le> unat (sl_seq (ev_slots s ! j))"
      "sl_seq (ev_slots s ! j) = seq1 \<longrightarrow> acc = take (length acc) (el_hist s ! (i - 1))"
    using I(2) r_cell(1) by (auto simp: el_reader_ok_def)
  have "acc @ [sl_data (ev_slots s ! j) ! length acc] = take (Suc (length acc)) (el_hist s ! (i - 1))"
    if "sl_seq (ev_slots s ! j) = seq1"
    using slot_read [OF I(1) i(1) r_cell(4) i(2,3)] that i(4,7) r_cell(2) by (simp add: take_Suc_conv_app_nth)
  then have "\<exists>i. 0 < i \<and> i \<le> length (el_hist s) \<and> seq1 = encode_seq (of_nat i) False \<and> unat (last_global_index s) < i \<and>
         2 * i \<le> unat (sl_seq (ev_slots s ! j)) \<and> (sl_seq (ev_slots s ! j) = seq1 \<longrightarrow>
           acc @ [sl_data (ev_slots s ! j) ! length acc] = take (Suc (length acc)) (el_hist s ! (i - 1)))"
    using i(2-6) by blast
  then show ?case unfolding el_reader_ok_def using i(1) r_cell(2) by simp
qed (auto simp: el_reader_ok_def)

lemma got_ok_hist:
  assumes "el_got_ok s" "el_got s' = el_got s" "last_global_index s' = last_global_index s" "el_hist s' = el_hist s @ vs"
  shows "el_got_ok s'"
proof -
  have "0 < unat i \<and> unat i \<le> length (el_hist s') \<and> el_hist s' ! (unat i - 1) = v \<and> i \<le> last_global_index s'"
    if "(i, v) \<in> set (el_got s)" for i v
  proof -
    have "0 < unat i" "unat i \<le> length (el_hist s)" "el_hist s ! (unat i - 1) = v" "i \<le> last_global_index s"
      using assms(1) that by (auto simp: el_got_ok_def)
    moreover from this have "unat i - 1 < length (el_hist s)" by linarith
    ultimately show ?thesis using assms(3,4) by (simp add: nth_append)
  qed
  moreover have "sorted_wrt (<) (map fst (el_got s))" using assms(1) by (simp add: el_got_ok_def)
  ultimately show ?thesis using assms(2) by (auto simp: el_got_ok_def)
qed

lemma el_step_got:
  assumes "el_step C N s s'" "el_inv C N s" "el_bound s"
  shows "el_got_ok s'"
  using assms
proof (induction rule: el_step.induct)
  case (r_check s j seq1 acc)
  have I: "el_slots_ok C N s" "el_reader_ok C N s" "el_got_ok s" using r_check by (auto simp: el_inv_def)
  show ?case
  proof (cases "sl_seq (ev_slots s ! j) = seq1")
    case True
    obtain i where i: "j < unat C" "0 < i" "i \<le> length (el_hist s)" "seq1 = encode_seq (of_nat i) False"
        "unat (last_global_index s) < i" "acc = take (length acc) (el_hist s ! (i - 1))"
      using I(2) r_check(1) True by (auto simp: el_reader_ok_def)
    have acc: "acc = el_hist s ! (i - 1)"
      using slot_read [OF I(1) i(1) r_check(4) i(2,3)] True i(4,6) r_check(2) by simp
    have u: "unat (decode_idx seq1) = i" using i(3,4) r_check(4) unat_encode_seq [of i False] by (simp add: unat_decode_idx)
    have lt: "last_global_index s < decode_idx seq1" using i(5) u by (simp add: word_less_nat_alt)
    have "x < decode_idx seq1" if "(x, v) \<in> set (el_got s)" for x v
      using I(3) that lt by (auto simp: el_got_ok_def)
    then show ?thesis using I(3) True acc u i(2,3) lt
      by (auto simp: el_got_ok_def sorted_wrt_append less_imp_le)
  next
    case False
    with I(3) show ?thesis by (auto simp: el_got_ok_def)
  qed
next
  case (w_unlock s v)
  then have "el_got_ok s" by (simp add: el_inv_def)
  then show ?case by (rule got_ok_hist [where vs = "[v]"]) simp_all
qed (simp_all add: el_inv_def el_got_ok_def)

lemma el_step_inv: "el_step C N s s' \<Longrightarrow> el_inv C N s \<Longrightarrow> el_bound s \<Longrightarrow> el_inv C N s'"
  using el_step_writer [of C N s s'] el_step_slots [of C N s s'] el_step_reader [of C N s s'] el_step_got [of C N s s']
  by (simp add: el_inv_def)

lemma el_steps_inv:
  "(el_step C N)\<^sup>*\<^sup>* s s' \<Longrightarrow> el_inv C N s \<Longrightarrow> el_bound s' \<Longrightarrow> el_inv C N s'"
proof (induction rule: rtranclp_induct)
  case (step t u)
  then have "length (el_hist t) \<le> length (el_hist u)" using el_step_hist by fastforce
  with step show ?case using el_step_inv [of C N t u] by simp
qed simp

definition el_start :: "u64 \<Rightarrow> nat \<Rightarrow> 'c list \<Rightarrow> 'c el_state" where
  "el_start C N d = EvictingQueue.extend (mk_EvictingQueue C d) \<lparr>el_wpc = LIdle, el_rpc = ERIdle, el_hist = [], el_got = []\<rparr>"

lemma el_start_inv: "pow2 C \<Longrightarrow> length d = N \<Longrightarrow> el_inv C N (el_start C N d)"
  by (simp add: el_inv_def el_writer_ok_def el_slots_ok_def el_reader_ok_def el_got_ok_def slot_ok_def
      el_start_def mk_EvictingQueue_def EvictingQueue.defs encode_seq_def)

text \<open>Run alone, the steps of the writer are \<open>push\<close> and those of the reader \<open>try_consume_latest\<close>.\<close>

lemma el_same: "el_wpc s = x \<Longrightarrow> s\<lparr>el_wpc := x\<rparr> = s" "el_rpc s = y \<Longrightarrow> s\<lparr>el_rpc := y\<rparr> = s"
  by auto

lemma el_cells:
  assumes "el_wpc s = LData v k" "k \<le> N" "length v = N"
    and "length (sl_data (ev_slots s ! next_slot C s)) = N" "next_slot C s < length (ev_slots s)"
  shows "(el_step C N)\<^sup>*\<^sup>* s ((upd_slot (next_slot C s) (\<lambda>sl. sl\<lparr>sl_data := take k (sl_data sl) @ drop k v\<rparr>) s)\<lparr>el_wpc := LData v N\<rparr>)"
  using assms
proof (induction "N - k" arbitrary: s k)
  case 0
  then show ?case by (simp add: upd_slot_def el_same)
next
  case (Suc n)
  let ?j = "next_slot C s"
  define t where "t = (upd_slot ?j (sl_data_update (\<lambda>d. d[k := v ! k])) s)\<lparr>el_wpc := LData v (Suc k)\<rparr>"
  have k: "k < N" using Suc.hyps(2) by linarith
  have st: "el_step C N s t" unfolding t_def by (rule el_step.w_cell [OF Suc.prems(1) k])
  have j: "next_slot C t = ?j" "next_slot C t < length (ev_slots t)" by (simp_all add: t_def Suc.prems(5))
  have d: "sl_data (ev_slots t ! ?j) = (sl_data (ev_slots s ! ?j))[k := v ! k]" using Suc.prems(5) by (simp add: t_def)
  have "take (Suc k) ((sl_data (ev_slots s ! ?j))[k := v ! k]) @ drop (Suc k) v = take k (sl_data (ev_slots s ! ?j)) @ drop k v"
    using k Suc.prems(3,4) by (simp add: take_Suc_conv_app_nth Cons_nth_drop_Suc)
  then have e: "(upd_slot ?j (\<lambda>sl. sl\<lparr>sl_data := take (Suc k) (sl_data sl) @ drop (Suc k) v\<rparr>) t)\<lparr>el_wpc := LData v N\<rparr> =
      (upd_slot ?j (\<lambda>sl. sl\<lparr>sl_data := take k (sl_data sl) @ drop k v\<rparr>) s)\<lparr>el_wpc := LData v N\<rparr>"
    using Suc.prems(5) by (simp add: upd_slot_def t_def)
  have "(el_step C N)\<^sup>*\<^sup>* t ((upd_slot (next_slot C t) (\<lambda>sl. sl\<lparr>sl_data := take (Suc k) (sl_data sl) @ drop (Suc k) v\<rparr>) t)\<lparr>el_wpc := LData v N\<rparr>)"
    by (rule Suc.hyps(1)) (use Suc.hyps(2) Suc.prems k d j in \<open>simp_all add: t_def\<close>)
  with st show ?case unfolding j(1) e by (rule converse_rtranclp_into_rtranclp)
qed

lemma ev_push_steps:
  assumes "el_wpc s = LIdle" "length v = N"
    and "length (sl_data (ev_slots s ! next_slot C s)) = N" "next_slot C s < length (ev_slots s)"
  shows "(el_step C N)\<^sup>*\<^sup>* s ((ev_push C v s)\<lparr>el_hist := el_hist s @ [v]\<rparr>)"
proof -
  let ?j = "next_slot C s" and ?n = "shadow_global_index s + 1"
  define s1 where "s1 = (upd_slot ?j (sl_seq_update (\<lambda>_. encode_seq ?n True)) s)\<lparr>el_wpc := LData v 0\<rparr>"
  define s2 where "s2 = (upd_slot ?j (\<lambda>sl. sl\<lparr>sl_data := v\<rparr>) s1)\<lparr>el_wpc := LData v N\<rparr>"
  define s3 where "s3 = (upd_slot ?j (sl_seq_update (\<lambda>_. encode_seq ?n False)) s2)\<lparr>el_wpc := LPublish, el_hist := el_hist s @ [v]\<rparr>"
  have a: "el_step C N s s1" unfolding s1_def by (rule el_step.w_lock [OF assms(1,2)])
  have j: "next_slot C s1 = ?j" by (simp add: s1_def)
  have b: "(el_step C N)\<^sup>*\<^sup>* s1 s2"
    using el_cells [of s1 v 0 N C] assms by (simp add: s1_def s2_def)
  have c: "el_step C N s2 s3"
    using el_step.w_unlock [of s2 v N C] by (simp add: s2_def s3_def s1_def)
  have d: "el_step C N s3 (s3\<lparr>global_index := ?n, shadow_global_index := ?n, el_wpc := LIdle\<rparr>)"
    using el_step.w_publish [of s3 C N] by (simp add: s3_def s2_def s1_def)
  have "(ev_push C v s)\<lparr>el_hist := el_hist s @ [v]\<rparr> = s3\<lparr>global_index := ?n, shadow_global_index := ?n, el_wpc := LIdle\<rparr>"
    using assms(1,4) by (simp add: ev_push_def ev_produce_def upd_slot_def s3_def s2_def s1_def Let_def)
  with a b c d show ?thesis
    by (metis (no_types, lifting) converse_rtranclp_into_rtranclp r_into_rtranclp rtranclp_trans)
qed

lemma el_read_cells:
  assumes "el_rpc s = ERData j q acc" "acc = take k d" "k \<le> N" "d = sl_data (ev_slots s ! j)" "length d = N"
  shows "(el_step C N)\<^sup>*\<^sup>* s (s\<lparr>el_rpc := ERData j q d\<rparr>)"
  using assms
proof (induction "N - k" arbitrary: s acc k)
  case 0
  then show ?case by (simp add: el_same)
next
  case (Suc n)
  have k: "k < N" using Suc.hyps(2) by linarith
  then have acc: "length acc = k" using Suc.prems by simp
  have "el_step C N s (s\<lparr>el_rpc := ERData j q (acc @ [d ! k])\<rparr>)"
    using el_step.r_cell [OF Suc.prems(1), of N C] acc k Suc.prems(4) by simp
  moreover have "(el_step C N)\<^sup>*\<^sup>* (s\<lparr>el_rpc := ERData j q (acc @ [d ! k])\<rparr>) (s\<lparr>el_rpc := ERData j q (acc @ [d ! k])\<rparr>\<lparr>el_rpc := ERData j q d\<rparr>)"
    by (rule Suc.hyps(1) [of "Suc k" _ "acc @ [d ! k]"]) (use Suc.hyps(2) Suc.prems k in \<open>simp_all add: take_Suc_conv_app_nth\<close>)
  ultimately show ?case by (simp add: converse_rtranclp_into_rtranclp)
qed

lemma try_consume_latest_eq:
  "try_consume_latest C q =
     (let sl = ev_slots q ! ring_slot C (global_index q) in
      if global_index q \<le> last_global_index q \<or> is_locked (sl_seq sl) \<or> decode_idx (sl_seq sl) \<le> last_global_index q
      then (None, q) else (Some (sl_data sl), q\<lparr>last_global_index := decode_idx (sl_seq sl)\<rparr>))"
  by (simp add: try_consume_latest_def ev_read_latest_def Let_def)

lemma try_consume_latest_steps:
  assumes "el_rpc s = ERIdle" "try_consume_latest C s = (r, s')"
    and "length (sl_data (ev_slots s ! ring_slot C (global_index s))) = N"
  shows "(el_step C N)\<^sup>*\<^sup>* s (s'\<lparr>el_got := el_got s @ (case r of None \<Rightarrow> [] | Some v \<Rightarrow> [(last_global_index s', v)])\<rparr>)"
proof -
  let ?g = "global_index s" and ?j = "ring_slot C (global_index s)"
  let ?sl = "ev_slots s ! ?j"
  let ?dead = "is_locked (sl_seq ?sl) \<or> decode_idx (sl_seq ?sl) \<le> last_global_index s"
  have a: "el_step C N s (s\<lparr>el_rpc := (if ?g \<le> last_global_index s then ERIdle else ERSeq ?g)\<rparr>)"
    by (rule el_step.r_index [OF assms(1)])
  show ?thesis
  proof (cases "?g \<le> last_global_index s")
    case True
    then have "r = None" "s' = s" using assms(2) by (simp_all add: try_consume_latest_eq)
    then show ?thesis by simp
  next
    case False
    let ?s1 = "s\<lparr>el_rpc := ERSeq ?g\<rparr>"
    have b: "el_step C N ?s1 (s\<lparr>el_rpc := (if ?dead then ERIdle else ERData ?j (sl_seq ?sl) [])\<rparr>)"
      using el_step.r_seq [of ?s1 ?g ?j C "sl_seq ?sl" N] by simp
    show ?thesis
    proof (cases ?dead)
      case True
      then have "r = None" "s' = s" using assms(2) False by (simp_all only: try_consume_latest_eq Let_def if_True simp_thms prod.inject)
      then show ?thesis by simp
    next
      case dead: False
      let ?s2 = "s\<lparr>el_rpc := ERData ?j (sl_seq ?sl) []\<rparr>" and ?s3 = "s\<lparr>el_rpc := ERData ?j (sl_seq ?sl) (sl_data ?sl)\<rparr>"
      have "(el_step C N)\<^sup>*\<^sup>* ?s2 (?s2\<lparr>el_rpc := ERData ?j (sl_seq ?sl) (sl_data ?sl)\<rparr>)"
        by (rule el_read_cells [where k = 0 and acc = "[]"]) (use assms(3) in simp_all)
      then have c: "(el_step C N)\<^sup>*\<^sup>* ?s2 ?s3" by simp
      have d: "el_step C N ?s3 (s\<lparr>last_global_index := decode_idx (sl_seq ?sl), el_rpc := ERIdle, el_got := el_got s @ [(decode_idx (sl_seq ?sl), sl_data ?sl)]\<rparr>)"
        using el_step.r_check [of ?s3 ?j "sl_seq ?sl" "sl_data ?sl" N C] assms(3) by simp
      have r: "r = Some (sl_data ?sl)" "s' = s\<lparr>last_global_index := decode_idx (sl_seq ?sl)\<rparr>"
        using assms(2) False dead by (simp_all add: try_consume_latest_eq Let_def)
      have "s'\<lparr>el_got := el_got s @ (case r of None \<Rightarrow> [] | Some v \<Rightarrow> [(last_global_index s', v)])\<rparr> =
          s\<lparr>last_global_index := decode_idx (sl_seq ?sl), el_rpc := ERIdle, el_got := el_got s @ [(decode_idx (sl_seq ?sl), sl_data ?sl)]\<rparr>"
        unfolding r using assms(1) by simp
      moreover have "el_step C N s ?s1" "el_step C N ?s1 ?s2" using a b False dead by simp_all
      ultimately show ?thesis using c d
        by (metis (no_types, lifting) converse_rtranclp_into_rtranclp rtranclp.rtrancl_into_rtrancl)
    qed
  qed
qed

text \<open>
  C14. No torn reads: under every interleaving of one writer and one reader, cell by cell, every
  successful \<open>try_consume_latest\<close> returned exactly the element that was pushed under the index it
  reports, and the indices it reports increase strictly, as long as fewer than \<open>2^63\<close> elements have been
  pushed.
\<close>

theorem seqlock_no_torn_reads:
  assumes "pow2 C" "length d = N" "(el_step C N)\<^sup>*\<^sup>* (el_start C N d) s" "length (el_hist s) + 1 < 2 ^ 63"
  shows "(\<forall>(i, v) \<in> set (el_got s). 0 < unat i \<and> unat i \<le> length (el_hist s) \<and> v = el_hist s ! (unat i - 1)) \<and>
    sorted_wrt (<) (map fst (el_got s))"
proof -
  have "el_got_ok s" using el_steps_inv [OF assms(3) el_start_inv [OF assms(1,2)] assms(4)] by (simp add: el_inv_def)
  then show ?thesis by (fastforce simp: el_got_ok_def)
qed

theorem seqlock_no_torn_reads_witness:
  "\<exists>s. (el_step 2 2)\<^sup>*\<^sup>* (el_start 2 2 [0, 0 :: nat]) s \<and> el_got s = [(1, [7, 8])] \<and> el_hist s = [[7, 8]] \<and>
    (\<forall>(i, v) \<in> set (el_got s). 0 < unat i \<and> unat i \<le> length (el_hist s) \<and> v = el_hist s ! (unat i - 1)) \<and>
    sorted_wrt (<) (map fst (el_got s))"
proof -
  let ?s0 = "el_start 2 2 [0, 0 :: nat]"
  let ?s1 = "(ev_push 2 [7, 8] ?s0)\<lparr>el_hist := el_hist ?s0 @ [[7, 8]]\<rparr>"
  have p: "pow2 2" by (auto simp: pow2_def intro: exI [of _ 1])
  have s0: "?s0 = \<lparr>global_index = 0, shadow_global_index = 0, last_global_index = 0,
      ev_slots = [\<lparr>sl_seq = 0, sl_data = [0, 0]\<rparr>, \<lparr>sl_seq = 0, sl_data = [0, 0]\<rparr>], el_wpc = LIdle, el_rpc = ERIdle, el_hist = [], el_got = []\<rparr>"
    by (simp add: el_start_def mk_EvictingQueue_def EvictingQueue.defs) (simp add: numeral_2_eq_2)
  have s1: "?s1 = \<lparr>global_index = 1, shadow_global_index = 1, last_global_index = 0,
      ev_slots = [\<lparr>sl_seq = 0, sl_data = [0, 0]\<rparr>, \<lparr>sl_seq = 2, sl_data = [7, 8]\<rparr>], el_wpc = LIdle, el_rpc = ERIdle, el_hist = [[7, 8]], el_got = []\<rparr>"
    unfolding s0 by (simp add: ev_push_def ev_produce_def ring_slot_def encode_seq_def Let_def)
  have a: "(el_step 2 2)\<^sup>*\<^sup>* ?s0 ?s1" by (rule ev_push_steps) (simp_all add: s0 ring_slot_def)
  obtain r s2 where c: "try_consume_latest 2 ?s1 = (r, s2)" by (cases "try_consume_latest 2 ?s1")
  have r: "r = Some [7, 8]" "s2 = ?s1\<lparr>last_global_index := 1\<rparr>"
    using c unfolding s1 by (simp_all add: try_consume_latest_eq ring_slot_def is_locked_def decode_idx_def)
  have "(el_step 2 2)\<^sup>*\<^sup>* ?s1 (s2\<lparr>el_got := el_got ?s1 @ (case r of None \<Rightarrow> [] | Some v \<Rightarrow> [(last_global_index s2, v)])\<rparr>)"
    by (rule try_consume_latest_steps [OF _ c]) (simp_all add: s1 ring_slot_def)
  with a have st: "(el_step 2 2)\<^sup>*\<^sup>* ?s0 (?s1\<lparr>last_global_index := 1, el_got := [(1, [7, 8])]\<rparr>)"
    unfolding r by (simp add: s1)
  from seqlock_no_torn_reads [OF p _ st] show ?thesis
    by (intro exI [of _ "?s1\<lparr>last_global_index := 1, el_got := [(1, [7, 8])]\<rparr>"]) (use st in \<open>simp add: s1\<close>)
qed

section \<open>Reading the latest\<close>

lemma ev_produce_n_state:
  assumes "pow2 C" "n < 2 ^ 63"
    and q: "q = ev_produce_n_upto C f n (mk_EvictingQueue C d)"
  shows "global_index q = of_nat n \<and> shadow_global_index q = of_nat n \<and> last_global_index q = 0 \<and> length (ev_slots q) = unat C \<and>
    (0 < n \<longrightarrow> sl_seq (ev_slots q ! ring_slot C (of_nat n)) = encode_seq (of_nat n) False)"
  unfolding q using assms(2)
proof (induction n)
  case (Suc n)
  then show ?case using assms(1) by (simp add: ev_produce_def Let_def add.commute)
qed (simp add: mk_EvictingQueue_def)

lemma ev_push_n_latest:
  assumes "pow2 C" "xs \<noteq> []" "length xs < 2 ^ 63"
  shows "sl_data (ev_slots (ev_push_n C xs (mk_EvictingQueue C d)) ! ring_slot C (of_nat (length xs))) = last xs"
proof -
  obtain n where n: "length xs = Suc n" using assms(2) by (cases xs) auto
  let ?q = "ev_produce_n_upto C (\<lambda>i slot. xs ! i) n (mk_EvictingQueue C d)"
  have "shadow_global_index ?q = of_nat n" "length (ev_slots ?q) = unat C"
    using ev_produce_n_state [OF assms(1) _ refl, of n "\<lambda>i slot. xs ! i" d] assms(3) n by auto
  moreover have "last xs = xs ! n" using assms(2) n by (simp add: last_conv_nth)
  ultimately show ?thesis using assms(1) by (simp add: ev_push_n_def n ev_produce_def Let_def add.commute)
qed

text \<open>
  C18. A reader that was away gets the newest element and nothing twice. The counters then report all
  elements up to that one as read and none as overwritten, although only one read took place and the
  others are lost.
\<close>

theorem evicting_latest_read:
  assumes "pow2 C" "xs \<noteq> []" "length xs < 2 ^ 63"
  shows "\<exists>q. try_consume_latest C (ev_push_n C xs (mk_EvictingQueue C d)) = (Some (last xs), q) \<and>
    try_consume_latest C q = (None, q) \<and> read_count q = of_nat (length xs) \<and> ev_overwritten (ev_stats C q) = 0"
proof -
  let ?q = "ev_push_n C xs (mk_EvictingQueue C d)" and ?n = "length xs"
  have st: "global_index ?q = of_nat ?n" "last_global_index ?q = 0"
      "sl_seq (ev_slots ?q ! ring_slot C (of_nat ?n)) = encode_seq (of_nat ?n) False"
    using ev_produce_n_state [OF assms(1,3) refl, of "\<lambda>i slot. xs ! i" d] assms(2) by (auto simp: ev_push_n_def)
  have u: "unat (of_nat ?n :: u64) = ?n" using assms(3) by (simp add: unat_of_nat)
  have s: "unat (encode_seq (of_nat ?n) False) = 2 * ?n" using unat_encode_seq [OF assms(3), of False] by simp
  have d: "decode_idx (encode_seq (of_nat ?n) False) = of_nat ?n"
    by (simp only: word_unat_eq_iff unat_decode_idx s u)
  have l: "\<not> is_locked (encode_seq (of_nat ?n) False)" by (simp add: is_locked_odd s)
  have pos: "\<not> (of_nat ?n :: u64) \<le> 0" using u assms(2) by (simp add: word_le_nat_alt)
  let ?q' = "?q\<lparr>last_global_index := of_nat ?n\<rparr>"
  have "try_consume_latest C ?q = (Some (last xs), ?q')"
    using st d l pos ev_push_n_latest [OF assms, of d] by (simp add: try_consume_latest_eq)
  moreover have "try_consume_latest C ?q' = (None, ?q')" using st by (simp add: try_consume_latest_eq)
  moreover have "ev_overwritten (ev_stats C ?q') = 0"
  proof -
    have "unat (of_nat ?n + C) = ?n + unat C"
      using unat_add_small [of "of_nat ?n" "unat C"] pow2_le [OF assms(1)] assms(3) u by simp
    then have "\<not> of_nat ?n + C < (of_nat ?n :: u64)" using u by (simp add: word_less_nat_alt)
    then show ?thesis using st by (simp add: ev_stats_def Let_def)
  qed
  ultimately show ?thesis by (intro exI [of _ ?q']) (simp add: read_count_def)
qed

theorem evicting_latest_read_witness:
  "\<exists>q. try_consume_latest 4 (ev_push_n 4 [1, 2, 3, 4, 5, 6, 7, 8, 9, 10] (mk_EvictingQueue 4 (0 :: nat))) = (Some 10, q) \<and>
    try_consume_latest 4 q = (None, q) \<and> read_count q = 10 \<and> ev_overwritten (ev_stats 4 q) = 0"
proof -
  have "pow2 4" by (auto simp: pow2_def intro: exI [of _ 2])
  from evicting_latest_read [OF this, of "[1, 2, 3, 4, 5, 6, 7, 8, 9, 10 :: nat]" 0] show ?thesis by simp
qed

section \<open>One slot\<close>

text \<open>The specialisation \<open>EvictingQueue<T, 1>\<close>: a plain sequence lock.\<close>

record 'a SeqLock =
  s1_seq :: u64
  s1_last_seq :: u64
  s1_data :: 'a

definition s1_produce :: "('a \<Rightarrow> 'a) \<Rightarrow> 'a SeqLock \<Rightarrow> 'a SeqLock" where
  "s1_produce writer_func q =
     (let seq = s1_seq q;
          q = q\<lparr>s1_seq := seq + 1\<rparr>;
          q = q\<lparr>s1_data := writer_func (s1_data q)\<rparr> in
      q\<lparr>s1_seq := seq + 2\<rparr>)"

definition s1_try_consume_latest :: "'a SeqLock \<Rightarrow> 'a option \<times> 'a SeqLock" where
  "s1_try_consume_latest q =
     (let seq0 = s1_seq q; cached_last = s1_last_seq q in
      if seq0 \<le> cached_last \<or> seq0 AND 1 \<noteq> 0 then (None, q)
      else
        let data = s1_data q; seq1 = s1_seq q in
        if seq0 = seq1 then (Some data, q\<lparr>s1_last_seq := seq1\<rparr>) else (None, q))"

definition s1_try_peek_latest :: "'a SeqLock \<Rightarrow> 'a option" where
  "s1_try_peek_latest q =
     (let seq0 = s1_seq q in
      if seq0 \<le> s1_last_seq q \<or> seq0 AND 1 \<noteq> 0 then None
      else let data = s1_data q; seq1 = s1_seq q in if seq0 = seq1 then Some data else None)"

definition s1_clear :: "'a SeqLock \<Rightarrow> 'a SeqLock" where
  "s1_clear q = q\<lparr>s1_last_seq := s1_seq q\<rparr>"

definition s1_size_approx :: "'a SeqLock \<Rightarrow> nat" where
  "s1_size_approx q = (if s1_seq q AND 1 \<noteq> 0 \<or> s1_seq q \<le> s1_last_seq q then 0 else 1)"

definition s1_write_count :: "'a SeqLock \<Rightarrow> u64" where
  "s1_write_count q = s1_seq q div 2"

definition s1_read_count :: "'a SeqLock \<Rightarrow> u64" where
  "s1_read_count q = s1_last_seq q div 2"

definition s1_overwrite_count_approx :: "'a SeqLock \<Rightarrow> u64" where
  "s1_overwrite_count_approx q =
     (let writes = s1_write_count q; reads = s1_read_count q in
      if writes \<le> reads + 1 then 0 else writes - reads - 1)"

lemma s1_read_after_write:
  assumes "even (unat (s1_seq q))" "unat (s1_seq q) + 2 < 2 ^ 64" "s1_last_seq q \<le> s1_seq q"
  shows "s1_try_consume_latest (s1_produce f q) = (Some (f (s1_data q)), (s1_produce f q)\<lparr>s1_last_seq := s1_seq q + 2\<rparr>)"
proof -
  have u: "unat (s1_seq q + 2) = unat (s1_seq q) + 2" using unat_add_small [of "s1_seq q" 2] assms(2) by simp
  have "\<not> is_locked (s1_seq q + 2)" using u assms(1) by (simp add: is_locked_odd)
  moreover have "\<not> s1_seq q + 2 \<le> s1_last_seq q" using u assms(3) by (simp add: word_le_nat_alt)
  ultimately show ?thesis by (simp add: s1_try_consume_latest_def s1_produce_def is_locked_def Let_def)
qed

end
