(* ===== verification/Packet.thy ===== *)
theory Packet
  imports Core_Codec
begin

text \<open>
  Ethernet/IPv4/TCP/UDP packets of the user-space stack: constants, byte order and checksums
  (\<^verbatim>\<open>eph-net-dpdk/include/eph/dpdk/packet_core.hpp\<close>), the header templates that write packets
  (\<^verbatim>\<open>packet_template.hpp\<close>) and the zero-copy parsers that read them (\<^verbatim>\<open>packet_parse.hpp\<close>). An mbuf is
  the bytes of its first segment together with the room the driver gave it; a pointer into it is an
  offset. The host is little-endian, as on every platform the library supports. The pseudo-header sum
  that DPDK computes for checksum offload is an argument.
\<close>

section \<open>Constants, byte order\<close>

definition kEtherTypeIpv4 :: u16 where "kEtherTypeIpv4 = 0x0800"
definition kIpProtoIcmp :: u8 where "kIpProtoIcmp = 1"
definition kIpProtoTcp :: u8 where "kIpProtoTcp = 6"
definition kIpProtoUdp :: u8 where "kIpProtoUdp = 17"

definition kIpv4HeaderLen :: nat where "kIpv4HeaderLen = 20"
definition kTcpHeaderLen :: nat where "kTcpHeaderLen = 20"
definition kEtherHeaderLen :: nat where "kEtherHeaderLen = 14"
definition kUdpHeaderLen :: nat where "kUdpHeaderLen = 8"
definition kAllHeadersLen :: nat where "kAllHeadersLen = kEtherHeaderLen + kIpv4HeaderLen + kTcpHeaderLen"
definition kUdpAllHeadersLen :: nat where "kUdpAllHeadersLen = kEtherHeaderLen + kIpv4HeaderLen + kUdpHeaderLen"

definition kTcpFin :: u8 where "kTcpFin = 0x01"
definition kTcpSyn :: u8 where "kTcpSyn = 0x02"
definition kTcpRst :: u8 where "kTcpRst = 0x04"
definition kTcpPsh :: u8 where "kTcpPsh = 0x08"
definition kTcpAck :: u8 where "kTcpAck = 0x10"

definition kIpv4VersionIhl5 :: u8 where "kIpv4VersionIhl5 = 0x45"
definition kIpDontFragment :: u16 where "kIpDontFragment = 0x4000"
definition kIpMoreFragments :: u16 where "kIpMoreFragments = 0x2000"
definition kIpFragOffsetMask :: u16 where "kIpFragOffsetMask = 0x1FFF"
definition kDefaultTtl :: u8 where "kDefaultTtl = 64"
definition kDefaultMss :: nat where "kDefaultMss = 1460"
definition kJumboMaxMss :: u16 where "kJumboMaxMss = 9000"
definition kSynOptionsLen :: nat where "kSynOptionsLen = 12"
definition kSynTcpHeaderLen :: nat where "kSynTcpHeaderLen = kTcpHeaderLen + kSynOptionsLen"

lemmas len_defs [simp] = kIpv4HeaderLen_def kTcpHeaderLen_def kEtherHeaderLen_def kUdpHeaderLen_def
  kAllHeadersLen_def kUdpAllHeadersLen_def kSynOptionsLen_def kSynTcpHeaderLen_def

definition hton16 :: "u16 \<Rightarrow> u16" where
  "hton16 h = drop_bit 8 h OR push_bit 8 h"

definition hton32 :: "u32 \<Rightarrow> u32" where
  "hton32 h = (drop_bit 24 h AND 0xFF) OR (drop_bit 8 h AND 0xFF00) OR
     (push_bit 8 h AND 0xFF0000) OR (push_bit 24 h AND 0xFF000000)"

definition ntoh16 :: "u16 \<Rightarrow> u16" where "ntoh16 n = hton16 n"

definition ntoh32 :: "u32 \<Rightarrow> u32" where "ntoh32 n = hton32 n"

text \<open>A 16- or 32-bit object in the memory of a little-endian host.\<close>

definition st16 :: "u16 \<Rightarrow> bytes" where
  "st16 w = [ucast w, ucast (drop_bit 8 w)]"

definition st32 :: "u32 \<Rightarrow> bytes" where
  "st32 w = [ucast w, ucast (drop_bit 8 w), ucast (drop_bit 16 w), ucast (drop_bit 24 w)]"

definition ld16 :: "bytes \<Rightarrow> nat \<Rightarrow> u16" where
  "ld16 bs i = ucast (byte_at bs i) OR push_bit 8 (ucast (byte_at bs (i + 1)))"

definition ld32 :: "bytes \<Rightarrow> nat \<Rightarrow> u32" where
  "ld32 bs i = ucast (byte_at bs i) OR push_bit 8 (ucast (byte_at bs (i + 1))) OR
     push_bit 16 (ucast (byte_at bs (i + 2))) OR push_bit 24 (ucast (byte_at bs (i + 3)))"

section \<open>Checksums\<close>

fun sum_words :: "u32 \<Rightarrow> bytes \<Rightarrow> u32" where
  "sum_words s (a # b # bs) = sum_words (s + ucast (ucast a OR push_bit 8 (ucast b) :: u16)) bs"
| "sum_words s [a] = s + ucast a"
| "sum_words s [] = s"

function fold_carry :: "u32 \<Rightarrow> u32" where
  "fold_carry s = (if drop_bit 16 s = 0 then s else fold_carry ((s AND 0xFFFF) + drop_bit 16 s))"
  by pat_completeness auto

lemma unat_low16: "unat (s AND 0xFFFF :: u32) = unat s mod 65536"
proof -
  have "s AND 0xFFFF = take_bit 16 s" by (simp add: take_bit_eq_mask mask_eq_exp_minus_1)
  then show ?thesis by (simp only: unsigned_take_bit_eq) (simp add: take_bit_eq_mod)
qed

lemma unat_high16: "unat (drop_bit 16 s :: u32) = unat s div 65536"
  by (simp only: unat_drop_bit_eq) (simp add: drop_bit_eq_div)

lemma fold_step: "unat ((s AND 0xFFFF) + drop_bit 16 (s :: u32)) = unat s mod 65536 + unat s div 65536"
proof -
  have "unat s < 65536 * 65536" using unsigned_less [of s, where ?'a = nat] by simp
  then have "unat s div 65536 < 65536" by (rule less_mult_imp_div_less)
  then have "unat (s AND 0xFFFF) + unat (drop_bit 16 s) < 2 ^ LENGTH(32)"
    unfolding unat_low16 unat_high16 by simp
  then have "unat ((s AND 0xFFFF) + drop_bit 16 s) = unat (s AND 0xFFFF) + unat (drop_bit 16 s)"
    by (simp only: unat_add_lem)
  then show ?thesis by (simp only: unat_low16 unat_high16)
qed

lemma high16_zero: "drop_bit 16 (s :: u32) = 0 \<longleftrightarrow> unat s < 65536"
proof -
  have "drop_bit 16 s = 0 \<longleftrightarrow> unat (drop_bit 16 s) = 0" by (simp only: unat_eq_0)
  also have "\<dots> \<longleftrightarrow> unat s < 65536" unfolding unat_high16 by (simp add: div_eq_0_iff)
  finally show ?thesis .
qed

termination fold_carry
proof (relation "measure unat")
  fix s :: u32
  assume "drop_bit 16 s \<noteq> 0"
  then have "65536 \<le> unat s" by (simp only: high16_zero)
  then have "1 \<le> unat s div 65536" using div_le_mono [of 65536 "unat s" 65536] by simp
  moreover have "unat s = 65536 * (unat s div 65536) + unat s mod 65536" by simp
  ultimately have "unat s mod 65536 + unat s div 65536 < unat s" by linarith
  then show "((s AND 0xFFFF) + drop_bit 16 s, s) \<in> measure unat" by (simp only: in_measure fold_step)
qed simp

declare fold_carry.simps [simp del]

definition internet_checksum :: "bytes \<Rightarrow> u16" where
  "internet_checksum data = (if data = [] then 0xFFFF else ucast (NOT (fold_carry (sum_words 0 data))))"

definition pseudo_header_sum :: "u32 \<Rightarrow> u32 \<Rightarrow> u8 \<Rightarrow> u16 \<Rightarrow> u32" where
  "pseudo_header_sum src_ip_net dst_ip_net protocol tcp_len_host =
     (src_ip_net AND 0xFFFF) + drop_bit 16 src_ip_net + (dst_ip_net AND 0xFFFF) + drop_bit 16 dst_ip_net +
     ucast (hton16 (ucast protocol)) + ucast (hton16 tcp_len_host)"

definition tcp_checksum :: "u32 \<Rightarrow> u32 \<Rightarrow> bytes \<Rightarrow> u16" where
  "tcp_checksum src_ip_net dst_ip_net seg =
     ucast (NOT (fold_carry (sum_words (pseudo_header_sum src_ip_net dst_ip_net kIpProtoTcp (of_nat (length seg))) seg)))"

definition udp_checksum :: "u32 \<Rightarrow> u32 \<Rightarrow> bytes \<Rightarrow> u16" where
  "udp_checksum src_ip_net dst_ip_net seg =
     (let r = ucast (NOT (fold_carry (sum_words (pseudo_header_sum src_ip_net dst_ip_net kIpProtoUdp (of_nat (length seg))) seg))) in
      if r = 0 then 0xFFFF else r)"

definition syn_options :: "u16 \<Rightarrow> bytes" where
  "syn_options m = [2, 4] @ st16 (hton16 m) @ [4, 2, 1, 3, 3, 0, 1, 1]"

section \<open>Connection tuple\<close>

record ConnectionTuple =
  ct_src_ip :: u32
  ct_dst_ip :: u32
  ct_src_port :: u16
  ct_dst_port :: u16

definition ct_validate :: "ConnectionTuple \<Rightarrow> string" where
  "ct_validate t =
     (if ct_src_ip t = 0 then ''src_ip must not be zero''
      else if ct_dst_ip t = 0 then ''dst_ip must not be zero''
      else if ct_src_port t = 0 then ''src_port must be explicit (DPDK has no ephemeral port allocator)''
      else if ct_dst_port t = 0 then ''dst_port must be explicit (DPDK has no ephemeral port allocator)''
      else [])"

definition flip_tuple :: "ConnectionTuple \<Rightarrow> ConnectionTuple" where
  "flip_tuple t = \<lparr>ct_src_ip = ct_dst_ip t, ct_dst_ip = ct_src_ip t, ct_src_port = ct_dst_port t, ct_dst_port = ct_src_port t\<rparr>"

section \<open>Mbufs and packet templates\<close>

datatype ol_flag = TX_IP_CKSUM | TX_TCP_CKSUM | TX_UDP_CKSUM

record mbuf =
  mb_data :: bytes
  mb_nb_segs :: nat
  mb_room :: nat
  mb_ol_flags :: "ol_flag list"
  mb_l2_len :: nat
  mb_l3_len :: nat
  mb_l4_len :: nat

definition mbuf_reset :: "mbuf \<Rightarrow> mbuf" where
  "mbuf_reset m = m\<lparr>mb_data := [], mb_nb_segs := 1, mb_ol_flags := [], mb_l2_len := 0, mb_l3_len := 0, mb_l4_len := 0\<rparr>"

definition fresh_mbuf :: "nat \<Rightarrow> mbuf" where
  "fresh_mbuf room = \<lparr>mb_data = [], mb_nb_segs = 1, mb_room = room, mb_ol_flags = [], mb_l2_len = 0, mb_l3_len = 0, mb_l4_len = 0\<rparr>"

record PacketTemplate =
  pt_src_mac :: bytes
  pt_dst_mac :: bytes
  pt_tuple :: ConnectionTuple
  pt_ip_id :: u16
  pt_mss :: u16
  pt_hw_cksum :: bool

definition pt_validate :: "PacketTemplate \<Rightarrow> string" where
  "pt_validate t =
     (if ct_validate (pt_tuple t) \<noteq> [] then ct_validate (pt_tuple t)
      else if pt_mss t = 0 then ''mss must not be zero''
      else if pt_mss t > kJumboMaxMss then ''mss exceeds jumbo frame limit (9000)''
      else [])"

text \<open>The three headers as the stores of the builder leave them in memory.\<close>

definition eth_header :: "bytes \<Rightarrow> bytes \<Rightarrow> bytes" where
  "eth_header dst src = dst @ src @ st16 (hton16 kEtherTypeIpv4)"

definition ip_header :: "u16 \<Rightarrow> u16 \<Rightarrow> u8 \<Rightarrow> u16 \<Rightarrow> u32 \<Rightarrow> u32 \<Rightarrow> bytes" where
  "ip_header total_length packet_id proto cksum src_addr dst_addr =
     [kIpv4VersionIhl5, 0] @ st16 (hton16 total_length) @ st16 (hton16 packet_id) @ st16 (hton16 kIpDontFragment) @
     [kDefaultTtl, proto] @ st16 cksum @ st32 src_addr @ st32 dst_addr"

definition tcp_header :: "ConnectionTuple \<Rightarrow> u32 \<Rightarrow> u32 \<Rightarrow> nat \<Rightarrow> u8 \<Rightarrow> u16 \<Rightarrow> u16 \<Rightarrow> bytes" where
  "tcp_header t seq ack tcp_hdr_len flags window cksum =
     st16 (hton16 (ct_src_port t)) @ st16 (hton16 (ct_dst_port t)) @ st32 (hton32 seq) @ st32 (hton32 ack) @
     [push_bit 4 (of_nat (tcp_hdr_len div 4)), flags] @ st16 (hton16 window) @ st16 cksum @ st16 0"

text \<open>
  The body shared by \<open>build_packet\<close> and \<open>fill_packet\<close> once the mbuf has room: both checksum fields are
  summed as zero and then stored, or left to the network card.
\<close>

definition write_packet :: "(bytes \<Rightarrow> ol_flag list \<Rightarrow> u16) \<Rightarrow> u32 \<Rightarrow> u32 \<Rightarrow> u8 \<Rightarrow> u16 \<Rightarrow> bytes \<Rightarrow> bytes \<Rightarrow> PacketTemplate \<Rightarrow> mbuf \<Rightarrow> mbuf" where
  "write_packet phdr_cksum seq ack flags window options payload t m =
     (let tcp_hdr_len = kTcpHeaderLen + length options;
          src = hton32 (ct_src_ip (pt_tuple t)); dst = hton32 (ct_dst_ip (pt_tuple t));
          ip = (\<lambda>c. ip_header (of_nat (kIpv4HeaderLen + tcp_hdr_len + length payload)) (pt_ip_id t) kIpProtoTcp c src dst);
          ip_ck = (if pt_hw_cksum t then 0 else internet_checksum (ip 0));
          tcp = (\<lambda>c. tcp_header (pt_tuple t) seq ack tcp_hdr_len flags window c @ options @ payload);
          ol = [TX_IP_CKSUM, TX_TCP_CKSUM];
          tcp_ck = (if pt_hw_cksum t then phdr_cksum (ip 0) ol else tcp_checksum src dst (tcp 0)) in
      m\<lparr>mb_data := eth_header (pt_dst_mac t) (pt_src_mac t) @ ip ip_ck @ tcp tcp_ck,
        mb_ol_flags := (if pt_hw_cksum t then ol else []),
        mb_l2_len := (if pt_hw_cksum t then kEtherHeaderLen else mb_l2_len m),
        mb_l3_len := (if pt_hw_cksum t then kIpv4HeaderLen else mb_l3_len m),
        mb_l4_len := (if pt_hw_cksum t then tcp_hdr_len else mb_l4_len m)\<rparr>)"

text \<open>
  \<open>alloc\<close> is the answer of the memory pool: the room of the mbuf it hands out, or \<open>None\<close> when the pool
  is absent or empty.
\<close>

definition build_packet ::
    "(bytes \<Rightarrow> ol_flag list \<Rightarrow> u16) \<Rightarrow> nat option \<Rightarrow> u32 \<Rightarrow> u32 \<Rightarrow> u8 \<Rightarrow> u16 \<Rightarrow> bytes \<Rightarrow> PacketTemplate \<Rightarrow> mbuf option \<times> PacketTemplate" where
  "build_packet phdr_cksum alloc seq ack flags window payload t =
     (case alloc of
        None \<Rightarrow> (None, t)
      | Some room \<Rightarrow>
          let is_syn = (flags AND kTcpSyn \<noteq> 0);
              tcp_hdr_len = (if is_syn then kSynTcpHeaderLen else kTcpHeaderLen);
              total_len = kEtherHeaderLen + kIpv4HeaderLen + tcp_hdr_len + length payload in
          if total_len > 65535 then (None, t)
          else if total_len > room then (None, t)
          else
            (Some (write_packet phdr_cksum seq ack flags window (if is_syn then syn_options (pt_mss t) else []) payload t (fresh_mbuf room)),
             t\<lparr>pt_ip_id := pt_ip_id t + 1\<rparr>))"

definition fill_packet ::
    "(bytes \<Rightarrow> ol_flag list \<Rightarrow> u16) \<Rightarrow> mbuf \<Rightarrow> u32 \<Rightarrow> u32 \<Rightarrow> u8 \<Rightarrow> u16 \<Rightarrow> bytes \<Rightarrow> PacketTemplate \<Rightarrow> nat \<times> mbuf \<times> PacketTemplate" where
  "fill_packet phdr_cksum m seq ack flags window payload t =
     (if flags AND kTcpSyn \<noteq> 0 then (0, m, t)
      else
        let total_len = kAllHeadersLen + length payload in
        if total_len > 65535 then (0, m, t)
        else
          let m = mbuf_reset m in
          if total_len > mb_room m then (0, m, t)
          else (total_len, write_packet phdr_cksum seq ack flags window [] payload t m, t\<lparr>pt_ip_id := pt_ip_id t + 1\<rparr>))"

text \<open>The UDP template: a precomputed header whose dynamic fields are stored over.\<close>

record UdpPacketTemplate =
  up_header :: bytes
  up_ip_id :: u16
  up_hw_cksum :: bool

definition put16 :: "nat \<Rightarrow> u16 \<Rightarrow> bytes \<Rightarrow> bytes" where
  "put16 i w bs = take i bs @ st16 w @ drop (i + 2) bs"

definition up_init :: "bytes \<Rightarrow> bytes \<Rightarrow> u32 \<Rightarrow> u32 \<Rightarrow> u16 \<Rightarrow> u16 \<Rightarrow> bool \<Rightarrow> u16 \<Rightarrow> UdpPacketTemplate" where
  "up_init src_mac dst_mac src_ip dst_ip src_port dst_port hw ip_id =
     \<lparr>up_header =
        eth_header dst_mac src_mac @
        [kIpv4VersionIhl5, 0] @ st16 0 @ st16 0 @ st16 (hton16 kIpDontFragment) @
        [kDefaultTtl, kIpProtoUdp] @ st16 0 @ st32 (hton32 src_ip) @ st32 (hton32 dst_ip) @
        st16 (hton16 src_port) @ st16 (hton16 dst_port) @ st16 0 @ st16 0,
      up_ip_id = ip_id, up_hw_cksum = hw\<rparr>"

text \<open>The template copied in front of the payload, with the dynamic fields stored.\<close>

definition up_packet :: "bytes \<Rightarrow> UdpPacketTemplate \<Rightarrow> bytes" where
  "up_packet payload t =
     (let pkt = up_header t @ payload;
          pkt = put16 16 (hton16 (of_nat (kIpv4HeaderLen + kUdpHeaderLen + length payload))) pkt;
          pkt = put16 18 (hton16 (up_ip_id t)) pkt in
      put16 38 (hton16 (of_nat (kUdpHeaderLen + length payload))) pkt)"

definition up_fill :: "(bytes \<Rightarrow> ol_flag list \<Rightarrow> u16) \<Rightarrow> mbuf \<Rightarrow> bytes \<Rightarrow> UdpPacketTemplate \<Rightarrow> nat \<times> mbuf \<times> UdpPacketTemplate" where
  "up_fill phdr_cksum m payload t =
     (let total_len = kUdpAllHeadersLen + length payload in
      if total_len > 65535 then (0, m, t)
      else
        let m = mbuf_reset m in
        if total_len > mb_room m then (0, m, t)
        else
          let pkt = put16 24 0 (up_packet payload t); ol = [TX_IP_CKSUM, TX_UDP_CKSUM] in
          (total_len,
           (if up_hw_cksum t
            then m\<lparr>mb_data := put16 40 (phdr_cksum (slice pkt 14 20) ol) pkt, mb_ol_flags := ol,
                   mb_l2_len := kEtherHeaderLen, mb_l3_len := kIpv4HeaderLen, mb_l4_len := kUdpHeaderLen\<rparr>
            else
              let pkt = put16 40 0 pkt in
              m\<lparr>mb_data := put16 24 (internet_checksum (slice pkt 14 20)) pkt, mb_ol_flags := []\<rparr>),
           t\<lparr>up_ip_id := up_ip_id t + 1\<rparr>))"

definition up_build :: "(bytes \<Rightarrow> ol_flag list \<Rightarrow> u16) \<Rightarrow> nat option \<Rightarrow> bytes \<Rightarrow> UdpPacketTemplate \<Rightarrow> mbuf option \<times> UdpPacketTemplate" where
  "up_build phdr_cksum alloc payload t =
     (case alloc of
        None \<Rightarrow> (None, t)
      | Some room \<Rightarrow>
          let (n, m, t) = up_fill phdr_cksum (fresh_mbuf room) payload t in
          if n = 0 then (None, t) else (Some m, t))"

section \<open>Parsers\<close>

text \<open>
  A parse result carries the bytes of the mbuf and the offsets of the headers in it; \<open>None\<close> is the
  null pointer. \<open>net16\<close> and \<open>net32\<close> are \<open>ntoh16\<close>/\<open>ntoh32\<close> of a header field.
\<close>

definition net16 :: "bytes \<Rightarrow> nat \<Rightarrow> u16" where "net16 data i = ntoh16 (ld16 data i)"

definition net32 :: "bytes \<Rightarrow> nat \<Rightarrow> u32" where "net32 data i = ntoh32 (ld32 data i)"

record ParsedIpHeader =
  ih_data :: bytes
  ih_eth :: "nat option"
  ih_ip :: "nat option"
  ih_ihl :: nat
  ih_proto :: u8

definition no_ip :: ParsedIpHeader where
  "no_ip = \<lparr>ih_data = [], ih_eth = None, ih_ip = None, ih_ihl = 0, ih_proto = 0\<rparr>"

definition parse_ip_header :: "mbuf \<Rightarrow> ParsedIpHeader" where
  "parse_ip_header m =
     (if mb_nb_segs m > 1 then no_ip
      else
        let data = mb_data m; pkt_len = length data in
        if pkt_len < kEtherHeaderLen + kIpv4HeaderLen then no_ip
        else if net16 data 12 \<noteq> kEtherTypeIpv4 then no_ip
        else
          let version_ihl = byte_at data kEtherHeaderLen in
          if drop_bit 4 version_ihl \<noteq> 4 then no_ip
          else
            let ihl = unat (push_bit 2 (version_ihl AND 0x0F)) in
            if ihl < kIpv4HeaderLen then no_ip
            else if kEtherHeaderLen + ihl > pkt_len then no_ip
            else if net16 data (kEtherHeaderLen + 6) AND (kIpMoreFragments OR kIpFragOffsetMask) \<noteq> 0 then no_ip
            else \<lparr>ih_data = data, ih_eth = Some 0, ih_ip = Some kEtherHeaderLen, ih_ihl = ihl,
                   ih_proto = byte_at data (kEtherHeaderLen + 9)\<rparr>)"

definition is_ip_fragment :: "mbuf \<Rightarrow> bool" where
  "is_ip_fragment m =
     (if mb_nb_segs m > 1 then False
      else
        let data = mb_data m in
        if length data < kEtherHeaderLen + kIpv4HeaderLen then False
        else if net16 data 12 \<noteq> kEtherTypeIpv4 then False
        else net16 data (kEtherHeaderLen + 6) AND (kIpMoreFragments OR kIpFragOffsetMask) \<noteq> 0)"

record ParsedPacket =
  pp_data :: bytes
  pp_eth :: "nat option"
  pp_ip :: "nat option"
  pp_tcp :: "nat option"
  pp_payload :: "nat option"
  pp_payload_len :: nat

definition no_packet :: ParsedPacket where
  "no_packet = \<lparr>pp_data = [], pp_eth = None, pp_ip = None, pp_tcp = None, pp_payload = None, pp_payload_len = 0\<rparr>"

definition pp_flags :: "ParsedPacket \<Rightarrow> u8" where
  "pp_flags p = (case pp_tcp p of None \<Rightarrow> 0 | Some i \<Rightarrow> byte_at (pp_data p) (i + 13))"

definition pp_seq :: "ParsedPacket \<Rightarrow> u32" where
  "pp_seq p = (case pp_tcp p of None \<Rightarrow> 0 | Some i \<Rightarrow> net32 (pp_data p) (i + 4))"

definition pp_ack :: "ParsedPacket \<Rightarrow> u32" where
  "pp_ack p = (case pp_tcp p of None \<Rightarrow> 0 | Some i \<Rightarrow> net32 (pp_data p) (i + 8))"

definition pp_window :: "ParsedPacket \<Rightarrow> u16" where
  "pp_window p = (case pp_tcp p of None \<Rightarrow> 0 | Some i \<Rightarrow> net16 (pp_data p) (i + 14))"

definition pp_src_port :: "ParsedPacket \<Rightarrow> u16" where
  "pp_src_port p = (case pp_tcp p of None \<Rightarrow> 0 | Some i \<Rightarrow> net16 (pp_data p) i)"

definition pp_dst_port :: "ParsedPacket \<Rightarrow> u16" where
  "pp_dst_port p = (case pp_tcp p of None \<Rightarrow> 0 | Some i \<Rightarrow> net16 (pp_data p) (i + 2))"

definition pp_src_ip :: "ParsedPacket \<Rightarrow> u32" where
  "pp_src_ip p = (case pp_ip p of None \<Rightarrow> 0 | Some i \<Rightarrow> net32 (pp_data p) (i + 12))"

definition pp_dst_ip :: "ParsedPacket \<Rightarrow> u32" where
  "pp_dst_ip p = (case pp_ip p of None \<Rightarrow> 0 | Some i \<Rightarrow> net32 (pp_data p) (i + 16))"

definition pp_matches :: "ConnectionTuple \<Rightarrow> ParsedPacket \<Rightarrow> bool" where
  "pp_matches t p \<longleftrightarrow> pp_src_ip p = ct_dst_ip t \<and> pp_dst_ip p = ct_src_ip t \<and>
     pp_src_port p = ct_dst_port t \<and> pp_dst_port p = ct_src_port t"

definition has_flag :: "u8 \<Rightarrow> ParsedPacket \<Rightarrow> bool" where
  "has_flag flag p \<longleftrightarrow> pp_flags p AND flag \<noteq> 0"

definition pp_bytes :: "ParsedPacket \<Rightarrow> bytes" where
  "pp_bytes p = (case pp_payload p of None \<Rightarrow> [] | Some i \<Rightarrow> slice (pp_data p) i (pp_payload_len p))"

definition parse_tcp_from_ip :: "mbuf \<Rightarrow> ParsedIpHeader \<Rightarrow> ParsedPacket" where
  "parse_tcp_from_ip m ip_hdr =
     (if ih_ip ip_hdr = None then no_packet
      else if ih_proto ip_hdr \<noteq> kIpProtoTcp then no_packet
      else
        let data = mb_data m; pkt_len = length data; tcp_offset = kEtherHeaderLen + ih_ihl ip_hdr in
        if pkt_len < tcp_offset + kTcpHeaderLen then no_packet
        else
          let tcp_doff = unat (push_bit 2 (drop_bit 4 (byte_at data (tcp_offset + 12)))) in
          if tcp_doff < kTcpHeaderLen \<or> tcp_doff > 60 then no_packet
          else if tcp_offset + tcp_doff > pkt_len then no_packet
          else
            let ip_total = unat (net16 data (the (ih_ip ip_hdr) + 2)); data_start = ih_ihl ip_hdr + tcp_doff in
            if data_start > ip_total then no_packet
            else if kEtherHeaderLen + ip_total > pkt_len then no_packet
            else
              \<lparr>pp_data = data, pp_eth = ih_eth ip_hdr, pp_ip = ih_ip ip_hdr, pp_tcp = Some tcp_offset,
               pp_payload = (if ip_total > data_start then Some (kEtherHeaderLen + data_start) else None),
               pp_payload_len = (if ip_total > data_start then ip_total - data_start else 0)\<rparr>)"

definition parse_packet :: "mbuf \<Rightarrow> ParsedPacket" where
  "parse_packet m =
     (let ip_hdr = parse_ip_header m in
      if ih_ip ip_hdr = None \<or> ih_proto ip_hdr \<noteq> kIpProtoTcp then no_packet else parse_tcp_from_ip m ip_hdr)"

record ParsedUdpPacket =
  uq_data :: bytes
  uq_eth :: "nat option"
  uq_ip :: "nat option"
  uq_udp :: "nat option"
  uq_payload :: "nat option"
  uq_payload_len :: nat

definition no_udp :: ParsedUdpPacket where
  "no_udp = \<lparr>uq_data = [], uq_eth = None, uq_ip = None, uq_udp = None, uq_payload = None, uq_payload_len = 0\<rparr>"

definition uq_src_ip :: "ParsedUdpPacket \<Rightarrow> u32" where
  "uq_src_ip p = (case uq_ip p of None \<Rightarrow> 0 | Some i \<Rightarrow> net32 (uq_data p) (i + 12))"

definition uq_dst_ip :: "ParsedUdpPacket \<Rightarrow> u32" where
  "uq_dst_ip p = (case uq_ip p of None \<Rightarrow> 0 | Some i \<Rightarrow> net32 (uq_data p) (i + 16))"

definition uq_src_port :: "ParsedUdpPacket \<Rightarrow> u16" where
  "uq_src_port p = (case uq_udp p of None \<Rightarrow> 0 | Some i \<Rightarrow> net16 (uq_data p) i)"

definition uq_dst_port :: "ParsedUdpPacket \<Rightarrow> u16" where
  "uq_dst_port p = (case uq_udp p of None \<Rightarrow> 0 | Some i \<Rightarrow> net16 (uq_data p) (i + 2))"

definition uq_bytes :: "ParsedUdpPacket \<Rightarrow> bytes" where
  "uq_bytes p = (case uq_payload p of None \<Rightarrow> [] | Some i \<Rightarrow> slice (uq_data p) i (uq_payload_len p))"

definition parse_udp_from_ip :: "mbuf \<Rightarrow> ParsedIpHeader \<Rightarrow> ParsedUdpPacket" where
  "parse_udp_from_ip m ip_hdr =
     (if ih_ip ip_hdr = None then no_udp
      else if ih_proto ip_hdr \<noteq> kIpProtoUdp then no_udp
      else
        let data = mb_data m; pkt_len = length data; udp_offset = kEtherHeaderLen + ih_ihl ip_hdr in
        if udp_offset + kUdpHeaderLen > pkt_len then no_udp
        else
          let udp_len = unat (net16 data (udp_offset + 4)) in
          if udp_len < kUdpHeaderLen then no_udp
          else if udp_offset + udp_len > pkt_len then no_udp
          else
            let ip_total = unat (net16 data (the (ih_ip ip_hdr) + 2)) in
            if ip_total < ih_ihl ip_hdr + kUdpHeaderLen then no_udp
            else if udp_len \<noteq> ip_total - ih_ihl ip_hdr then no_udp
            else
              \<lparr>uq_data = data, uq_eth = ih_eth ip_hdr, uq_ip = ih_ip ip_hdr, uq_udp = Some udp_offset,
               uq_payload = Some (udp_offset + kUdpHeaderLen), uq_payload_len = udp_len - kUdpHeaderLen\<rparr>)"

definition parse_udp_packet :: "mbuf \<Rightarrow> ParsedUdpPacket" where
  "parse_udp_packet m =
     (let ip_hdr = parse_ip_header m in
      if ih_ip ip_hdr = None \<or> ih_proto ip_hdr \<noteq> kIpProtoUdp then no_udp else parse_udp_from_ip m ip_hdr)"

record ParsedIcmp =
  ic_eth :: "nat option"
  ic_ip :: "nat option"
  ic_type :: u8
  ic_code :: u8
  ic_next_hop_mtu :: u16
  ic_embedded_src_ip :: u32
  ic_embedded_dst_ip :: u32
  ic_embedded_src_port :: u16
  ic_embedded_dst_port :: u16
  ic_embedded_proto :: u8
  ic_embedded_valid :: bool

definition no_icmp :: ParsedIcmp where
  "no_icmp = \<lparr>ic_eth = None, ic_ip = None, ic_type = 0, ic_code = 0, ic_next_hop_mtu = 0, ic_embedded_src_ip = 0,
     ic_embedded_dst_ip = 0, ic_embedded_src_port = 0, ic_embedded_dst_port = 0, ic_embedded_proto = 0, ic_embedded_valid = False\<rparr>"

definition is_frag_needed :: "ParsedIcmp \<Rightarrow> bool" where
  "is_frag_needed p \<longleftrightarrow> ic_type p = 3 \<and> ic_code p = 4"

definition parse_icmp :: "mbuf \<Rightarrow> ParsedIcmp" where
  "parse_icmp m =
     (let ip_hdr = parse_ip_header m in
      if ih_ip ip_hdr = None then no_icmp
      else if ih_proto ip_hdr \<noteq> kIpProtoIcmp then no_icmp
      else
        let data = mb_data m; pkt_len = length data; icmp_offset = kEtherHeaderLen + ih_ihl ip_hdr;
            ip_total = unat (net16 data (the (ih_ip ip_hdr) + 2)) in
        if kEtherHeaderLen + ip_total > pkt_len then no_icmp
        else if ip_total < ih_ihl ip_hdr + 8 then no_icmp
        else if icmp_offset + 8 > pkt_len then no_icmp
        else
          let out = no_icmp\<lparr>ic_eth := ih_eth ip_hdr, ic_ip := ih_ip ip_hdr, ic_type := byte_at data icmp_offset,
                            ic_code := byte_at data (icmp_offset + 1)\<rparr> in
          if \<not> is_frag_needed out then out
          else
            let out = out\<lparr>ic_next_hop_mtu := net16 data (icmp_offset + 6)\<rparr>;
                emb_ip_off = icmp_offset + 8;
                parse_end = min pkt_len (kEtherHeaderLen + ip_total) in
            if emb_ip_off + kIpv4HeaderLen > parse_end then out
            else
              let e_version_ihl = byte_at data emb_ip_off in
              if drop_bit 4 e_version_ihl \<noteq> 4 then out
              else
                let e_ihl = unat (push_bit 2 (e_version_ihl AND 0x0F)) in
                if e_ihl < kIpv4HeaderLen then out
                else if emb_ip_off + e_ihl + 4 > parse_end then out
                else
                  let proto = byte_at data (emb_ip_off + 9);
                      out = out\<lparr>ic_embedded_src_ip := net32 data (emb_ip_off + 12),
                                ic_embedded_dst_ip := net32 data (emb_ip_off + 16), ic_embedded_proto := proto\<rparr> in
                  if proto = kIpProtoTcp \<or> proto = kIpProtoUdp
                  then out\<lparr>ic_embedded_src_port := net16 data (emb_ip_off + e_ihl),
                           ic_embedded_dst_port := net16 data (emb_ip_off + e_ihl + 2), ic_embedded_valid := True\<rparr>
                  else out)"

section \<open>TCP options\<close>

record TcpOptions =
  to_mss :: u16
  to_wscale :: u8
  to_has_mss :: bool
  to_has_wscale :: bool
  to_has_sack_perm :: bool

definition no_options :: TcpOptions where
  "no_options = \<lparr>to_mss = 0, to_wscale = 0, to_has_mss = False, to_has_wscale = False, to_has_sack_perm = False\<rparr>"

definition one_option :: "bytes \<Rightarrow> nat \<Rightarrow> u8 \<Rightarrow> u8 \<Rightarrow> TcpOptions \<Rightarrow> TcpOptions" where
  "one_option opts i kind len out =
     (if kind = 2 then (if len = 4 then out\<lparr>to_mss := net16 opts (i + 2), to_has_mss := True\<rparr> else out)
      else if kind = 3 then (if len = 3 then out\<lparr>to_wscale := byte_at opts (i + 2), to_has_wscale := True\<rparr> else out)
      else if kind = 4 then (if len = 2 then out\<lparr>to_has_sack_perm := True\<rparr> else out)
      else out)"

function scan_options :: "bytes \<Rightarrow> nat \<Rightarrow> TcpOptions \<Rightarrow> TcpOptions" where
  "scan_options opts i out =
     (if i < length opts then
        let kind = byte_at opts i in
        if kind = 0 then out
        else if kind = 1 then scan_options opts (i + 1) out
        else if i + 1 \<ge> length opts then out
        else
          let len = byte_at opts (i + 1) in
          if len < 2 then out
          else if i + unat len > length opts then out
          else scan_options opts (i + unat len) (one_option opts i kind len out)
      else out)"
  by pat_completeness auto
termination
proof (relation "measure (\<lambda>(opts, i, out). length opts - i)")
  fix opts :: bytes and i :: nat and len :: u8
  assume "i < length opts" "len = byte_at opts (i + 1)" "\<not> len < 2"
  then have "2 \<le> unat len" by (simp add: word_less_nat_alt)
  then show "((opts, i + unat len, x), opts, i, y) \<in> measure (\<lambda>(opts, i, out). length opts - i)" for x y :: TcpOptions
    using \<open>i < length opts\<close> by simp
qed auto

declare scan_options.simps [simp del]

definition parse_tcp_options :: "ParsedPacket \<Rightarrow> TcpOptions" where
  "parse_tcp_options p =
     (case pp_tcp p of
        None \<Rightarrow> no_options
      | Some i \<Rightarrow>
          let doff = unat (push_bit 2 (drop_bit 4 (byte_at (pp_data p) (i + 12)))) in
          if doff \<le> kTcpHeaderLen then no_options
          else scan_options (slice (pp_data p) (i + kTcpHeaderLen) (doff - kTcpHeaderLen)) 0 no_options)"

section \<open>Byte order\<close>

lemma length_st [simp]: "length (st16 w) = 2" "length (st32 v) = 4"
  by (simp_all add: st16_def st32_def)

lemma st16_hton16 [wire_simps]: "st16 (hton16 w) = [ucast (drop_bit 8 w), ucast w]"
  by (auto simp: st16_def hton16_def bit_simps intro!: bit_eqI dest: bit_imp_le_length)

lemma hton32_nth: "bit (hton32 h) n \<longleftrightarrow> n < 32 \<and> bit h (n mod 8 + (24 - 8 * (n div 8)))"
proof -
  have m: "bit (0xFF :: int) n \<longleftrightarrow> n < 8" "bit (0xFF00 :: int) n \<longleftrightarrow> 8 \<le> n \<and> n < 16"
    "bit (0xFF0000 :: int) n \<longleftrightarrow> 16 \<le> n \<and> n < 24" "bit (0xFF000000 :: int) n \<longleftrightarrow> 24 \<le> n \<and> n < 32" for n
  proof -
    have "(0xFF :: int) = mask 8" "(0xFF00 :: int) = push_bit 8 (mask 8)" "(0xFF0000 :: int) = push_bit 16 (mask 8)"
      "(0xFF000000 :: int) = push_bit 24 (mask 8)" by (simp_all add: mask_eq_exp_minus_1 push_bit_eq_mult)
    then show "bit (0xFF :: int) n \<longleftrightarrow> n < 8" "bit (0xFF00 :: int) n \<longleftrightarrow> 8 \<le> n \<and> n < 16"
      "bit (0xFF0000 :: int) n \<longleftrightarrow> 16 \<le> n \<and> n < 24" "bit (0xFF000000 :: int) n \<longleftrightarrow> 24 \<le> n \<and> n < 32"
      by (simp_all only: bit_simps) auto
  qed
  consider "n < 8" | "8 \<le> n" "n < 16" | "16 \<le> n" "n < 24" | "24 \<le> n" "n < 32" | "32 \<le> n" by linarith
  then show ?thesis
  proof cases
    case 1
    then show ?thesis by (simp add: hton32_def bit_or_iff bit_and_iff bit_drop_bit_eq bit_push_bit_iff m add.commute)
  next
    case 2
    then have "n div 8 = 1" "n mod 8 = n - 8" by (simp_all add: div_nat_eqI mod_if)
    with 2 show ?thesis by (simp add: hton32_def bit_or_iff bit_and_iff bit_drop_bit_eq bit_push_bit_iff m)
  next
    case 3
    then have "n div 8 = 2" "n mod 8 = n - 16" by (simp_all add: div_nat_eqI mod_if)
    with 3 show ?thesis by (simp add: hton32_def bit_or_iff bit_and_iff bit_drop_bit_eq bit_push_bit_iff m)
  next
    case 4
    then have "n div 8 = 3" "n mod 8 = n - 24" by (simp_all add: div_nat_eqI mod_if)
    with 4 show ?thesis by (simp add: hton32_def bit_or_iff bit_and_iff bit_drop_bit_eq bit_push_bit_iff m)
  next
    case 5
    then show ?thesis by (auto dest: bit_imp_le_length)
  qed
qed

lemma st32_hton32 [wire_simps]: "st32 (hton32 w) = [ucast (drop_bit 24 w), ucast (drop_bit 16 w), ucast (drop_bit 8 w), ucast w]"
proof -
  have "n < 8 \<Longrightarrow> (8 + n) div 8 = 1" "n < 8 \<Longrightarrow> (16 + n) div 8 = 2" "n < 8 \<Longrightarrow> (24 + n) div 8 = 3"
    "n < 8 \<Longrightarrow> n div 8 = 0" "n < 8 \<Longrightarrow> (8 + n) mod 8 = n" "n < 8 \<Longrightarrow> (16 + n) mod 8 = n" "n < 8 \<Longrightarrow> (24 + n) mod 8 = n" for n :: nat
    by (simp_all add: div_nat_eqI mod_if)
  then show ?thesis
    by (auto simp: st32_def bit_simps hton32_nth add.commute intro!: bit_word_eqI)
qed

lemma net16_eq [wire_simps]: "net16 data i = be_u16 (byte_at data i) (byte_at data (i + 1))"
  by (rule bit_word_eqI) (auto simp: net16_def ntoh16_def hton16_def ld16_def be_u16_def bit_simps)

lemma net32_eq [wire_simps]:
  "net32 data i = be_u32 (byte_at data i) (byte_at data (i + 1)) (byte_at data (i + 2)) (byte_at data (i + 3))"
proof -
  have "bit (net32 data i) n \<longleftrightarrow> bit (be_u32 (byte_at data i) (byte_at data (i + 1)) (byte_at data (i + 2)) (byte_at data (i + 3))) n"
    if "n < 32" for n
  proof -
    from that consider "n < 8" | "8 \<le> n" "n < 16" | "16 \<le> n" "n < 24" | "24 \<le> n" "n < 32" by linarith
    then show ?thesis
    proof cases
      case 1
      then show ?thesis by (auto simp: net32_def ntoh32_def hton32_nth ld32_def be_u32_def bit_simps)
    next
      case 2
      then have "n div 8 = 1" "n mod 8 = n - 8" by (simp_all add: div_nat_eqI mod_if)
      with 2 show ?thesis by (auto simp: net32_def ntoh32_def hton32_nth ld32_def be_u32_def bit_simps)
    next
      case 3
      then have "n div 8 = 2" "n mod 8 = n - 16" by (simp_all add: div_nat_eqI mod_if)
      with 3 show ?thesis by (auto simp: net32_def ntoh32_def hton32_nth ld32_def be_u32_def bit_simps)
    next
      case 4
      then have "n div 8 = 3" "n mod 8 = n - 24" by (simp_all add: div_nat_eqI mod_if)
      with 4 show ?thesis by (auto simp: net32_def ntoh32_def hton32_nth ld32_def be_u32_def bit_simps)
    qed
  qed
  then show ?thesis by (intro bit_word_eqI) simp
qed

section \<open>Written packets parse back\<close>

lemma length_6: "length xs = 6 \<Longrightarrow> \<exists>a b c d e f. xs = [a, b, c, d, e, f]"
  by (auto simp: length_Suc_conv numeral_eq_Suc)

lemma length_headers [simp]:
  "length (ip_header ln i p c s d) = 20" "length (tcp_header t sq ak hl fl w c) = 20" "length (syn_options m) = 12"
  "length (eth_header d' s') = length d' + length s' + 2"
  by (simp_all add: ip_header_def tcp_header_def syn_options_def eth_header_def)

text \<open>A received frame: headers, then what follows them, which may end in Ethernet padding.\<close>

lemma ip_fields:
  assumes "length dm = 6" "length sm = 6" and d: "data = eth_header dm sm @ ip_header ln i proto c (hton32 s) (hton32 d) @ rest"
  shows "net16 data 12 = kEtherTypeIpv4" "byte_at data 14 = 0x45" "net16 data 16 = ln" "net16 data 20 = kIpDontFragment"
    "byte_at data 23 = proto" "net32 data 26 = s" "net32 data 30 = d" "34 \<le> length data" "drop 34 data = rest"
proof -
  obtain d0 d1 d2 d3 d4 d5 where dm: "dm = [d0, d1, d2, d3, d4, d5]" using length_6 [OF assms(1)] by blast
  obtain s0 s1 s2 s3 s4 s5 where sm: "sm = [s0, s1, s2, s3, s4, s5]" using length_6 [OF assms(2)] by blast
  have c: "st16 c = [ucast c, ucast (drop_bit 8 c)]" by (simp add: st16_def)
  note u = d dm sm c eth_header_def ip_header_def st16_hton16 st32_hton32 kIpv4VersionIhl5_def byte_at_def net16_eq net32_eq
  show "net16 data 12 = kEtherTypeIpv4" "byte_at data 14 = 0x45" "net16 data 16 = ln" "net16 data 20 = kIpDontFragment"
    "byte_at data 23 = proto" by (simp_all add: u be_u16_bytes be_u32_bytes)
  show "net32 data 26 = s" "net32 data 30 = d" "34 \<le> length data" "drop 34 data = rest"
    by (simp_all add: u be_u16_bytes be_u32_bytes)
qed


lemma byte_at_drop: "byte_at bs (n + k) = byte_at (drop n bs) k"
  by (auto simp: byte_at_def)

lemma net16_drop: "net16 bs (n + k) = net16 (drop n bs) k"
  by (simp only: net16_eq byte_at_drop add.assoc)

lemma net32_drop: "net32 bs (n + k) = net32 (drop n bs) k"
  by (simp only: net32_eq byte_at_drop add.assoc)

lemma tcp_fields:
  assumes s: "seg = tcp_header t sq ak hl fl w c @ rest"
  shows "net16 seg 0 = ct_src_port t" "net16 seg 2 = ct_dst_port t" "net32 seg 4 = sq" "net32 seg 8 = ak"
    "byte_at seg 12 = push_bit 4 (of_nat (hl div 4))" "byte_at seg 13 = fl" "net16 seg 14 = w" "20 \<le> length seg" "drop 20 seg = rest"
proof -
  have c: "st16 c = [ucast c, ucast (drop_bit 8 c)]" "st16 0 = [0, 0]" by (simp_all add: st16_def)
  note u = s c tcp_header_def st16_hton16 st32_hton32 byte_at_def net16_eq net32_eq
  show "net16 seg 0 = ct_src_port t" "net16 seg 2 = ct_dst_port t" "net32 seg 4 = sq" "net32 seg 8 = ak"
    by (simp_all add: u be_u16_bytes be_u32_bytes)
  show "byte_at seg 12 = push_bit 4 (of_nat (hl div 4))" "byte_at seg 13 = fl" "net16 seg 14 = w" "20 \<le> length seg" "drop 20 seg = rest"
    by (simp_all add: u be_u16_bytes be_u32_bytes)
qed

text \<open>What \<open>parse_packet\<close> returns on a frame with these headers.\<close>

definition tcp_view :: "bytes \<Rightarrow> nat \<Rightarrow> nat \<Rightarrow> ParsedPacket" where
  "tcp_view data opt_len payload_len = \<lparr>pp_data = data, pp_eth = Some 0, pp_ip = Some 14, pp_tcp = Some 34,
     pp_payload = (if 0 < payload_len then Some (54 + opt_len) else None), pp_payload_len = payload_len\<rparr>"

lemma parse_ip_written:
  assumes "length dm = 6" "length sm = 6" "mb_nb_segs m \<le> 1"
    and d: "mb_data m = eth_header dm sm @ ip_header ln i proto c (hton32 s) (hton32 d) @ rest"
  shows "parse_ip_header m = \<lparr>ih_data = mb_data m, ih_eth = Some 0, ih_ip = Some 14, ih_ihl = 20, ih_proto = proto\<rparr>"
    "\<not> is_ip_fragment m"
proof -
  note f = ip_fields [OF assms(1,2) d]
  have v: "drop_bit 4 (0x45 :: u8) = 4" "unat (push_bit 2 (0x45 AND 0xF :: u8)) = 20"
    "kIpDontFragment AND (kIpMoreFragments OR kIpFragOffsetMask) = 0"
    by (simp_all add: kIpDontFragment_def kIpMoreFragments_def kIpFragOffsetMask_def)
  show "parse_ip_header m = \<lparr>ih_data = mb_data m, ih_eth = Some 0, ih_ip = Some 14, ih_ihl = 20, ih_proto = proto\<rparr>"
    using f assms(3) by (simp add: parse_ip_header_def Let_def v)
  show "\<not> is_ip_fragment m"
    using f assms(3) v by (simp add: is_ip_fragment_def Let_def)
qed

lemma parse_tcp_written:
  assumes "length dm = 6" "length sm = 6" "mb_nb_segs m \<le> 1"
    and hl: "length opts \<in> {0, 12}" and len: "40 + length opts + length payload < 65536"
    and d: "mb_data m = eth_header dm sm @ ip_header (of_nat (40 + length opts + length payload)) i kIpProtoTcp c (hton32 s) (hton32 d) @
      tcp_header t sq ak (20 + length opts) fl w c' @ opts @ payload @ pad"
  shows "parse_packet m = tcp_view (mb_data m) (length opts) (length payload)"
proof -
  note f = ip_fields [OF assms(1,2) d]
  note g = tcp_fields [OF f(9)]
  have doff: "unat (push_bit 2 (drop_bit 4 (byte_at (mb_data m) 46))) = 20 + length opts"
    using hl g(5) byte_at_drop [of "mb_data m" 34 12] by auto
  have len': "length (mb_data m) = 54 + length opts + length payload + length pad"
    using assms(1,2) by (simp add: d)
  have tot: "unat (net16 (mb_data m) 16) = 40 + length opts + length payload"
    using len by (simp only: f(3) unat_of_nat) simp
  show ?thesis
    using hl len' by (auto simp: parse_packet_def parse_ip_written [OF assms(1-3) d] parse_tcp_from_ip_def Let_def tot doff tcp_view_def)
qed


lemma tcp_view_fields:
  assumes "length dm = 6" "length sm = 6"
    and d: "data = eth_header dm sm @ ip_header ln i kIpProtoTcp c (hton32 s) (hton32 d) @
      tcp_header t sq ak (20 + length opts) fl w c' @ opts @ payload @ pad"
    and p: "p = tcp_view data (length opts) (length payload)"
  shows "pp_seq p = sq" "pp_ack p = ak" "pp_flags p = fl" "pp_window p = w" "pp_src_ip p = s" "pp_dst_ip p = d"
    "pp_src_port p = ct_src_port t" "pp_dst_port p = ct_dst_port t" "pp_bytes p = payload"
    "length opts \<in> {0, 12} \<Longrightarrow> parse_tcp_options p = scan_options opts 0 no_options"
proof -
  note f = ip_fields [OF assms(1,2) d]
  note g = tcp_fields [OF f(9)]
  have h: "net16 data 34 = ct_src_port t" "net16 data 36 = ct_dst_port t" "net32 data 38 = sq" "net32 data 42 = ak"
    "byte_at data 47 = fl" "net16 data 48 = w"
    using g net16_drop [of data 34 0] net16_drop [of data 34 2] net32_drop [of data 34 4] net32_drop [of data 34 8]
      byte_at_drop [of data 34 13] net16_drop [of data 34 14] by simp_all
  show "pp_seq p = sq" "pp_ack p = ak" "pp_flags p = fl" "pp_window p = w"
    using h by (simp_all add: pp_seq_def pp_ack_def pp_flags_def pp_window_def p tcp_view_def)
  show "pp_src_ip p = s" "pp_dst_ip p = d" "pp_src_port p = ct_src_port t" "pp_dst_port p = ct_dst_port t"
    using f(6,7) h by (simp_all add: pp_src_ip_def pp_dst_ip_def pp_src_port_def pp_dst_port_def p tcp_view_def)
  have 54: "drop 54 data = opts @ payload @ pad"
    using g(9) drop_drop [of 20 34 data] by simp
  then have "drop (54 + length opts) data = payload @ pad"
    by (metis add.commute append_eq_conv_conj drop_drop)
  then show "pp_bytes p = payload"
    by (simp add: pp_bytes_def p tcp_view_def slice_def)
  show "parse_tcp_options p = scan_options opts 0 no_options" if hl: "length opts \<in> {0, 12}"
  proof -
    have "unat (push_bit 2 (drop_bit 4 (byte_at data 46))) = 20 + length opts"
      using hl g(5) byte_at_drop [of data 34 12] by auto
    then show ?thesis
      using hl 54 by (auto simp: parse_tcp_options_def p tcp_view_def Let_def slice_def scan_options.simps)
  qed
qed

lemma scan_syn_options: "scan_options (syn_options m) 0 no_options =
  \<lparr>to_mss = m, to_wscale = 0, to_has_mss = True, to_has_wscale = True, to_has_sack_perm = True\<rparr>"
proof -
  have o: "syn_options m = [2, 4, ucast (drop_bit 8 m), ucast m, 4, 2, 1, 3, 3, 0, 1, 1]"
    by (simp add: syn_options_def st16_hton16)
  show ?thesis
    unfolding o by (simp add: scan_options.simps one_option_def no_options_def Let_def net16_eq be_u16_bytes byte_at_def)
qed


lemma build_packet_Some:
  assumes "build_packet ph alloc sq ak fl w payload t = (Some m, t')"
    and o: "opts = (if fl AND kTcpSyn \<noteq> 0 then syn_options (pt_mss t) else [])"
  shows "length opts \<in> {0, 12}" "40 + length opts + length payload < 65536" "t' = t\<lparr>pt_ip_id := pt_ip_id t + 1\<rparr>" "mb_nb_segs m = 1"
    "\<exists>c c'. mb_data m = eth_header (pt_dst_mac t) (pt_src_mac t) @
       ip_header (of_nat (40 + length opts + length payload)) (pt_ip_id t) kIpProtoTcp c
         (hton32 (ct_src_ip (pt_tuple t))) (hton32 (ct_dst_ip (pt_tuple t))) @
       tcp_header (pt_tuple t) sq ak (20 + length opts) fl w c' @ opts @ payload"
proof -
  obtain room where a: "alloc = Some room"
    and l: "34 + (20 + length opts) + length payload \<le> 65535" "34 + (20 + length opts) + length payload \<le> room"
    and m: "m = write_packet ph sq ak fl w opts payload t (fresh_mbuf room)" "t' = t\<lparr>pt_ip_id := pt_ip_id t + 1\<rparr>"
    using assms by (auto simp: build_packet_def Let_def split: option.splits if_splits)
  show "length opts \<in> {0, 12}" by (simp add: o)
  show "40 + length opts + length payload < 65536" using l by simp
  show "t' = t\<lparr>pt_ip_id := pt_ip_id t + 1\<rparr>" by (fact m(2))
  show "mb_nb_segs m = 1" by (simp add: m(1) write_packet_def fresh_mbuf_def Let_def)
  show "\<exists>c c'. mb_data m = eth_header (pt_dst_mac t) (pt_src_mac t) @
       ip_header (of_nat (40 + length opts + length payload)) (pt_ip_id t) kIpProtoTcp c
         (hton32 (ct_src_ip (pt_tuple t))) (hton32 (ct_dst_ip (pt_tuple t))) @
       tcp_header (pt_tuple t) sq ak (20 + length opts) fl w c' @ opts @ payload"
    unfolding m(1) write_packet_def Let_def len_defs mbuf.simps add.assoc [symmetric] by simp blast
qed

lemma written_parses:
  assumes "build_packet ph alloc sq ak fl w payload t = (Some m, t')"
    and "length (pt_src_mac t) = 6" "length (pt_dst_mac t) = 6"
    and "mb_data m' = mb_data m @ pad" "mb_nb_segs m' = 1"
    and "p = parse_packet m'"
  shows "pp_tcp p = Some 34" "pp_seq p = sq" "pp_ack p = ak" "pp_flags p = fl" "pp_window p = w"
    "pp_bytes p = payload" "pp_payload_len p = length payload" "pp_matches (flip_tuple (pt_tuple t)) p" "\<not> is_ip_fragment m'"
    "parse_tcp_options p = (if fl AND kTcpSyn \<noteq> 0 then
      \<lparr>to_mss = pt_mss t, to_wscale = 0, to_has_mss = True, to_has_wscale = True, to_has_sack_perm = True\<rparr> else no_options)"
proof -
  define opts where "opts = (if fl AND kTcpSyn \<noteq> 0 then syn_options (pt_mss t) else [])"
  note b = build_packet_Some [OF assms(1) opts_def]
  from b(5) assms(4) obtain c c' where d: "mb_data m' = eth_header (pt_dst_mac t) (pt_src_mac t) @
       ip_header (of_nat (40 + length opts + length payload)) (pt_ip_id t) kIpProtoTcp c
         (hton32 (ct_src_ip (pt_tuple t))) (hton32 (ct_dst_ip (pt_tuple t))) @
       tcp_header (pt_tuple t) sq ak (20 + length opts) fl w c' @ opts @ payload @ pad" by auto
  have n: "mb_nb_segs m' \<le> 1" using assms(5) by simp
  have p: "p = tcp_view (mb_data m') (length opts) (length payload)"
    using parse_tcp_written [OF assms(3,2) n b(1,2) d] assms(6) by simp
  note v = tcp_view_fields [OF assms(3,2) d p]
  show "pp_seq p = sq" "pp_ack p = ak" "pp_flags p = fl" "pp_window p = w" "pp_bytes p = payload" by (fact v)+
  show "pp_tcp p = Some 34" "pp_payload_len p = length payload" by (simp_all add: p tcp_view_def)
  show "pp_matches (flip_tuple (pt_tuple t)) p" using v by (simp add: pp_matches_def flip_tuple_def)
  show "\<not> is_ip_fragment m'" by (rule parse_ip_written(2) [OF assms(3,2) n d])
  show "parse_tcp_options p = (if fl AND kTcpSyn \<noteq> 0 then
      \<lparr>to_mss = pt_mss t, to_wscale = 0, to_has_mss = True, to_has_wscale = True, to_has_sack_perm = True\<rparr> else no_options)"
    using v(10) [OF b(1)] by (simp add: opts_def scan_syn_options scan_options.simps [of "[]"])
qed

text \<open>
  C22. A TCP segment the template writes is read back by the parser with the same sequence number,
  acknowledgement, flags, window and payload, belongs to the peer's connection, is no fragment, and a SYN
  announces the configured segment size; Ethernet padding after it changes nothing.
\<close>

theorem tcp_packet_round_trip:
  assumes "build_packet ph alloc sq ak fl w payload t = (Some m, t')"
    and "length (pt_src_mac t) = 6" "length (pt_dst_mac t) = 6"
    and "mb_data m' = mb_data m @ pad" "mb_nb_segs m' = 1"
    and "p = parse_packet m'"
  shows "pp_tcp p \<noteq> None \<and> pp_seq p = sq \<and> pp_ack p = ak \<and> pp_flags p = fl \<and> pp_window p = w \<and>
    pp_bytes p = payload \<and> pp_payload_len p = length payload \<and> pp_matches (flip_tuple (pt_tuple t)) p \<and>
    \<not> is_ip_fragment m' \<and>
    to_has_mss (parse_tcp_options p) = (fl AND kTcpSyn \<noteq> 0) \<and> to_mss (parse_tcp_options p) = (if fl AND kTcpSyn \<noteq> 0 then pt_mss t else 0)"
  using written_parses [OF assms] by (simp add: no_options_def)

section \<open>Checksums verify\<close>

text \<open>The one's complement sum without wrap-around.\<close>

fun word_sum :: "bytes \<Rightarrow> nat" where
  "word_sum (a # b # bs) = unat a + 256 * unat b + word_sum bs"
| "word_sum [a] = unat a"
| "word_sum [] = 0"

lemma unat_le16: "unat (ucast (a :: u8) OR push_bit 8 (ucast b) :: u16) = unat a + 256 * unat (b :: u8)"
proof -
  have "ucast a OR push_bit 8 (ucast b) = be_u16 b a" by (simp add: be_u16_def or.commute)
  then show ?thesis by (simp add: unat_be_u16 be_nat_Cons)
qed

lemma sum_words_eq: "sum_words s bs = s + of_nat (word_sum bs)"
proof (induction s bs rule: sum_words.induct)
  case (1 s a b bs)
  have "(ucast (ucast a OR push_bit 8 (ucast b) :: u16) :: u32) = of_nat (unat a + 256 * unat b)"
    by (simp only: unat_le16 [symmetric] of_nat_unat)
  with 1 show ?case by (simp add: algebra_simps)
qed auto

lemma word_sum_append: "even (length xs) \<Longrightarrow> word_sum (xs @ ys) = word_sum xs + word_sum ys"
  by (induction xs rule: word_sum.induct) auto

lemma word_sum_st16: "word_sum (st16 w) = unat w"
proof -
  have "ucast (ucast w :: u8) OR push_bit 8 (ucast (ucast (drop_bit 8 w) :: u8)) = w"
    by (rule bit_word_eqI) (auto simp: bit_simps)
  then have "unat w = unat (ucast w :: u8) + 256 * unat (ucast (drop_bit 8 w) :: u8)"
    using unat_le16 [of "ucast w" "ucast (drop_bit 8 w)"] by (simp only:)
  then show ?thesis by (simp add: st16_def)
qed

lemma word_sum_le: "2 * word_sum bs \<le> 65535 * (length bs + 1)"
proof (induction bs rule: word_sum.induct)
  case (1 a b bs)
  have "unat a \<le> 255" "unat b \<le> 255" using unat_u8_less [of a] unat_u8_less [of b] by linarith+
  with 1 show ?case by simp
next
  case (2 a)
  have "unat a \<le> 255" using unat_u8_less [of a] by linarith
  then show ?case by simp
qed simp

lemma fold_carry_spec:
  "unat (fold_carry s) < 65536 \<and> unat (fold_carry s) mod 65535 = unat s mod 65535 \<and> (unat (fold_carry s) = 0 \<longleftrightarrow> unat s = 0)"
proof (induction s rule: fold_carry.induct)
  case (1 s)
  show ?case
  proof (cases "drop_bit 16 s = 0")
    case True
    then show ?thesis by (simp add: fold_carry.simps [of s] high16_zero)
  next
    case False
    let ?s = "(s AND 0xFFFF) + drop_bit 16 s"
    have e: "unat s = 65536 * (unat s div 65536) + unat s mod 65536" by simp
    have "unat s = unat ?s + 65535 * (unat s div 65536)" unfolding fold_step using e by linarith
    then have "unat ?s mod 65535 = unat s mod 65535" by (metis mod_mult_self2)
    moreover have "unat ?s = 0 \<longleftrightarrow> unat s = 0"
      unfolding fold_step using e by (metis add_is_0 div_0 mod_0 mult_0_right)
    ultimately show ?thesis using 1 [OF False] False by (simp add: fold_carry.simps [of s])
  qed
qed

lemma unat_not_low16: "unat s < 65536 \<Longrightarrow> unat (ucast (NOT (s :: u32)) :: u16) = 65535 - unat s"
proof -
  assume s: "unat s < 65536"
  have "(ucast (NOT s) :: u16) = NOT (ucast s)" by (rule bit_word_eqI) (simp add: bit_simps)
  also have "\<dots> = - 1 - ucast s" by (simp add: not_eq_complement)
  finally have e: "(ucast (NOT s) :: u16) = - 1 - ucast s" .
  have "unat (ucast s :: u16) = unat s" using s by (simp add: unsigned_ucast_eq take_bit_nat_eq_self)
  moreover have "unat (- 1 - ucast s :: u16) = unat (- 1 :: u16) - unat (ucast s :: u16)"
    by (rule unat_sub) (simp add: word_order.extremum)
  moreover have "unat (- 1 :: u16) = 65535" by (simp add: unsigned_minus_1_eq_mask mask_eq_exp_minus_1)
  ultimately show ?thesis by (simp add: e)
qed

text \<open>A sum that includes its own complement folds to all ones.\<close>

lemma checksum_cancels:
  assumes c: "c = (ucast (NOT (fold_carry (of_nat n :: u32))) :: u16)" and n: "n + 65535 < 2 ^ 32"
  shows "(ucast (NOT (fold_carry (of_nat (n + unat c)))) :: u16) = 0"
proof -
  let ?f = "unat (fold_carry (of_nat n))" and ?g = "unat (fold_carry (of_nat (n + unat c)))"
  have un: "unat (of_nat n :: u32) = n" using n by (simp add: unat_of_nat)
  have f: "?f < 65536" "?f mod 65535 = n mod 65535" "?f = 0 \<longleftrightarrow> n = 0"
    using fold_carry_spec [of "of_nat n"] un by simp_all
  have uc: "unat c = 65535 - ?f" using f(1) by (simp add: c unat_not_low16)
  then have "n + unat c < 2 ^ 32" using n by linarith
  then have ug: "unat (of_nat (n + unat c) :: u32) = n + unat c" by (simp add: unat_of_nat del: of_nat_add)
  have g: "?g < 65536" "?g mod 65535 = (n + unat c) mod 65535" "?g = 0 \<longleftrightarrow> n + unat c = 0"
    using fold_carry_spec [of "of_nat (n + unat c)"] ug by (simp_all del: of_nat_add)
  have "(n + unat c) mod 65535 = (?f + unat c) mod 65535" using f(2) by (metis mod_add_left_eq)
  also have "?f + unat c = 65535" using uc f(1) by simp
  finally have "?g mod 65535 = 0" using g(2) by simp
  moreover have "n + unat c \<noteq> 0" using uc f(3) by auto
  then have "?g \<noteq> 0" using g(3) by simp
  ultimately have "?g = 65535" using g(1) by (auto simp: mod_eq_0_iff_dvd elim!: dvdE)
  then have "unat (ucast (NOT (fold_carry (of_nat (n + unat c)))) :: u16) = 0"
    using unat_not_low16 [of "fold_carry (of_nat (n + unat c))"] by (simp del: of_nat_add)
  then show ?thesis by (simp only: unat_eq_0)
qed


lemma pseudo_header_le: "\<exists>k. pseudo_header_sum a b p n = of_nat k \<and> k \<le> 6 * 65535"
proof -
  have w: "unat (x :: u16) \<le> 65535" for x using unsigned_less [of x, where ?'a = nat] by simp
  have h: "unat (v AND 0xFFFF :: u32) \<le> 65535" "unat (drop_bit 16 v :: u32) \<le> 65535" for v
  proof -
    have "unat v < 65536 * 65536" using unsigned_less [of v, where ?'a = nat] by simp
    then have "unat v div 65536 < 65536" by (rule less_mult_imp_div_less)
    then show "unat (v AND 0xFFFF) \<le> 65535" "unat (drop_bit 16 v) \<le> 65535"
      unfolding unat_low16 unat_high16 by simp_all
  qed
  let ?k = "unat (a AND 0xFFFF) + unat (drop_bit 16 a) + unat (b AND 0xFFFF) + unat (drop_bit 16 b) +
    unat (hton16 (ucast p)) + unat (hton16 n)"
  have "pseudo_header_sum a b p n = of_nat ?k" by (simp add: pseudo_header_sum_def)
  moreover have "?k \<le> 6 * 65535"
    using h [of a] h [of b] w [of "hton16 (ucast p)"] w [of "hton16 n"] by linarith
  ultimately show ?thesis by blast
qed

text \<open>Storing the checksum into a field summed as zero, at an even offset.\<close>

lemma stored_checksum:
  assumes s: "(s :: u32) = of_nat k" and e: "even (length xs)" and b: "k + word_sum (xs @ st16 0 @ ys) + 65535 < 2 ^ 32"
    and c: "c = (ucast (NOT (fold_carry (sum_words s (xs @ st16 0 @ ys)))) :: u16)"
  shows "(ucast (NOT (fold_carry (sum_words s (xs @ st16 c @ ys)))) :: u16) = 0"
proof -
  let ?n = "k + word_sum (xs @ st16 0 @ ys)"
  have ev: "even (length (st16 x))" for x by simp
  have "word_sum (xs @ st16 c @ ys) = word_sum (xs @ st16 0 @ ys) + unat c"
    using e ev by (simp only: word_sum_append word_sum_st16) simp
  then have "sum_words s (xs @ st16 c @ ys) = of_nat (?n + unat c)"
    by (simp add: sum_words_eq s)
  moreover have "c = ucast (NOT (fold_carry (of_nat ?n)))"
    by (simp add: c sum_words_eq s)
  ultimately show ?thesis using checksum_cancels [OF _ b] by simp
qed

lemma word_sum_bound: "length bs \<le> 65535 \<Longrightarrow> 6 * 65535 + word_sum bs + 65535 < 2 ^ 32"
  using word_sum_le [of bs] by simp

lemma ld32_st32: "ld32 (st32 w @ ys) 0 = w"
proof (rule bit_word_eqI)
  fix n
  assume "n < LENGTH(32)"
  then consider "n < 8" | "8 \<le> n" "n < 16" | "16 \<le> n" "n < 24" | "24 \<le> n" "n < 32" by fastforce
  then show "bit (ld32 (st32 w @ ys) 0) n \<longleftrightarrow> bit w n"
    by cases (auto simp: ld32_def st32_def byte_at_def bit_simps)
qed

lemma ip_header_split:
  "\<exists>xs ys. even (length xs) \<and> (\<forall>c. ip_header ln i p c s d = xs @ st16 c @ ys)"
  unfolding ip_header_def
  by (rule exI [of _ "[kIpv4VersionIhl5, 0] @ st16 (hton16 ln) @ st16 (hton16 i) @ st16 (hton16 kIpDontFragment) @ [kDefaultTtl, p]"],
      rule exI [of _ "st32 s @ st32 d"]) simp

lemma tcp_header_split:
  "\<exists>xs ys. even (length xs) \<and> (\<forall>c. tcp_header t sq ak hl fl w c @ rest = xs @ st16 c @ ys)"
  unfolding tcp_header_def
  by (rule exI [of _ "st16 (hton16 (ct_src_port t)) @ st16 (hton16 (ct_dst_port t)) @ st32 (hton32 sq) @ st32 (hton32 ak) @
        [push_bit 4 (of_nat (hl div 4)), fl] @ st16 (hton16 w)"],
      rule exI [of _ "st16 0 @ rest"]) simp

lemma ld32_drop: "ld32 bs (n + k) = ld32 (drop n bs) k"
  by (simp only: ld32_def byte_at_drop add.assoc)

lemma ip_checksum_zero:
  "internet_checksum (ip_header ln i p (internet_checksum (ip_header ln i p 0 s d)) s d) = 0"
proof -
  obtain xs ys where i: "\<And>c. ip_header ln i p c s d = xs @ st16 c @ ys" "even (length xs)"
    using ip_header_split by blast
  show ?thesis using stored_checksum [of 0 0 xs ys] word_sum_bound [of "ip_header ln i p 0 s d"] length_headers(1) [of ln i p 0 s d] i
    by (auto simp: internet_checksum_def st16_def)
qed

text \<open>
  C23. The checksums the template computes in software are the ones a receiver verifies: the sum of the
  IPv4 header, and of the TCP segment with its pseudo-header, complement to zero.
\<close>

theorem packet_checksums_verify:
  assumes "build_packet ph alloc sq ak fl w payload t = (Some m, t')" "\<not> pt_hw_cksum t"
    and "length (pt_src_mac t) = 6" "length (pt_dst_mac t) = 6"
  shows "internet_checksum (slice (mb_data m) 14 20) = 0 \<and>
    tcp_checksum (ld32 (mb_data m) 26) (ld32 (mb_data m) 30) (drop 34 (mb_data m)) = 0"
proof -
  define opts where "opts = (if fl AND kTcpSyn \<noteq> 0 then syn_options (pt_mss t) else [])"
  note b = build_packet_Some [OF assms(1) opts_def]
  let ?src = "hton32 (ct_src_ip (pt_tuple t))" and ?dst = "hton32 (ct_dst_ip (pt_tuple t))"
  define ip where "ip = (\<lambda>c. ip_header (of_nat (40 + length opts + length payload)) (pt_ip_id t) kIpProtoTcp c ?src ?dst)"
  define tcp where "tcp = (\<lambda>c. tcp_header (pt_tuple t) sq ak (20 + length opts) fl w c @ opts @ payload)"
  have d: "mb_data m = eth_header (pt_dst_mac t) (pt_src_mac t) @ ip (internet_checksum (ip 0)) @ tcp (tcp_checksum ?src ?dst (tcp 0))"
    using assms(1,2) unfolding build_packet_def write_packet_def ip_def tcp_def opts_def
    by (auto simp: Let_def split: option.splits if_splits)
  have l: "length (ip c) = 20" "length (tcp c) = 20 + length opts + length payload" for c by (simp_all add: ip_def tcp_def)
  have s: "slice (mb_data m) 14 20 = ip (internet_checksum (ip 0))" "drop 34 (mb_data m) = tcp (tcp_checksum ?src ?dst (tcp 0))"
    "drop 14 (mb_data m) = ip (internet_checksum (ip 0)) @ tcp (tcp_checksum ?src ?dst (tcp 0))"
    using assms(3,4) by (simp_all add: d slice_def l)
  have "ld32 (mb_data m) 26 = ?src" "ld32 (mb_data m) 30 = ?dst"
    using ld32_drop [of "mb_data m" 14 12] ld32_drop [of "mb_data m" 14 16] ld32_st32 [of ?src "[]"] ld32_st32 [of ?dst "[]"]
    by (simp_all add: s(3) ip_def ip_header_def ld32_def byte_at_def st16_def st32_def)
  moreover have "internet_checksum (ip (internet_checksum (ip 0))) = 0"
    unfolding ip_def by (rule ip_checksum_zero)
  moreover have "tcp_checksum ?src ?dst (tcp (tcp_checksum ?src ?dst (tcp 0))) = 0"
  proof -
    obtain xs ys where i: "\<And>c. tcp c = xs @ st16 c @ ys" "even (length xs)"
      unfolding tcp_def using tcp_header_split by blast
    let ?P = "pseudo_header_sum ?src ?dst kIpProtoTcp (of_nat (20 + length opts + length payload))"
    obtain k where k: "?P = of_nat k" "k \<le> 6 * 65535" using pseudo_header_le by blast
    have ck: "tcp_checksum ?src ?dst (tcp c) = ucast (NOT (fold_carry (sum_words ?P (xs @ st16 c @ ys))))" for c
      by (simp only: tcp_checksum_def l(2)) (simp only: i(1))
    have "k + word_sum (xs @ st16 0 @ ys) + 65535 < 2 ^ 32"
      using word_sum_bound [of "tcp 0"] b(2) l(2) [of 0] k(2) unfolding i(1) [of 0] by simp
    from stored_checksum [OF k(1) i(2) this refl] show ?thesis by (simp only: ck)
  qed
  ultimately show ?thesis by (simp add: s)
qed

section \<open>The UDP template\<close>

definition udp_header :: "u16 \<Rightarrow> u16 \<Rightarrow> u16 \<Rightarrow> u16 \<Rightarrow> bytes" where
  "udp_header sp dp len c = st16 (hton16 sp) @ st16 (hton16 dp) @ st16 (hton16 len) @ st16 c"

lemma length_udp_header [simp]: "length (udp_header sp dp len c) = 8"
  by (simp add: udp_header_def)

lemma put16_app:
  "length xs = i \<Longrightarrow> put16 i w (xs @ st16 v @ ys) = xs @ st16 w @ ys"
  by (simp add: put16_def)

text \<open>The packet between the Ethernet header and the payload, with both checksums open.\<close>

definition udp_frame :: "bytes \<Rightarrow> bytes \<Rightarrow> u32 \<Rightarrow> u32 \<Rightarrow> u16 \<Rightarrow> u16 \<Rightarrow> u16 \<Rightarrow> bytes \<Rightarrow> u16 \<Rightarrow> u16 \<Rightarrow> bytes" where
  "udp_frame sm dm s d sp dp i payload c c' = eth_header dm sm @
     ip_header (of_nat (28 + length payload)) i kIpProtoUdp c (hton32 s) (hton32 d) @
     udp_header sp dp (of_nat (8 + length payload)) c' @ payload"

lemma udp_frame_stores:
  assumes "length sm = 6" "length dm = 6"
  shows "up_packet payload (up_init sm dm s d sp dp hw i) = udp_frame sm dm s d sp dp i payload 0 0"
    "put16 24 x (udp_frame sm dm s d sp dp i payload c c') = udp_frame sm dm s d sp dp i payload x c'"
    "put16 40 x (udp_frame sm dm s d sp dp i payload c c') = udp_frame sm dm s d sp dp i payload c x"
    "slice (udp_frame sm dm s d sp dp i payload c c') 14 20 = ip_header (of_nat (28 + length payload)) i kIpProtoUdp c (hton32 s) (hton32 d)"
proof -
  let ?e = "eth_header dm sm" and ?ln = "hton16 (of_nat (28 + length payload))" and ?ul = "hton16 (of_nat (8 + length payload))"
  let ?v = "[kIpv4VersionIhl5, 0 :: u8]" and ?df = "st16 (hton16 kIpDontFragment) @ [kDefaultTtl, kIpProtoUdp]"
  let ?a = "st32 (hton32 s) @ st32 (hton32 d)" and ?p = "st16 (hton16 sp) @ st16 (hton16 dp)"
  have le: "length ?e = 14" using assms by simp
  note fr = udp_frame_def ip_header_def udp_header_def
  have "put16 16 ?ln (?e @ ?v @ st16 0 @ zs) = ?e @ ?v @ st16 ?ln @ zs" for zs
    using put16_app [of "?e @ ?v" 16 ?ln] le by simp
  moreover have "put16 18 (hton16 i) (?e @ ?v @ st16 ?ln @ st16 0 @ zs) = ?e @ ?v @ st16 ?ln @ st16 (hton16 i) @ zs" for zs
    using put16_app [of "?e @ ?v @ st16 ?ln" 18 "hton16 i"] le by simp
  moreover have "put16 38 ?ul (?e @ ?v @ st16 ?ln @ st16 (hton16 i) @ ?df @ st16 0 @ ?a @ ?p @ st16 0 @ zs) =
      ?e @ ?v @ st16 ?ln @ st16 (hton16 i) @ ?df @ st16 0 @ ?a @ ?p @ st16 ?ul @ zs" for zs
    using put16_app [of "?e @ ?v @ st16 ?ln @ st16 (hton16 i) @ ?df @ st16 0 @ ?a @ ?p" 38 ?ul] le by simp
  ultimately show "up_packet payload (up_init sm dm s d sp dp hw i) = udp_frame sm dm s d sp dp i payload 0 0"
    by (simp add: up_packet_def up_init_def Let_def fr)
  show "put16 24 x (udp_frame sm dm s d sp dp i payload c c') = udp_frame sm dm s d sp dp i payload x c'"
    using put16_app [of "?e @ ?v @ st16 ?ln @ st16 (hton16 i) @ ?df" 24 x] le by (simp add: fr)
  show "put16 40 x (udp_frame sm dm s d sp dp i payload c c') = udp_frame sm dm s d sp dp i payload c x"
    using put16_app [of "?e @ ?v @ st16 ?ln @ st16 (hton16 i) @ ?df @ st16 c @ ?a @ ?p @ st16 ?ul" 40 x] le by (simp add: fr)
  show "slice (udp_frame sm dm s d sp dp i payload c c') 14 20 = ip_header (of_nat (28 + length payload)) i kIpProtoUdp c (hton32 s) (hton32 d)"
    using le by (simp add: udp_frame_def slice_def)
qed

lemma up_fill_data:
  assumes l: "length sm = 6" "length dm = 6"
    and f: "up_fill ph m payload (up_init sm dm s d sp dp hw i) = (n, m', t')" "n \<noteq> 0"
  shows "\<exists>c c'. mb_data m' = udp_frame sm dm s d sp dp i payload c c'"
    "n = 42 + length payload" "n \<le> 65535" "mb_nb_segs m' = 1" "t' = up_init sm dm s d sp dp hw (i + 1)"
    "\<not> hw \<Longrightarrow> internet_checksum (slice (mb_data m') 14 20) = 0"
proof -
  let ?ip = "ip_header (of_nat (28 + length payload)) i kIpProtoUdp 0 (hton32 s) (hton32 d)"
  have t: "up_hw_cksum (up_init sm dm s d sp dp hw i) = hw"
    "(up_init sm dm s d sp dp hw i)\<lparr>up_ip_id := up_ip_id (up_init sm dm s d sp dp hw i) + 1\<rparr> = up_init sm dm s d sp dp hw (i + 1)"
    by (simp_all add: up_init_def)
  have r: "n = 42 + length payload" "n \<le> 65535" "mb_nb_segs m' = 1" "t' = up_init sm dm s d sp dp hw (i + 1)"
    "mb_data m' = udp_frame sm dm s d sp dp i payload (if hw then 0 else internet_checksum ?ip)
       (if hw then ph ?ip [TX_IP_CKSUM, TX_UDP_CKSUM] else 0)"
    using f unfolding up_fill_def Let_def t udp_frame_stores [OF l] by (auto simp: mbuf_reset_def split: if_splits)
  then show "\<exists>c c'. mb_data m' = udp_frame sm dm s d sp dp i payload c c'" "n = 42 + length payload" "n \<le> 65535"
    "mb_nb_segs m' = 1" "t' = up_init sm dm s d sp dp hw (i + 1)" by blast+
  show "internet_checksum (slice (mb_data m') 14 20) = 0" if "\<not> hw"
    using that by (simp only: r(5) udp_frame_stores(4) [OF l] if_False ip_checksum_zero)
qed

lemma udp_fields:
  assumes s: "seg = udp_header sp dp len c @ rest"
  shows "net16 seg 0 = sp" "net16 seg 2 = dp" "net16 seg 4 = len" "8 \<le> length seg" "drop 8 seg = rest"
proof -
  have c: "st16 c = [ucast c, ucast (drop_bit 8 c)]" by (simp add: st16_def)
  show "net16 seg 0 = sp" "net16 seg 2 = dp" "net16 seg 4 = len" "8 \<le> length seg" "drop 8 seg = rest"
    by (simp_all add: s c udp_header_def st16_hton16 byte_at_def net16_eq be_u16_bytes)
qed

text \<open>
  C27. A datagram the UDP template writes is read back by the parser with its payload, addresses and ports,
  also behind Ethernet padding, and its IPv4 header checksum verifies when the card does not compute it.
\<close>

theorem udp_packet_round_trip:
  assumes "up_fill ph m payload (up_init sm dm s d sp dp hw i) = (n, m', t')" "n \<noteq> 0"
    and "length sm = 6" "length dm = 6" and "mb_data r = mb_data m' @ pad" "mb_nb_segs r = 1"
    and "p = parse_udp_packet r"
  shows "uq_udp p \<noteq> None \<and> uq_bytes p = payload \<and> uq_payload_len p = length payload \<and> uq_src_ip p = s \<and> uq_dst_ip p = d \<and>
    uq_src_port p = sp \<and> uq_dst_port p = dp \<and> n = length (mb_data m') \<and> (internet_checksum (slice (mb_data m') 14 20) = 0 \<or> hw)"
proof -
  note u = up_fill_data [OF assms(3,4,1,2)]
  from u(1) assms(5) obtain c c' where d: "mb_data r = eth_header dm sm @ ip_header (of_nat (28 + length payload)) i kIpProtoUdp c (hton32 s) (hton32 d) @
     udp_header sp dp (of_nat (8 + length payload)) c' @ payload @ pad" and m': "length (mb_data m') = n"
    using u(2) assms(3,4) by (auto simp: udp_frame_def)
  note f = ip_fields [OF assms(4,3) d]
  note g = udp_fields [OF f(9)]
  have h: "net16 (mb_data r) 34 = sp" "net16 (mb_data r) 36 = dp" "unat (net16 (mb_data r) 38) = 8 + length payload"
    "unat (net16 (mb_data r) 16) = 28 + length payload"
    using g f(3) u(2,3) net16_drop [of "mb_data r" 34 0] net16_drop [of "mb_data r" 34 2] net16_drop [of "mb_data r" 34 4]
    by (simp_all add: unat_of_nat take_bit_nat_eq_self del: of_nat_add)
  have l: "length (mb_data r) = 42 + length payload + length pad" using assms(3,4) by (simp add: d)
  have "drop 42 (mb_data r) = payload @ pad" using g(5) drop_drop [of 8 34 "mb_data r"] by simp
  moreover have "parse_udp_packet r = \<lparr>uq_data = mb_data r, uq_eth = Some 0, uq_ip = Some 14, uq_udp = Some 34,
      uq_payload = Some 42, uq_payload_len = length payload\<rparr>"
    using l h assms(6) by (simp add: parse_udp_packet_def parse_ip_written [OF assms(4,3) _ d] parse_udp_from_ip_def Let_def)
  ultimately show ?thesis
    using assms(7) f(6,7) h m' u(6)
    by (auto simp: uq_bytes_def uq_src_ip_def uq_dst_ip_def uq_src_port_def uq_dst_port_def slice_def)
qed


definition demo_template :: PacketTemplate where
  "demo_template = \<lparr>pt_src_mac = [2, 0, 0, 0, 0, 1], pt_dst_mac = [2, 0, 0, 0, 0, 2],
     pt_tuple = \<lparr>ct_src_ip = 0x0A000001, ct_dst_ip = 0x0A000002, ct_src_port = 40000, ct_dst_port = 443\<rparr>,
     pt_ip_id = 0xFFFF, pt_mss = 1460, pt_hw_cksum = False\<rparr>"

lemma demo_build:
  "fst (build_packet (\<lambda>_ _. 0) (Some 2048) 0xFFFFFFF0 9 0x18 512 [1, 2, 3] demo_template) \<noteq> None"
  "length (pt_src_mac demo_template) = 6" "length (pt_dst_mac demo_template) = 6" "\<not> pt_hw_cksum demo_template"
  by (simp_all add: build_packet_def demo_template_def kTcpSyn_def)

theorem tcp_packet_round_trip_witness:
  "\<exists>m. fst (build_packet (\<lambda>_ _. 0) (Some 2048) 0xFFFFFFF0 9 0x18 512 [1, 2, 3] demo_template) = Some m \<and>
     pp_bytes (parse_packet m) = [1, 2, 3] \<and> pp_seq (parse_packet m) = 0xFFFFFFF0"
proof -
  obtain m t' where b: "build_packet (\<lambda>_ _. 0) (Some 2048) 0xFFFFFFF0 9 0x18 512 [1, 2, 3] demo_template = (Some m, t')"
    using demo_build(1) by (cases "build_packet (\<lambda>_ _. 0) (Some 2048) 0xFFFFFFF0 9 0x18 512 [1, 2, 3] demo_template") auto
  then show ?thesis
    using tcp_packet_round_trip [OF b demo_build(2,3), of m "[]"] build_packet_Some(4) [OF b refl] by simp
qed

theorem packet_checksums_verify_witness:
  "\<exists>m. fst (build_packet (\<lambda>_ _. 0) (Some 2048) 0xFFFFFFF0 9 0x18 512 [1, 2, 3] demo_template) = Some m \<and>
     internet_checksum (slice (mb_data m) 14 20) = 0"
proof -
  obtain m t' where b: "build_packet (\<lambda>_ _. 0) (Some 2048) 0xFFFFFFF0 9 0x18 512 [1, 2, 3] demo_template = (Some m, t')"
    using demo_build(1) by (cases "build_packet (\<lambda>_ _. 0) (Some 2048) 0xFFFFFFF0 9 0x18 512 [1, 2, 3] demo_template") auto
  then show ?thesis
    using packet_checksums_verify [OF b demo_build(4,2,3)] by simp
qed

theorem udp_packet_round_trip_witness:
  "\<exists>m. fst (snd (up_fill (\<lambda>_ _. 0) (fresh_mbuf 2048) [7, 8] (up_init [2, 0, 0, 0, 0, 1] [2, 0, 0, 0, 0, 2] 1 2 3 4 False 5))) = m \<and>
     uq_bytes (parse_udp_packet m) = [7, 8]"
proof -
  let ?u = "up_fill (\<lambda>_ _. 0) (fresh_mbuf 2048) [7, 8] (up_init [2, 0, 0, 0, 0, 1] [2, 0, 0, 0, 0, 2] 1 2 3 4 False 5)"
  obtain n m t' where u: "?u = (n, m, t')" by (cases ?u)
  moreover have "fst ?u \<noteq> 0" by (simp add: up_fill_def Let_def mbuf_reset_def fresh_mbuf_def)
  ultimately have n: "n \<noteq> 0" by simp
  show ?thesis
    using udp_packet_round_trip [OF u n, of m "[]"] up_fill_data(4) [OF _ _ u n] u by simp
qed

end
