(* ===== verification/Tcp_Session.thy ===== *)
theory Tcp_Session
  imports Kernel_Stream Packet
begin

text \<open>
  The user-space TCP session of \<^verbatim>\<open>eph-net-dpdk/include/eph/dpdk/tcp.hpp\<close> (\<open>TcpSession\<close>): handshake,
  segment transmission, the receive path with its reorder buffer, acknowledgements, keepalive and close.
  The memory pool and the network card answer each call as the functions \<open>nic_alloc\<close> and \<open>nic_tx\<close> say, call
  by call; packets handed to the card are appended to \<open>nic_wire\<close>, mbufs given back to the pool to
  \<open>ts_freed\<close>, and invocations of the data callback to \<open>ts_delivered\<close>. Clock readings are arguments, and so
  is \<open>ReorderSlots\<close>.
\<close>

section \<open>Configuration and state\<close>

record TcpConfig =
  tc_tuple :: ConnectionTuple
  tc_src_mac :: bytes
  tc_dst_mac :: bytes
  tc_mss :: u16
  tc_recv_window :: u32
  tc_max_rx_burst :: u16
  tc_keepalive_interval :: int
  tc_keepalive_probes :: u8

definition tc_validate :: "TcpConfig \<Rightarrow> string" where
  "tc_validate c =
     (if ct_validate (tc_tuple c) \<noteq> [] then ct_validate (tc_tuple c)
      else if tc_mss c = 0 then ''mss must be > 0''
      else if tc_mss c > kJumboMaxMss then ''mss exceeds jumbo frame limit (9000)''
      else if tc_recv_window c = 0 then ''recv_window must be > 0''
      else if tc_recv_window c > 65535 then ''recv_window exceeds 65535 (window scaling not implemented)''
      else if tc_max_rx_burst c > 32 then ''max_rx_burst must be in [0, 32] (0 = auto)''
      else if tc_keepalive_interval c < 0 then ''keepalive_interval must be >= 0 (use 0 to disable)''
      else if tc_keepalive_interval c > 0 \<and> (tc_keepalive_probes c = 0 \<or> tc_keepalive_probes c > 10)
      then ''keepalive_probes must be in [1, 10] when keepalive_interval > 0''
      else [])"

definition kDefaultRxBudgetBytes :: nat where "kDefaultRxBudgetBytes = 32768"
definition kRxBurstSize :: nat where "kRxBurstSize = 32"

definition ack_timer_expired :: "u64 \<Rightarrow> u64 \<Rightarrow> u64 \<Rightarrow> bool" where
  "ack_timer_expired pending_since_tsc now_tsc delay_cycles =
     (if pending_since_tsc = 0 then False else now_tsc - pending_since_tsc \<ge> delay_cycles)"

record TcpStats =
  tx_packets :: u64
  rx_packets :: u64
  rx_bursts :: u64
  tx_bytes :: u64
  rx_bytes :: u64
  acks_sent :: u64
  out_of_order :: u64
  resets_received :: u64
  mss_negotiations_applied :: u64
  icmp_frag_needed_received :: u64
  keepalive_probes_sent :: u64
  keepalive_send_failures :: u64
  reorder_hits :: u64
  reorder_overflows :: u64
  max_gap_size :: u32
  packets_dropped :: u64
  fragment_rejected :: u64
  dup_segments :: u64
  numerical_anomalies :: u64
  gap_histogram :: "u64 list"

definition countl_zero :: "u32 \<Rightarrow> nat" where
  "countl_zero w = length (takeWhile Not (map (bit w) (rev [0..<32])))"

definition gap_bucket :: "u32 \<Rightarrow> nat" where
  "gap_bucket gap = (if gap = 0 then 0 else 31 - countl_zero gap)"

definition tcp_stats_minus :: "TcpStats \<Rightarrow> TcpStats \<Rightarrow> TcpStats" where
  "tcp_stats_minus l r =
     \<lparr>tx_packets = tx_packets l - tx_packets r, rx_packets = rx_packets l - rx_packets r,
      rx_bursts = rx_bursts l - rx_bursts r, tx_bytes = tx_bytes l - tx_bytes r, rx_bytes = rx_bytes l - rx_bytes r,
      acks_sent = acks_sent l - acks_sent r, out_of_order = out_of_order l - out_of_order r,
      resets_received = resets_received l - resets_received r,
      mss_negotiations_applied = mss_negotiations_applied l - mss_negotiations_applied r,
      icmp_frag_needed_received = icmp_frag_needed_received l - icmp_frag_needed_received r,
      keepalive_probes_sent = keepalive_probes_sent l - keepalive_probes_sent r,
      keepalive_send_failures = keepalive_send_failures l - keepalive_send_failures r,
      reorder_hits = reorder_hits l - reorder_hits r, reorder_overflows = reorder_overflows l - reorder_overflows r,
      max_gap_size = max_gap_size l, packets_dropped = packets_dropped l - packets_dropped r,
      fragment_rejected = fragment_rejected l - fragment_rejected r, dup_segments = dup_segments l - dup_segments r,
      numerical_anomalies = numerical_anomalies l - numerical_anomalies r,
      gap_histogram = map2 (-) (gap_histogram l) (gap_histogram r)\<rparr>"

definition no_stats :: TcpStats where
  "no_stats =
     \<lparr>tx_packets = 0, rx_packets = 0, rx_bursts = 0, tx_bytes = 0, rx_bytes = 0, acks_sent = 0, out_of_order = 0,
      resets_received = 0, mss_negotiations_applied = 0, icmp_frag_needed_received = 0, keepalive_probes_sent = 0,
      keepalive_send_failures = 0, reorder_hits = 0, reorder_overflows = 0, max_gap_size = 0, packets_dropped = 0,
      fragment_rejected = 0, dup_segments = 0, numerical_anomalies = 0, gap_histogram = replicate 32 0\<rparr>"

text \<open>\<open>len\<close> and the first \<open>len\<close> bytes of \<open>data\<close> are one byte list; \<open>ts_reorder\<close> holds the first \<open>reorder_count_\<close> entries.\<close>

record ReorderEntry =
  re_seq :: u32
  re_data :: bytes

record nic =
  nic_phdr :: "bytes \<Rightarrow> ol_flag list \<Rightarrow> u16"
  nic_alloc :: "nat \<Rightarrow> nat option"
  nic_tx :: "nat \<Rightarrow> nat \<Rightarrow> nat"
  nic_allocs :: nat
  nic_bursts :: nat
  nic_wire :: "mbuf list"

record TcpSession =
  ts_config :: TcpConfig
  ts_state :: TcpState
  ts_template :: PacketTemplate
  ts_snd_nxt :: u32
  ts_snd_una :: u32
  ts_rcv_nxt :: u32
  ts_rcv_wnd :: u16
  ts_snd_wnd :: u16
  ts_effective_mss :: u16
  ts_peer_mss :: u16
  ts_peer_mss_negotiated :: bool
  ts_reorder :: "ReorderEntry list"
  ts_stats :: TcpStats
  ts_ack_pending :: u64
  ts_time_wait_deadline :: int
  ts_syn_retransmit_at :: int
  ts_rx_feed :: bytes
  ts_feed_only :: bool
  ts_last_rx_tsc :: u64
  ts_last_keepalive_tsc :: u64
  ts_keepalive_misses :: u8
  ts_last_rx_burst_tsc :: u64
  ts_nic :: nic
  ts_delivered :: "bytes list"
  ts_freed :: "mbuf list"

text \<open>The constructor; \<open>isn\<close> is the answer of \<open>generate_isn\<close>.\<close>

definition mk_TcpSession :: "TcpConfig \<Rightarrow> nic \<Rightarrow> u32 option \<Rightarrow> TcpSession" where
  "mk_TcpSession c n isn =
     (let snd_nxt = (case isn of None \<Rightarrow> 1 | Some v \<Rightarrow> v) in
      \<lparr>ts_config = c, ts_state = Closed,
       ts_template = \<lparr>pt_src_mac = tc_src_mac c, pt_dst_mac = tc_dst_mac c, pt_tuple = tc_tuple c, pt_ip_id = 0,
                      pt_mss = tc_mss c, pt_hw_cksum = False\<rparr>,
       ts_snd_nxt = snd_nxt, ts_snd_una = snd_nxt, ts_rcv_nxt = 0, ts_rcv_wnd = ucast (tc_recv_window c), ts_snd_wnd = 0,
       ts_effective_mss = tc_mss c, ts_peer_mss = 0, ts_peer_mss_negotiated = False, ts_reorder = [], ts_stats = no_stats,
       ts_ack_pending = 0, ts_time_wait_deadline = 0, ts_syn_retransmit_at = 0, ts_rx_feed = [], ts_feed_only = False,
       ts_last_rx_tsc = 0, ts_last_keepalive_tsc = 0, ts_keepalive_misses = 0, ts_last_rx_burst_tsc = 0,
       ts_nic = n, ts_delivered = [], ts_freed = []\<rparr>)"

abbreviation upd_stats :: "(TcpStats \<Rightarrow> TcpStats) \<Rightarrow> TcpSession \<Rightarrow> TcpSession" where
  "upd_stats f s \<equiv> s\<lparr>ts_stats := f (ts_stats s)\<rparr>"

section \<open>Transmission\<close>

definition session_build :: "u32 \<Rightarrow> u32 \<Rightarrow> u8 \<Rightarrow> u16 \<Rightarrow> bytes \<Rightarrow> TcpSession \<Rightarrow> mbuf option \<times> TcpSession" where
  "session_build seq ack flags window payload s =
     (let n = ts_nic s;
          (mb, t) = build_packet (nic_phdr n) (nic_alloc n (nic_allocs n)) seq ack flags window payload (ts_template s) in
      (mb, s\<lparr>ts_template := t, ts_nic := n\<lparr>nic_allocs := nic_allocs n + 1\<rparr>\<rparr>))"

text \<open>\<open>rte_eth_tx_burst\<close>: the card takes the first packets of the burst.\<close>

definition tx_burst :: "mbuf list \<Rightarrow> TcpSession \<Rightarrow> nat \<times> TcpSession" where
  "tx_burst ms s =
     (let n = ts_nic s; sent = min (length ms) (nic_tx n (nic_bursts n) (length ms)) in
      (sent, s\<lparr>ts_nic := n\<lparr>nic_bursts := nic_bursts n + 1, nic_wire := nic_wire n @ take sent ms\<rparr>\<rparr>))"

datatype tx_result = NoMbuf | NotSent | Sent

definition tx_segment :: "u32 \<Rightarrow> u32 \<Rightarrow> u8 \<Rightarrow> u16 \<Rightarrow> bytes \<Rightarrow> TcpSession \<Rightarrow> tx_result \<times> TcpSession" where
  "tx_segment seq ack flags window payload s =
     (case session_build seq ack flags window payload s of
        (None, s) \<Rightarrow> (NoMbuf, s)
      | (Some m, s) \<Rightarrow>
          let (sent, s) = tx_burst [m] s in
          if sent \<noteq> 1 then (NotSent, s\<lparr>ts_freed := ts_freed s @ [m]\<rparr>)
          else (Sent, upd_stats (\<lambda>st. st\<lparr>tx_packets := tx_packets st + 1\<rparr>) s))"

definition send_ack :: "TcpSession \<Rightarrow> (ErrorInfo, unit) expected \<times> TcpSession" where
  "send_ack s =
     (case tx_segment (ts_snd_nxt s) (ts_rcv_nxt s) kTcpAck (ts_rcv_wnd s) [] s of
        (NoMbuf, s) \<Rightarrow> (Inl (ErrorInfo OutOfMemory ''TcpSession::send_ack: mbuf allocation failed''), s)
      | (NotSent, s) \<Rightarrow> (Inl (ErrorInfo BufferFull ''TcpSession::send_ack: tx_burst failed''), s)
      | (Sent, s) \<Rightarrow> (Inr (), upd_stats (\<lambda>st. st\<lparr>acks_sent := acks_sent st + 1\<rparr>) s))"

definition tcp_send :: "bytes \<Rightarrow> TcpSession \<Rightarrow> (ErrorInfo, nat) expected \<times> TcpSession" where
  "tcp_send data s =
     (if ts_state s \<noteq> Established then (Inl (ErrorInfo Disconnected ''TcpSession::send: session not Established''), s)
      else if length data > unat (ts_effective_mss s)
      then (Inl (ErrorInfo InvalidConfig ''TcpSession::send: payload exceeds effective MSS''), s)
      else
        case tx_segment (ts_snd_nxt s) (ts_rcv_nxt s) (kTcpAck OR kTcpPsh) (ts_rcv_wnd s) data s of
          (NoMbuf, s) \<Rightarrow> (Inl (ErrorInfo OutOfMemory ''TcpSession::send: mbuf allocation failed''), s)
        | (NotSent, s) \<Rightarrow> (Inl (ErrorInfo BufferFull ''TcpSession::send: tx_burst failed''), s)
        | (Sent, s) \<Rightarrow>
            (Inr (length data),
             upd_stats (\<lambda>st. st\<lparr>tx_bytes := tx_bytes st + of_nat (length data)\<rparr>)
               (s\<lparr>ts_ack_pending := 0, ts_snd_nxt := ts_snd_nxt s + of_nat (length data)\<rparr>)))"

definition kMaxBatchSize :: nat where "kMaxBatchSize = 32"

text \<open>The preparation loop of \<open>send_batch\<close>: it stops at the first oversized segment or failed allocation.\<close>

fun prepare_batch :: "bytes list \<Rightarrow> (mbuf \<times> nat) list \<Rightarrow> TcpSession \<Rightarrow> (mbuf \<times> nat) list \<times> TcpSession" where
  "prepare_batch [] done s = (done, s)"
| "prepare_batch (seg # segs) done s =
     (if length seg > unat (ts_effective_mss s) then (done, s)
      else
        case session_build (ts_snd_nxt s + of_nat (sum_list (map snd done))) (ts_rcv_nxt s) (kTcpAck OR kTcpPsh)
               (ts_rcv_wnd s) seg s of
          (None, s) \<Rightarrow> (done, s)
        | (Some m, s) \<Rightarrow> prepare_batch segs (done @ [(m, length seg)]) s)"

definition send_batch :: "bytes list \<Rightarrow> TcpSession \<Rightarrow> (nat \<times> nat) \<times> TcpSession" where
  "send_batch segments s =
     (if ts_state s \<noteq> Established then ((0, length segments), s)
      else
        let (prepared, s) = prepare_batch (take kMaxBatchSize segments) [] s in
        if prepared = [] then ((0, length segments), s)
        else
          let (sent, s) = tx_burst (map fst prepared) s;
              sent_bytes = of_nat (sum_list (map snd (take sent prepared)));
              s = s\<lparr>ts_snd_nxt := ts_snd_nxt s + sent_bytes,
                    ts_ack_pending := (if sent > 0 then 0 else ts_ack_pending s),
                    ts_freed := ts_freed s @ map fst (drop sent prepared)\<rparr> in
          ((sent, length segments),
           upd_stats (\<lambda>st. st\<lparr>tx_packets := tx_packets st + of_nat sent, tx_bytes := tx_bytes st + ucast sent_bytes\<rparr>) s))"

definition build_data_packet :: "mbuf \<Rightarrow> bytes \<Rightarrow> TcpSession \<Rightarrow> mbuf option \<times> TcpSession" where
  "build_data_packet m data s =
     (if ts_state s \<noteq> Established \<or> length data > unat (ts_effective_mss s) then (None, s)
      else
        let (written, m, t) = fill_packet (nic_phdr (ts_nic s)) m (ts_snd_nxt s) (ts_rcv_nxt s) (kTcpAck OR kTcpPsh)
                                (ts_rcv_wnd s) data (ts_template s);
            s = s\<lparr>ts_template := t\<rparr> in
        if written = 0 then (None, s)
        else
          (Some m,
           upd_stats (\<lambda>st. st\<lparr>tx_packets := tx_packets st + 1, tx_bytes := tx_bytes st + of_nat (length data)\<rparr>)
             (s\<lparr>ts_snd_nxt := ts_snd_nxt s + of_nat (length data)\<rparr>)))"

section \<open>The receive path\<close>

definition seq_after :: "u32 \<Rightarrow> u32 \<Rightarrow> bool" where
  "seq_after a b \<longleftrightarrow> sint (a - b) > 0"

text \<open>Clock readings are in milliseconds; this is \<open>2 * kMsl\<close>.\<close>

definition kMsl2 :: int where "kMsl2 = 120000"

definition enter_time_wait :: "int \<Rightarrow> TcpSession \<Rightarrow> TcpSession" where
  "enter_time_wait now s = s\<lparr>ts_state := TimeWait, ts_time_wait_deadline := now + kMsl2\<rparr>"

definition deliver :: "bytes \<Rightarrow> TcpSession \<Rightarrow> TcpSession" where
  "deliver data s =
     upd_stats (\<lambda>st. st\<lparr>rx_bytes := rx_bytes st + of_nat (length data)\<rparr>)
       (s\<lparr>ts_delivered := ts_delivered s @ [data], ts_rcv_nxt := ts_rcv_nxt s + of_nat (length data)\<rparr>)"

text \<open>Overwriting entry \<open>i\<close> with the last one and dropping the last.\<close>

definition swap_remove :: "nat \<Rightarrow> 'a list \<Rightarrow> 'a list" where
  "swap_remove i xs = butlast (xs[i := last xs])"

function drain_reorder_buf :: "TcpSession \<Rightarrow> nat \<times> TcpSession" where
  "drain_reorder_buf s =
     (case find (\<lambda>i. re_seq (ts_reorder s ! i) = ts_rcv_nxt s) [0..<length (ts_reorder s)] of
        None \<Rightarrow> (0, s)
      | Some i \<Rightarrow>
          let (n, s) = drain_reorder_buf ((deliver (re_data (ts_reorder s ! i)) s)\<lparr>ts_reorder := swap_remove i (ts_reorder s)\<rparr>) in
          (n + 1, s))"
  by pat_completeness auto
termination
  by (relation "measure (\<lambda>s. length (ts_reorder s))") (auto simp: swap_remove_def find_Some_iff)

declare drain_reorder_buf.simps [simp del]

definition rst_in_window :: "u32 \<Rightarrow> TcpSession \<Rightarrow> bool" where
  "rst_in_window rst_seq s \<longleftrightarrow> rst_seq = ts_rcv_nxt s \<or>
     (seq_after rst_seq (ts_rcv_nxt s) \<and> \<not> seq_after rst_seq (ts_rcv_nxt s + ucast (ts_rcv_wnd s)))"

definition rx_ack :: "int \<Rightarrow> ParsedPacket \<Rightarrow> TcpSession \<Rightarrow> TcpSession" where
  "rx_ack now p s =
     (if \<not> has_flag kTcpAck p then s
      else
        let s = (if seq_after (pp_ack p) (ts_snd_una s) \<and> \<not> seq_after (pp_ack p) (ts_snd_nxt s)
                 then s\<lparr>ts_snd_una := pp_ack p\<rparr> else s);
            s = s\<lparr>ts_snd_wnd := pp_window p\<rparr> in
        if ts_snd_una s = ts_snd_nxt s then
          (case ts_state s of
             FinWait1 \<Rightarrow> s\<lparr>ts_state := FinWait2\<rparr>
           | Closing \<Rightarrow> enter_time_wait now s
           | LastAck \<Rightarrow> s\<lparr>ts_state := Closed\<rparr>
           | _ \<Rightarrow> s)
        else s)"

definition record_gap :: "u32 \<Rightarrow> TcpSession \<Rightarrow> TcpSession" where
  "record_gap seg_seq s =
     (if seq_after seg_seq (ts_rcv_nxt s) then
        let gap = seg_seq - ts_rcv_nxt s; b = gap_bucket gap in
        upd_stats (\<lambda>st. st\<lparr>max_gap_size := max gap (max_gap_size st),
                          gap_histogram := (gap_histogram st)[b := gap_histogram st ! b + 1]\<rparr>) s
      else s)"

text \<open>A segment with payload that does not start at \<open>rcv_nxt_\<close>: the error, if any, and the new state.\<close>

definition rx_out_of_order :: "nat \<Rightarrow> ParsedPacket \<Rightarrow> TcpSession \<Rightarrow> ErrorInfo option \<times> TcpSession" where
  "rx_out_of_order slots p s =
     (let seg_seq = pp_seq p;
          s = record_gap seg_seq (upd_stats (\<lambda>st. st\<lparr>out_of_order := out_of_order st + 1\<rparr>) s) in
      if pp_payload_len p > kDefaultMss then (None, s)
      else if seq_after seg_seq (ts_rcv_nxt s) \<and> length (ts_reorder s) < slots \<and> pp_payload_len p \<le> kDefaultMss \<and> pp_payload p \<noteq> None
      then
        (None, upd_stats (\<lambda>st. st\<lparr>reorder_hits := reorder_hits st + 1\<rparr>)
                 (s\<lparr>ts_reorder := ts_reorder s @ [\<lparr>re_seq = seg_seq, re_data = pp_bytes p\<rparr>]\<rparr>))
      else if \<not> seq_after seg_seq (ts_rcv_nxt s)
      then (None, upd_stats (\<lambda>st. st\<lparr>dup_segments := dup_segments st + 1\<rparr>) s)
      else
        (Some (ErrorInfo Disconnected ''TcpSession::process_rx: packet loss detected (reorder buffer full)''),
         upd_stats (\<lambda>st. st\<lparr>reorder_overflows := reorder_overflows st + 1\<rparr>) s))"

definition rx_in_order :: "ParsedPacket \<Rightarrow> TcpSession \<Rightarrow> (nat \<times> bool) \<times> TcpSession" where
  "rx_in_order p s =
     (if pp_payload_len p > 0 \<and> pp_payload p \<noteq> None
      then let (n, s) = drain_reorder_buf (deliver (pp_bytes p) s) in ((n + 1, True), s)
      else ((0, False), s))"

definition rx_fin :: "int \<Rightarrow> ParsedPacket \<Rightarrow> TcpSession \<Rightarrow> bool \<times> TcpSession" where
  "rx_fin now p s =
     (if has_flag kTcpFin p \<and> pp_seq p + of_nat (pp_payload_len p) = ts_rcv_nxt s then
        (case ts_state s of
           Established \<Rightarrow> (True, s\<lparr>ts_rcv_nxt := ts_rcv_nxt s + 1, ts_state := CloseWait\<rparr>)
         | FinWait1 \<Rightarrow>
             let s = s\<lparr>ts_rcv_nxt := ts_rcv_nxt s + 1\<rparr> in
             (True, if ts_snd_una s = ts_snd_nxt s then enter_time_wait now s else s\<lparr>ts_state := Closing\<rparr>)
         | Closing \<Rightarrow> (True, enter_time_wait now (s\<lparr>ts_rcv_nxt := ts_rcv_nxt s + 1\<rparr>))
         | FinWait2 \<Rightarrow> (True, enter_time_wait now (s\<lparr>ts_rcv_nxt := ts_rcv_nxt s + 1\<rparr>))
         | _ \<Rightarrow> (False, s))
      else (False, s))"

definition receiving :: "TcpState \<Rightarrow> bool" where
  "receiving st \<longleftrightarrow> st \<in> {Established, FinWait1, FinWait2, CloseWait, Closing}"

text \<open>A matching segment refreshes the keepalive baseline.\<close>

definition rx_touch :: "TcpSession \<Rightarrow> TcpSession" where
  "rx_touch s =
     upd_stats (\<lambda>st. st\<lparr>rx_packets := rx_packets st + 1\<rparr>)
       (s\<lparr>ts_last_rx_tsc := ts_last_rx_burst_tsc s, ts_keepalive_misses := 0\<rparr>)"

definition rx_rst :: "ParsedPacket \<Rightarrow> TcpSession \<Rightarrow> (ErrorInfo, nat \<times> bool) expected \<times> TcpSession" where
  "rx_rst p s =
     (if \<not> rst_in_window (pp_seq p) s then (Inr (0, False), s)
      else (Inl (ErrorInfo Disconnected ''TcpSession::process_rx: connection reset by peer''),
            upd_stats (\<lambda>st. st\<lparr>resets_received := resets_received st + 1\<rparr>) (s\<lparr>ts_state := Closed\<rparr>)))"

text \<open>
  Sequence check, delivery and FIN, after the acknowledgement has been processed: an error aborts the burst,
  otherwise the data count and whether an ACK is owed.
\<close>

definition rx_data :: "nat \<Rightarrow> int \<Rightarrow> ParsedPacket \<Rightarrow> TcpSession \<Rightarrow> (ErrorInfo, nat \<times> bool) expected \<times> TcpSession" where
  "rx_data slots now p s =
     (if receiving (ts_state s) \<and> pp_seq p \<noteq> ts_rcv_nxt s \<and> pp_payload_len p > 0 then
        (case rx_out_of_order slots p s of (Some e, s) \<Rightarrow> (Inl e, s) | (None, s) \<Rightarrow> (Inr (0, False), s))
      else
        let ((n, ack), s) = (if receiving (ts_state s) then rx_in_order p s else ((0, False), s));
            (ack2, s) = rx_fin now p s in
        (Inr (n, ack \<or> ack2), s))"

text \<open>The body of the packet loop.\<close>

definition rx_packet :: "nat \<Rightarrow> int \<Rightarrow> mbuf \<Rightarrow> TcpSession \<Rightarrow> (ErrorInfo, nat \<times> bool) expected \<times> TcpSession" where
  "rx_packet slots now m s =
     (let p = parse_packet m in
      if pp_tcp p = None \<or> \<not> pp_matches (tc_tuple (ts_config s)) p then
        (Inr (0, False),
         if pp_tcp p = None \<and> is_ip_fragment m
         then upd_stats (\<lambda>st. st\<lparr>fragment_rejected := fragment_rejected st + 1\<rparr>) s
         else upd_stats (\<lambda>st. st\<lparr>packets_dropped := packets_dropped st + 1\<rparr>) s)
      else if has_flag kTcpRst p then rx_rst p (rx_touch s)
      else rx_data slots now p (rx_ack now p (rx_touch s)))"

text \<open>
  The packet loop. The caller never passes more than \<open>kMaxBurst\<close> packets, the size of the \<open>free_list\<close>; the
  loop itself is defined for any number.
\<close>

definition kMaxBurst :: nat where
  "kMaxBurst = 32"

fun rx_loop :: "nat \<Rightarrow> int \<Rightarrow> mbuf list \<Rightarrow> nat \<Rightarrow> bool \<Rightarrow> mbuf list \<Rightarrow> TcpSession \<Rightarrow> (ErrorInfo, nat \<times> bool) expected \<times> TcpSession" where
  "rx_loop slots now [] data_count need_ack free_list s =
     (Inr (data_count, need_ack), s\<lparr>ts_freed := ts_freed s @ free_list\<rparr>)"
| "rx_loop slots now (m # ms) data_count need_ack free_list s =
     (case rx_packet slots now m s of
        (Inl e, s) \<Rightarrow> (Inl e, s\<lparr>ts_freed := ts_freed s @ ms @ free_list @ [m]\<rparr>)
      | (Inr (n, ack), s) \<Rightarrow> rx_loop slots now ms (data_count + n) (need_ack \<or> ack) (free_list @ [m]) s)"

definition process_rx :: "nat \<Rightarrow> int \<Rightarrow> u64 \<Rightarrow> mbuf list \<Rightarrow> TcpSession \<Rightarrow> (ErrorInfo, nat) expected \<times> TcpSession" where
  "process_rx slots now tsc pkts s =
     (case rx_loop slots now pkts 0 False [] s of
        (Inl e, s) \<Rightarrow> (Inl e, s)
      | (Inr (data_count, need_ack), s) \<Rightarrow>
          (Inr data_count, if need_ack \<and> ts_ack_pending s = 0 then s\<lparr>ts_ack_pending := tsc\<rparr> else s))"

section \<open>Timers and feedback\<close>

definition on_icmp_frag_needed :: "u16 \<Rightarrow> TcpSession \<Rightarrow> TcpSession" where
  "on_icmp_frag_needed next_hop_mtu s =
     (let s = upd_stats (\<lambda>st. st\<lparr>icmp_frag_needed_received := icmp_frag_needed_received st + 1\<rparr>) s;
          kMinHeaders = of_nat (kIpv4HeaderLen + kTcpHeaderLen) in
      if next_hop_mtu \<le> kMinHeaders then s
      else s\<lparr>ts_effective_mss := min (ts_effective_mss s) (next_hop_mtu - kMinHeaders)\<rparr>)"

definition send_keepalive_probe :: "TcpSession \<Rightarrow> (ErrorInfo, unit) expected \<times> TcpSession" where
  "send_keepalive_probe s =
     (case tx_segment (ts_snd_nxt s - 1) (ts_rcv_nxt s) kTcpAck (ts_rcv_wnd s) [] s of
        (NoMbuf, s) \<Rightarrow> (Inl (ErrorInfo OutOfMemory ''TcpSession::send_keepalive_probe_: mbuf alloc failed''), s)
      | (NotSent, s) \<Rightarrow> (Inl (ErrorInfo BufferFull ''TcpSession::send_keepalive_probe_: tx_burst failed''), s)
      | (Sent, s) \<Rightarrow> (Inr (), s))"

text \<open>\<open>interval_cycles\<close> is \<open>keepalive_interval_cycles_()\<close> on the calibrated path.\<close>

definition tick_keepalive :: "u64 \<Rightarrow> u64 \<Rightarrow> TcpSession \<Rightarrow> TcpSession" where
  "tick_keepalive interval_cycles now_tsc s =
     (if tc_keepalive_interval (ts_config s) = 0 then s
      else if ts_state s \<noteq> Established then s
      else if ts_last_rx_tsc s = 0 then s\<lparr>ts_last_rx_tsc := now_tsc\<rparr>
      else if now_tsc - ts_last_rx_tsc s < interval_cycles then s
      else if ts_last_keepalive_tsc s \<noteq> 0 \<and> now_tsc - ts_last_keepalive_tsc s < interval_cycles then s
      else if ts_keepalive_misses s \<ge> tc_keepalive_probes (ts_config s) then s\<lparr>ts_state := Closed\<rparr>
      else
        let (r, s) = send_keepalive_probe s;
            s = s\<lparr>ts_last_keepalive_tsc := now_tsc, ts_keepalive_misses := ts_keepalive_misses s + 1\<rparr> in
        case r of
          Inr _ \<Rightarrow> upd_stats (\<lambda>st. st\<lparr>keepalive_probes_sent := keepalive_probes_sent st + 1\<rparr>) s
        | Inl _ \<Rightarrow> upd_stats (\<lambda>st. st\<lparr>keepalive_send_failures := keepalive_send_failures st + 1\<rparr>) s)"

definition flush_pending_ack :: "u64 \<Rightarrow> u64 \<Rightarrow> TcpSession \<Rightarrow> TcpSession" where
  "flush_pending_ack delay_cycles now s =
     (if \<not> ack_timer_expired (ts_ack_pending s) now delay_cycles then s
      else case send_ack s of (Inl _, s) \<Rightarrow> s | (Inr _, s) \<Rightarrow> s\<lparr>ts_ack_pending := 0\<rparr>)"

section \<open>Feeding and polling\<close>

definition feed_rx :: "bytes \<Rightarrow> TcpSession \<Rightarrow> TcpSession" where
  "feed_rx data s = s\<lparr>ts_rx_feed := ts_rx_feed s @ data\<rparr>"

definition set_feed_only :: "bool \<Rightarrow> TcpSession \<Rightarrow> TcpSession" where
  "set_feed_only v s = s\<lparr>ts_feed_only := v\<rparr>"

function feed_chunks :: "bytes \<Rightarrow> bytes list" where
  "feed_chunks bs = (if bs = [] then [] else take 0xFFFF bs # feed_chunks (drop 0xFFFF bs))"
  by pat_completeness auto
termination
  by (relation "measure length") auto

declare feed_chunks.simps [simp del]

definition burst_limit :: "TcpConfig \<Rightarrow> nat" where
  "burst_limit c =
     (if tc_max_rx_burst c > 0 then unat (tc_max_rx_burst c)
      else if tc_mss c > 0 then min kRxBurstSize (kDefaultRxBudgetBytes div unat (tc_mss c))
      else kRxBurstSize)"

text \<open>\<open>rx\<close> answers \<open>rte_eth_rx_burst\<close>: the packets waiting in the queue, of which the limit is taken.\<close>

definition poll_rx :: "nat \<Rightarrow> int \<Rightarrow> u64 \<Rightarrow> u64 \<Rightarrow> mbuf list \<Rightarrow> TcpSession \<Rightarrow> (ErrorInfo, nat) expected \<times> TcpSession" where
  "poll_rx slots now tsc delay_cycles rx s =
     (if ts_rx_feed s \<noteq> [] then
        let cs = feed_chunks (ts_rx_feed s) in
        (Inr (length cs), s\<lparr>ts_delivered := ts_delivered s @ cs, ts_rx_feed := []\<rparr>)
      else if ts_feed_only s then (Inr 0, flush_pending_ack delay_cycles tsc s)
      else
        let pkts = take (burst_limit (ts_config s)) rx in
        if pkts = [] then (Inr 0, flush_pending_ack delay_cycles tsc s)
        else
          process_rx slots now tsc pkts
            (upd_stats (\<lambda>st. st\<lparr>rx_bursts := rx_bursts st + 1\<rparr>) (s\<lparr>ts_last_rx_burst_tsc := tsc\<rparr>)))"

section \<open>Opening and closing\<close>

definition kSynRetransmitInterval :: int where "kSynRetransmitInterval = 200"

definition begin_connect :: "int \<Rightarrow> u32 option \<Rightarrow> TcpSession \<Rightarrow> (ErrorInfo, unit) expected \<times> TcpSession" where
  "begin_connect now isn s =
     (let waiting = (ts_state s = TimeWait \<and> now < ts_time_wait_deadline s);
          s = (if ts_state s = TimeWait \<and> now \<ge> ts_time_wait_deadline s then s\<lparr>ts_state := Closed\<rparr> else s) in
      if waiting
      then (Inl (ErrorInfo InvalidConfig ''TcpSession::begin_connect: session in TIME_WAIT (2MSL not yet expired)''), s)
      else if ts_state s \<noteq> Closed
      then (Inl (ErrorInfo InvalidConfig ''TcpSession::begin_connect: session not in Closed state''), s)
      else
        case isn of
          None \<Rightarrow> (Inl (ErrorInfo OutOfMemory ''TcpSession::begin_connect: ISN generation failed (CSPRNG unavailable)''), s)
        | Some v \<Rightarrow>
            let s = s\<lparr>ts_snd_nxt := v, ts_snd_una := v, ts_rcv_nxt := 0, ts_reorder := [], ts_ack_pending := 0,
                      ts_effective_mss := tc_mss (ts_config s), ts_peer_mss := 0, ts_peer_mss_negotiated := False,
                      ts_last_rx_tsc := 0, ts_last_keepalive_tsc := 0, ts_keepalive_misses := 0\<rparr> in
            (case tx_segment (ts_snd_nxt s) 0 kTcpSyn (ts_rcv_wnd s) [] s of
               (NoMbuf, s) \<Rightarrow> (Inl (ErrorInfo OutOfMemory ''TcpSession::begin_connect: mbuf allocation failed for SYN''), s)
             | (NotSent, s) \<Rightarrow> (Inl (ErrorInfo BufferFull ''TcpSession::begin_connect: tx_burst failed for SYN''), s)
             | (Sent, s) \<Rightarrow>
                 (Inr (), s\<lparr>ts_state := SynSent, ts_snd_nxt := ts_snd_nxt s + 1,
                           ts_syn_retransmit_at := now + kSynRetransmitInterval\<rparr>)))"

definition maybe_retransmit_syn :: "int \<Rightarrow> TcpSession \<Rightarrow> TcpSession" where
  "maybe_retransmit_syn now s =
     (if now \<ge> ts_syn_retransmit_at s then
        (snd (tx_segment (ts_snd_nxt s - 1) 0 kTcpSyn (ts_rcv_wnd s) [] s))\<lparr>ts_syn_retransmit_at := now + kSynRetransmitInterval\<rparr>
      else s)"

definition negotiate_mss :: "TcpOptions \<Rightarrow> TcpSession \<Rightarrow> TcpSession" where
  "negotiate_mss opts s =
     (if to_has_mss opts \<and> to_mss opts > 0 then
        let before = ts_effective_mss s;
            s = s\<lparr>ts_peer_mss := to_mss opts, ts_effective_mss := min before (to_mss opts), ts_peer_mss_negotiated := True\<rparr> in
        if ts_effective_mss s < before
        then upd_stats (\<lambda>st. st\<lparr>mss_negotiations_applied := mss_negotiations_applied st + 1\<rparr>) s
        else s
      else s)"

fun handle_handshake_burst :: "mbuf list \<Rightarrow> TcpSession \<Rightarrow> (ErrorInfo, bool) expected \<times> TcpSession" where
  "handle_handshake_burst [] s = (Inr False, s)"
| "handle_handshake_burst (m # ms) s =
     (let p = parse_packet m in
      if pp_tcp p = None \<or> \<not> pp_matches (tc_tuple (ts_config s)) p
      then handle_handshake_burst ms (s\<lparr>ts_freed := ts_freed s @ [m]\<rparr>)
      else
        let s = upd_stats (\<lambda>st. st\<lparr>rx_packets := rx_packets st + 1\<rparr>) s in
        if has_flag kTcpRst p then
          (Inl (ErrorInfo ConnectFailed ''TcpSession::connect_step: connection refused (RST)''),
           upd_stats (\<lambda>st. st\<lparr>resets_received := resets_received st + 1\<rparr>)
             (s\<lparr>ts_state := Closed, ts_freed := ts_freed s @ m # ms\<rparr>))
        else if has_flag kTcpSyn p \<and> has_flag kTcpAck p then
          (if pp_ack p \<noteq> ts_snd_nxt s then handle_handshake_burst ms (s\<lparr>ts_freed := ts_freed s @ [m]\<rparr>)
           else
             let s = s\<lparr>ts_rcv_nxt := pp_seq p + 1, ts_snd_una := pp_ack p, ts_snd_wnd := pp_window p\<rparr>;
                 s = negotiate_mss (parse_tcp_options p) s;
                 s = s\<lparr>ts_freed := ts_freed s @ m # ms\<rparr> in
             (case send_ack s of
                (Inl e, s) \<Rightarrow> (Inl e, s)
              | (Inr _, s) \<Rightarrow> (Inr True, s\<lparr>ts_state := Established\<rparr>)))
        else handle_handshake_burst ms (s\<lparr>ts_freed := ts_freed s @ [m]\<rparr>))"

definition connect_step :: "int \<Rightarrow> mbuf list \<Rightarrow> TcpSession \<Rightarrow> (ErrorInfo, bool) expected \<times> TcpSession" where
  "connect_step now pkts s =
     (if ts_state s = Established then (Inr True, s)
      else if ts_state s \<noteq> SynSent
      then (Inl (ErrorInfo InvalidConfig ''TcpSession::connect_step: session not in SynSent (call begin_connect)''), s)
      else handle_handshake_burst pkts (maybe_retransmit_syn now s))"

text \<open>The blocking loop of \<open>connect\<close>: one clock reading and one burst per round until the deadline.\<close>

fun connect_loop :: "int \<Rightarrow> (int \<times> mbuf list) list \<Rightarrow> TcpSession \<Rightarrow> ((ErrorInfo, unit) expected \<times> TcpSession) option" where
  "connect_loop deadline [] s = None"
| "connect_loop deadline ((now, pkts) # rounds) s =
     (if now < deadline then
        (case connect_step now pkts s of
           (Inl e, s) \<Rightarrow> Some (Inl e, s)
         | (Inr True, s) \<Rightarrow> Some (Inr (), s)
         | (Inr False, s) \<Rightarrow> connect_loop deadline rounds s)
      else Some (Inl (ErrorInfo Timeout ''TcpSession::connect: handshake timeout''), s\<lparr>ts_state := Closed\<rparr>))"

definition tcp_connect :: "int \<Rightarrow> int \<Rightarrow> u32 option \<Rightarrow> (int \<times> mbuf list) list \<Rightarrow> TcpSession \<Rightarrow> ((ErrorInfo, unit) expected \<times> TcpSession) option" where
  "tcp_connect now timeout isn rounds s =
     (case begin_connect now isn s of
        (Inl e, s) \<Rightarrow> Some (Inl e, s)
      | (Inr _, s) \<Rightarrow> connect_loop (now + timeout) rounds s)"

definition tcp_close :: "TcpSession \<Rightarrow> (ErrorInfo, unit) expected \<times> TcpSession" where
  "tcp_close s =
     (if ts_state s \<noteq> Established \<and> ts_state s \<noteq> CloseWait
      then (Inl (ErrorInfo InvalidConfig ''TcpSession::close: state not Established or CloseWait''), s)
      else
        case tx_segment (ts_snd_nxt s) (ts_rcv_nxt s) (kTcpFin OR kTcpAck) (ts_rcv_wnd s) [] s of
          (NoMbuf, s) \<Rightarrow> (Inl (ErrorInfo OutOfMemory ''TcpSession::close: mbuf allocation failed for FIN''), s)
        | (NotSent, s) \<Rightarrow> (Inl (ErrorInfo BufferFull ''TcpSession::close: tx_burst failed for FIN''), s)
        | (Sent, s) \<Rightarrow>
            (Inr (), s\<lparr>ts_snd_nxt := ts_snd_nxt s + 1,
                      ts_state := (if ts_state s = Established then FinWait1 else LastAck)\<rparr>))"

definition tcp_reset :: "TcpSession \<Rightarrow> TcpSession" where
  "tcp_reset s =
     (let s = snd (tx_segment (ts_snd_nxt s) (ts_rcv_nxt s) (kTcpRst OR kTcpAck) 0 [] s) in
      s\<lparr>ts_state := Closed, ts_reorder := [], ts_ack_pending := 0, ts_snd_wnd := 0, ts_rcv_nxt := 0, ts_last_rx_tsc := 0,
        ts_last_keepalive_tsc := 0, ts_keepalive_misses := 0, ts_effective_mss := tc_mss (ts_config s),
        ts_peer_mss := 0, ts_peer_mss_negotiated := False\<rparr>)"

fun should_rst_on_destroy :: "TcpState \<Rightarrow> bool" where
  "should_rst_on_destroy Established = True"
| "should_rst_on_destroy SynSent = True"
| "should_rst_on_destroy SynReceived = True"
| "should_rst_on_destroy CloseWait = True"
| "should_rst_on_destroy _ = False"

definition tcp_destroy :: "bool \<Rightarrow> TcpSession \<Rightarrow> TcpSession" where
  "tcp_destroy has_pool s = (if \<not> should_rst_on_destroy (ts_state s) then s else if \<not> has_pool then s else tcp_reset s)"

end
