(* ===== verification/Tcp_Receive.thy ===== *)
theory Tcp_Receive
  imports Tcp_Session "HOL-Library.Multiset" "HOL-Library.Sublist"
begin

text \<open>
  The receive side of \<^verbatim>\<open>tcp.hpp\<close>. Every mbuf of a burst is freed once, and the bytes a session delivers are
  always a prefix of what the peer sent, whatever the network does to the segments. The second half says
  what every other operation leaves alone and defines the runs the following theories reason about.
\<close>

section \<open>What the parser guarantees\<close>

lemma parse_packet_payload:
  assumes "p = parse_packet m"
  shows "length (pp_bytes p) = pp_payload_len p" "pp_payload p = None \<longleftrightarrow> pp_payload_len p = 0"
  using assms
  by (auto simp: parse_packet_def parse_tcp_from_ip_def no_packet_def pp_bytes_def Let_def split: if_splits)

text \<open>
  A segment as the peer's packet template writes it: whatever padding the wire appends, the parser reads
  back these fields.
\<close>

definition on_wire :: "mbuf \<Rightarrow> mbuf \<Rightarrow> bool" where
  "on_wire m m' \<longleftrightarrow> (\<exists>pad. mb_data m' = mb_data m @ pad) \<and> mb_nb_segs m' = 1"

definition is_segment :: "ConnectionTuple \<Rightarrow> u32 \<Rightarrow> u8 \<Rightarrow> bytes \<Rightarrow> mbuf \<Rightarrow> bool" where
  "is_segment t q fl d m \<longleftrightarrow> mb_nb_segs m = 1 \<and> (\<forall>m'. on_wire m m' \<longrightarrow> (let p = parse_packet m' in
     pp_tcp p \<noteq> None \<and> pp_matches (flip_tuple t) p \<and> pp_seq p = q \<and> pp_flags p = fl \<and> pp_bytes p = d \<and> pp_payload_len p = length d))"

lemma built_segment:
  assumes "build_packet ph alloc q a fl w d t = (Some m, t')" "length (pt_src_mac t) = 6" "length (pt_dst_mac t) = 6"
  shows "is_segment (pt_tuple t) q fl d m" "pt_tuple t' = pt_tuple t" "pt_src_mac t' = pt_src_mac t" "pt_dst_mac t' = pt_dst_mac t"
proof -
  show "is_segment (pt_tuple t) q fl d m"
    unfolding is_segment_def
  proof (intro conjI allI impI)
    show "mb_nb_segs m = 1" by (rule build_packet_Some(4) [OF assms(1) refl])
    fix m' assume "on_wire m m'"
    then obtain pad where "mb_data m' = mb_data m @ pad" "mb_nb_segs m' = 1" by (auto simp: on_wire_def)
    from written_parses [OF assms this refl] show "let p = parse_packet m' in
      pp_tcp p \<noteq> None \<and> pp_matches (flip_tuple (pt_tuple t)) p \<and> pp_seq p = q \<and> pp_flags p = fl \<and> pp_bytes p = d \<and> pp_payload_len p = length d"
      by (simp add: Let_def)
  qed
  show "pt_tuple t' = pt_tuple t" "pt_src_mac t' = pt_src_mac t" "pt_dst_mac t' = pt_dst_mac t"
    using build_packet_Some(3) [OF assms(1) refl] by simp_all
qed

lemma is_segment_parse:
  assumes "is_segment t q fl d m" "on_wire m m'" "p = parse_packet m'"
  shows "pp_tcp p \<noteq> None" "pp_matches (flip_tuple t) p" "pp_seq p = q" "pp_flags p = fl" "pp_bytes p = d" "pp_payload_len p = length d"
    "has_flag f p \<longleftrightarrow> fl AND f \<noteq> 0"
  using assms by (auto simp: is_segment_def has_flag_def Let_def)

lemma on_wire_refl: "is_segment t q fl d m \<Longrightarrow> on_wire m m"
  by (auto simp: is_segment_def on_wire_def)

text \<open>A concrete peer, for instances of the theorems.\<close>

definition demo_segment :: "u32 \<Rightarrow> u8 \<Rightarrow> bytes \<Rightarrow> mbuf" where
  "demo_segment q fl d = the (fst (build_packet (\<lambda>_ _. 0) (Some 2048) q 0 fl 512 d demo_template))"

lemma demo_segment:
  assumes "length d \<le> 1000"
  shows "is_segment (pt_tuple demo_template) q fl d (demo_segment q fl d)"
proof -
  have "fst (build_packet (\<lambda>_ _. 0) (Some 2048) q 0 fl 512 d demo_template) \<noteq> None"
    using assms by (simp add: build_packet_def Let_def kSynTcpHeaderLen_def kTcpHeaderLen_def)
  then obtain m t' where "build_packet (\<lambda>_ _. 0) (Some 2048) q 0 fl 512 d demo_template = (Some m, t')"
    by (metis not_None_eq prod.collapse)
  with built_segment(1) [OF this demo_build(2,3)] show ?thesis by (simp add: demo_segment_def)
qed

definition demo_session :: TcpSession where
  "demo_session = (mk_TcpSession
     \<lparr>tc_tuple = flip_tuple (pt_tuple demo_template), tc_src_mac = [2, 0, 0, 0, 0, 2], tc_dst_mac = [2, 0, 0, 0, 0, 1],
      tc_mss = 1460, tc_recv_window = 65535, tc_max_rx_burst = 0, tc_keepalive_interval = 0, tc_keepalive_probes = 3\<rparr>
     \<lparr>nic_phdr = (\<lambda>_ _. 0), nic_alloc = (\<lambda>_. Some 2048), nic_tx = (\<lambda>_ n. n), nic_allocs = 0, nic_bursts = 0, nic_wire = []\<rparr>
     (Some 9))\<lparr>ts_state := Established\<rparr>"

section \<open>Which operations touch which fields\<close>

lemma deliver_keeps [simp]:
  "ts_config (deliver d s) = ts_config s" "ts_state (deliver d s) = ts_state s" "ts_reorder (deliver d s) = ts_reorder s"
  "ts_freed (deliver d s) = ts_freed s" "ts_nic (deliver d s) = ts_nic s" "ts_snd_nxt (deliver d s) = ts_snd_nxt s"
  "ts_snd_una (deliver d s) = ts_snd_una s" "ts_rcv_nxt (deliver d s) = ts_rcv_nxt s + of_nat (length d)"
  "ts_delivered (deliver d s) = ts_delivered s @ [d]"
  "ts_template (deliver d s) = ts_template s"
  by (simp_all add: deliver_def)

lemma drain_keeps [simp]:
  "ts_config (snd (drain_reorder_buf s)) = ts_config s" "ts_state (snd (drain_reorder_buf s)) = ts_state s"
  "ts_freed (snd (drain_reorder_buf s)) = ts_freed s" "ts_nic (snd (drain_reorder_buf s)) = ts_nic s"
  "ts_snd_nxt (snd (drain_reorder_buf s)) = ts_snd_nxt s" "ts_snd_una (snd (drain_reorder_buf s)) = ts_snd_una s"
  "ts_template (snd (drain_reorder_buf s)) = ts_template s"
  by (induction s rule: drain_reorder_buf.induct, subst drain_reorder_buf.simps,
      auto simp: Let_def case_prod_beta split: option.splits)+

lemma rx_ack_keeps [simp]:
  "ts_config (rx_ack now p s) = ts_config s" "ts_rcv_nxt (rx_ack now p s) = ts_rcv_nxt s"
  "ts_reorder (rx_ack now p s) = ts_reorder s" "ts_delivered (rx_ack now p s) = ts_delivered s"
  "ts_freed (rx_ack now p s) = ts_freed s" "ts_nic (rx_ack now p s) = ts_nic s" "ts_snd_nxt (rx_ack now p s) = ts_snd_nxt s"
  "ts_template (rx_ack now p s) = ts_template s"
  by (auto simp: rx_ack_def enter_time_wait_def Let_def split: TcpState.splits)

lemma rx_fin_keeps [simp]:
  "ts_config (snd (rx_fin now p s)) = ts_config s" "ts_reorder (snd (rx_fin now p s)) = ts_reorder s"
  "ts_delivered (snd (rx_fin now p s)) = ts_delivered s" "ts_freed (snd (rx_fin now p s)) = ts_freed s"
  "ts_nic (snd (rx_fin now p s)) = ts_nic s" "ts_snd_nxt (snd (rx_fin now p s)) = ts_snd_nxt s"
  "ts_template (snd (rx_fin now p s)) = ts_template s"
  by (auto simp: rx_fin_def enter_time_wait_def Let_def split: TcpState.splits)

lemma rx_out_of_order_keeps [simp]:
  "ts_config (snd (rx_out_of_order n p s)) = ts_config s" "ts_rcv_nxt (snd (rx_out_of_order n p s)) = ts_rcv_nxt s"
  "ts_delivered (snd (rx_out_of_order n p s)) = ts_delivered s" "ts_freed (snd (rx_out_of_order n p s)) = ts_freed s"
  "ts_state (snd (rx_out_of_order n p s)) = ts_state s" "ts_nic (snd (rx_out_of_order n p s)) = ts_nic s"
  "ts_snd_nxt (snd (rx_out_of_order n p s)) = ts_snd_nxt s"
  "ts_template (snd (rx_out_of_order n p s)) = ts_template s"
  by (auto simp: rx_out_of_order_def record_gap_def Let_def)

lemma rx_in_order_keeps [simp]:
  "ts_config (snd (rx_in_order p s)) = ts_config s" "ts_state (snd (rx_in_order p s)) = ts_state s"
  "ts_freed (snd (rx_in_order p s)) = ts_freed s" "ts_nic (snd (rx_in_order p s)) = ts_nic s"
  "ts_snd_nxt (snd (rx_in_order p s)) = ts_snd_nxt s"
  "ts_template (snd (rx_in_order p s)) = ts_template s"
  by (auto simp: rx_in_order_def Let_def case_prod_beta)

lemma rx_touch_keeps [simp]:
  "ts_config (rx_touch s) = ts_config s" "ts_rcv_nxt (rx_touch s) = ts_rcv_nxt s" "ts_reorder (rx_touch s) = ts_reorder s"
  "ts_delivered (rx_touch s) = ts_delivered s" "ts_freed (rx_touch s) = ts_freed s" "ts_state (rx_touch s) = ts_state s"
  "ts_nic (rx_touch s) = ts_nic s" "ts_snd_nxt (rx_touch s) = ts_snd_nxt s" "ts_snd_una (rx_touch s) = ts_snd_una s"
  "ts_template (rx_touch s) = ts_template s"
  by (simp_all add: rx_touch_def)

lemma rx_rst_keeps [simp]:
  "ts_config (snd (rx_rst p s)) = ts_config s" "ts_rcv_nxt (snd (rx_rst p s)) = ts_rcv_nxt s"
  "ts_reorder (snd (rx_rst p s)) = ts_reorder s" "ts_delivered (snd (rx_rst p s)) = ts_delivered s"
  "ts_freed (snd (rx_rst p s)) = ts_freed s" "ts_nic (snd (rx_rst p s)) = ts_nic s" "ts_snd_nxt (snd (rx_rst p s)) = ts_snd_nxt s"
  "ts_template (snd (rx_rst p s)) = ts_template s"
  by (simp_all add: rx_rst_def)

lemma rx_data_late:
  assumes "receiving (ts_state s)" "pp_seq p \<noteq> ts_rcv_nxt s" "pp_payload_len p > 0"
  shows "snd (rx_data slots now p s) = snd (rx_out_of_order slots p s)"
    "fst (rx_data slots now p s) = (case fst (rx_out_of_order slots p s) of None \<Rightarrow> Inr (0, False) | Some e \<Rightarrow> Inl e)"
  using assms by (auto simp: rx_data_def case_prod_beta split: option.splits)

lemma rx_data_ready:
  assumes "\<not> (receiving (ts_state s) \<and> pp_seq p \<noteq> ts_rcv_nxt s \<and> pp_payload_len p > 0)"
  shows "snd (rx_data slots now p s) = snd (rx_fin now p (if receiving (ts_state s) then snd (rx_in_order p s) else s))"
    "\<exists>x. fst (rx_data slots now p s) = Inr x"
  using assms by (auto simp: rx_data_def case_prod_beta Let_def)

lemma rx_data_keeps [simp]:
  "ts_config (snd (rx_data slots now p s)) = ts_config s" "ts_freed (snd (rx_data slots now p s)) = ts_freed s"
  "ts_nic (snd (rx_data slots now p s)) = ts_nic s" "ts_snd_nxt (snd (rx_data slots now p s)) = ts_snd_nxt s"
  "ts_template (snd (rx_data slots now p s)) = ts_template s"
  by (cases "receiving (ts_state s) \<and> pp_seq p \<noteq> ts_rcv_nxt s \<and> pp_payload_len p > 0"; simp add: rx_data_late rx_data_ready)+

lemma rx_packet_keeps [simp]:
  "ts_config (snd (rx_packet slots now m s)) = ts_config s" "ts_freed (snd (rx_packet slots now m s)) = ts_freed s"
  "ts_nic (snd (rx_packet slots now m s)) = ts_nic s" "ts_snd_nxt (snd (rx_packet slots now m s)) = ts_snd_nxt s"
  "ts_template (snd (rx_packet slots now m s)) = ts_template s"
  by (auto simp: rx_packet_def Let_def)

section \<open>Mbufs\<close>

lemma rx_loop_frees:
  "mset (ts_freed (snd (rx_loop slots now ms c a free s))) = mset (ts_freed s) + mset free + mset ms"
proof (induction ms arbitrary: c a free s)
  case (Cons m ms)
  have k: "ts_freed (snd (rx_packet slots now m s)) = ts_freed s" by simp
  show ?case
  proof (cases "rx_packet slots now m s")
    case (Pair r s')
    with k have s': "ts_freed s' = ts_freed s" by simp
    then show ?thesis using Pair Cons.IH [of _ _ "free @ [m]" s'] by (cases r) (auto simp: ac_simps)
  qed
qed simp

text \<open>
  C24. The receive path gives every mbuf of a burst back to the pool exactly once, on success, on a reset
  by the peer and when the reorder buffer overflows.
\<close>

theorem process_rx_frees_once:
  "mset (ts_freed (snd (process_rx slots now tsc pkts s))) = mset (ts_freed s) + mset pkts"
  using rx_loop_frees [of slots now pkts 0 False "[]" s]
  by (cases "rx_loop slots now pkts 0 False [] s") (auto simp: process_rx_def split: sum.splits)

section \<open>In-order delivery\<close>

text \<open>
  The peer's bytes are \<open>S\<close>, the first of them at sequence number \<open>r0\<close>, its FIN right behind the last. A
  packet is honest when what it claims for this connection agrees with that; sequence numbers are taken
  modulo \<open>2 ^ 32\<close>.
\<close>

definition in_stream :: "bytes \<Rightarrow> u32 \<Rightarrow> u32 \<Rightarrow> bytes \<Rightarrow> bool" where
  "in_stream S r0 q d \<longleftrightarrow> (\<exists>k. q = r0 + of_nat k \<and> k + length d \<le> length S \<and> d = slice S k (length d))"

definition honest :: "bytes \<Rightarrow> u32 \<Rightarrow> ConnectionTuple \<Rightarrow> mbuf \<Rightarrow> bool" where
  "honest S r0 t m \<longleftrightarrow> (let p = parse_packet m in
     pp_tcp p \<noteq> None \<longrightarrow> pp_matches t p \<longrightarrow>
       (0 < pp_payload_len p \<longrightarrow> in_stream S r0 (pp_seq p) (pp_bytes p)) \<and>
       (has_flag kTcpFin p \<longrightarrow> pp_seq p + of_nat (pp_payload_len p) = r0 + of_nat (length S)))"

text \<open>\<open>n\<close> bytes have been delivered, and the FIN has been consumed or not.\<close>

definition rx_at :: "bytes \<Rightarrow> u32 \<Rightarrow> nat \<Rightarrow> bool \<Rightarrow> TcpSession \<Rightarrow> bool" where
  "rx_at S r0 n fin s \<longleftrightarrow> n \<le> length S \<and> (fin \<longrightarrow> n = length S) \<and> concat (ts_delivered s) = take n S \<and>
     ts_rcv_nxt s = r0 + of_nat (n + (if fin then 1 else 0)) \<and>
     (\<forall>e \<in> set (ts_reorder s). in_stream S r0 (re_seq e) (re_data e) \<and> re_data e \<noteq> [])"

definition rx_inv :: "bytes \<Rightarrow> u32 \<Rightarrow> TcpSession \<Rightarrow> bool" where
  "rx_inv S r0 s \<longleftrightarrow> (\<exists>n fin. rx_at S r0 n fin s)"

lemma of_nat_u32_inj: "(of_nat a :: u32) = of_nat b \<Longrightarrow> a < 2 ^ 32 \<Longrightarrow> b < 2 ^ 32 \<Longrightarrow> a = b"
proof -
  have u: "unat (of_nat c :: u32) = c" if "c < 2 ^ 32" for c using that by (simp add: unat_of_nat)
  assume "(of_nat a :: u32) = of_nat b" "a < 2 ^ 32" "b < 2 ^ 32"
  with u [of a] u [of b] show ?thesis by metis
qed

lemma in_stream_at:
  assumes "rx_at S r0 n fin s" "length S + 1 < 2 ^ 32" "in_stream S r0 (ts_rcv_nxt s) d" "d \<noteq> []"
  shows "\<not> fin" "n + length d \<le> length S" "d = slice S n (length d)"
proof -
  obtain k where k: "ts_rcv_nxt s = r0 + of_nat k" "k + length d \<le> length S" "d = slice S k (length d)"
    using assms(3) by (auto simp: in_stream_def)
  have n: "n \<le> length S" "ts_rcv_nxt s = r0 + of_nat (n + (if fin then 1 else 0))" "fin \<Longrightarrow> n = length S"
    using assms(1) by (auto simp: rx_at_def)
  have "(of_nat k :: u32) = of_nat (n + (if fin then 1 else 0))" using k(1) n(2) by simp
  then have "k = n + (if fin then 1 else 0)" by (rule of_nat_u32_inj) (use assms(2) k(2) n(1) in auto)
  then show "\<not> fin" using k(2) n(3) assms(4) by auto
  with \<open>k = _\<close> k show "n + length d \<le> length S" "d = slice S n (length d)" by simp_all
qed

lemma take_slice: "take n S @ slice S n l = take (n + l) S"
  by (simp add: slice_def take_add)

lemma deliver_at:
  assumes "rx_at S r0 n fin s" "length S + 1 < 2 ^ 32" "in_stream S r0 (ts_rcv_nxt s) d" "d \<noteq> []"
  shows "rx_at S r0 (n + length d) False (deliver d s)"
proof -
  note i = in_stream_at [OF assms]
  have "take n S @ d = take (n + length d) S" using i(3) take_slice [of n S "length d"] by simp
  then show ?thesis using assms(1) i(1,2) by (simp add: rx_at_def algebra_simps)
qed

lemma swap_remove_set: "i < length xs \<Longrightarrow> set (swap_remove i xs) \<subseteq> set xs"
proof -
  assume "i < length xs"
  then have "last xs \<in> set xs" by (intro last_in_set) auto
  then have "set (xs[i := last xs]) \<subseteq> set xs" using set_update_subset_insert [of xs i "last xs"] by auto
  then show ?thesis by (auto simp: swap_remove_def dest!: in_set_butlastD)
qed

lemma drain_inv:
  assumes "length S + 1 < 2 ^ 32"
  shows "rx_inv S r0 s \<Longrightarrow> rx_inv S r0 (snd (drain_reorder_buf s))"
proof (induction s rule: drain_reorder_buf.induct)
  case (1 s)
  let ?f = "find (\<lambda>i. re_seq (ts_reorder s ! i) = ts_rcv_nxt s) [0..<length (ts_reorder s)]"
  show ?case
  proof (cases ?f)
    case None
    then show ?thesis using 1(2) by (subst drain_reorder_buf.simps) simp
  next
    case (Some i)
    then have i: "i < length (ts_reorder s)" "re_seq (ts_reorder s ! i) = ts_rcv_nxt s"
      by (auto simp: find_Some_iff)
    obtain n fin where at: "rx_at S r0 n fin s" using 1(2) by (auto simp: rx_inv_def)
    let ?d = "re_data (ts_reorder s ! i)"
    have d: "in_stream S r0 (re_seq (ts_reorder s ! i)) ?d" "?d \<noteq> []"
      using at nth_mem [OF i(1)] unfolding rx_at_def by blast+
    from deliver_at [OF at assms d [unfolded i(2)]]
    have "rx_at S r0 (n + length ?d) False ((deliver ?d s)\<lparr>ts_reorder := swap_remove i (ts_reorder s)\<rparr>)"
      using swap_remove_set [OF i(1)] by (auto simp: rx_at_def)
    then have "rx_inv S r0 (snd (drain_reorder_buf ((deliver ?d s)\<lparr>ts_reorder := swap_remove i (ts_reorder s)\<rparr>)))"
      by (intro 1(1) [OF Some]) (auto simp: rx_inv_def)
    then show ?thesis using Some by (subst drain_reorder_buf.simps) (simp add: case_prod_beta Let_def)
  qed
qed

lemma rx_inv_cong:
  "rx_inv S r0 s \<Longrightarrow> ts_rcv_nxt s' = ts_rcv_nxt s \<Longrightarrow> ts_delivered s' = ts_delivered s \<Longrightarrow> ts_reorder s' = ts_reorder s \<Longrightarrow> rx_inv S r0 s'"
  by (simp add: rx_inv_def rx_at_def)

lemma rx_out_of_order_inv:
  assumes "rx_inv S r0 s" "p = parse_packet m" "in_stream S r0 (pp_seq p) (pp_bytes p)" "0 < pp_payload_len p"
  shows "rx_inv S r0 (snd (rx_out_of_order slots p s))"
proof -
  have "set (ts_reorder (snd (rx_out_of_order slots p s))) \<subseteq> insert \<lparr>re_seq = pp_seq p, re_data = pp_bytes p\<rparr> (set (ts_reorder s))"
    by (auto simp: rx_out_of_order_def record_gap_def Let_def)
  moreover have "pp_bytes p \<noteq> []" using parse_packet_payload(1) [OF assms(2)] assms(4) by auto
  moreover obtain n fin where at: "rx_at S r0 n fin s" using assms(1) by (auto simp: rx_inv_def)
  ultimately have "in_stream S r0 (re_seq e) (re_data e) \<and> re_data e \<noteq> []" if "e \<in> set (ts_reorder (snd (rx_out_of_order slots p s)))" for e
    using assms(3) that unfolding rx_at_def by fastforce
  then have "rx_at S r0 n fin (snd (rx_out_of_order slots p s))" using at unfolding rx_at_def by simp
  then show ?thesis unfolding rx_inv_def by blast
qed

lemma rx_in_order_inv:
  assumes "rx_inv S r0 s" "length S + 1 < 2 ^ 32" "p = parse_packet m"
    and "0 < pp_payload_len p \<Longrightarrow> in_stream S r0 (ts_rcv_nxt s) (pp_bytes p)"
  shows "rx_inv S r0 (snd (rx_in_order p s))"
proof (cases "pp_payload_len p > 0")
  case True
  obtain n fin where at: "rx_at S r0 n fin s" using assms(1) by (auto simp: rx_inv_def)
  have "pp_bytes p \<noteq> []" using parse_packet_payload(1) [OF assms(3)] True by auto
  from deliver_at [OF at assms(2) assms(4) [OF True] this] have "rx_inv S r0 (deliver (pp_bytes p) s)"
    unfolding rx_inv_def by blast
  from drain_inv [OF assms(2) this] show ?thesis using assms(1) by (simp add: rx_in_order_def case_prod_beta Let_def)
next
  case False
  then show ?thesis using assms(1) by (simp add: rx_in_order_def)
qed

lemma rx_fin_inv:
  assumes "rx_inv S r0 s" "length S + 1 < 2 ^ 32"
    and f: "has_flag kTcpFin p \<Longrightarrow> pp_seq p + of_nat (pp_payload_len p) = r0 + of_nat (length S)"
  shows "rx_inv S r0 (snd (rx_fin now p s))"
proof (cases "ts_rcv_nxt (snd (rx_fin now p s)) = ts_rcv_nxt s")
  case True
  then show ?thesis using rx_inv_cong [OF assms(1) True] by simp
next
  case False
  then have h: "has_flag kTcpFin p" "pp_seq p + of_nat (pp_payload_len p) = ts_rcv_nxt s"
    and n1: "ts_rcv_nxt (snd (rx_fin now p s)) = ts_rcv_nxt s + 1"
    by (auto simp: rx_fin_def enter_time_wait_def Let_def split: if_splits TcpState.splits)
  obtain n fin where at: "rx_at S r0 n fin s" using assms(1) by (auto simp: rx_inv_def)
  have "(of_nat (length S) :: u32) = of_nat (n + (if fin then 1 else 0))"
    using h f at by (simp add: rx_at_def)
  then have "length S = n + (if fin then 1 else 0)" by (rule of_nat_u32_inj) (use assms(2) at in \<open>auto simp: rx_at_def\<close>)
  then have "rx_at S r0 n True (snd (rx_fin now p s))"
    using at n1 by (auto simp: rx_at_def algebra_simps split: if_splits)
  then show ?thesis by (auto simp: rx_inv_def)
qed

lemma rx_packet_inv:
  assumes "rx_inv S r0 s" "length S + 1 < 2 ^ 32" "honest S r0 (tc_tuple (ts_config s)) m"
  shows "rx_inv S r0 (snd (rx_packet slots now m s))"
proof -
  define p where "p = parse_packet m"
  consider "pp_tcp p = None \<or> \<not> pp_matches (tc_tuple (ts_config s)) p" | "has_flag kTcpRst p" "pp_tcp p \<noteq> None" "pp_matches (tc_tuple (ts_config s)) p"
    | "pp_tcp p \<noteq> None" "pp_matches (tc_tuple (ts_config s)) p" "\<not> has_flag kTcpRst p" by blast
  then show ?thesis
  proof cases
    case 1
    then show ?thesis using rx_inv_cong [OF assms(1)] by (auto simp: rx_packet_def p_def Let_def)
  next
    case 2
    then show ?thesis using rx_inv_cong [OF assms(1)] by (simp add: rx_packet_def p_def [symmetric] Let_def)
  next
    case 3
    let ?s = "rx_ack now p (rx_touch s)"
    have h: "0 < pp_payload_len p \<Longrightarrow> in_stream S r0 (pp_seq p) (pp_bytes p)"
      "has_flag kTcpFin p \<Longrightarrow> pp_seq p + of_nat (pp_payload_len p) = r0 + of_nat (length S)"
      using assms(3) 3 by (auto simp: honest_def p_def [symmetric] Let_def)
    have i: "rx_inv S r0 ?s" by (rule rx_inv_cong [OF assms(1)]) simp_all
    have r: "snd (rx_packet slots now m s) = snd (rx_data slots now p ?s)"
      using 3 by (auto simp: rx_packet_def p_def [symmetric] Let_def)
    show ?thesis
    proof (cases "receiving (ts_state ?s) \<and> pp_seq p \<noteq> ts_rcv_nxt ?s \<and> pp_payload_len p > 0")
      case True
      then show ?thesis using rx_out_of_order_inv [OF i p_def h(1)] unfolding r by (simp add: rx_data_late)
    next
      case False
      have "rx_inv S r0 (if receiving (ts_state ?s) then snd (rx_in_order p ?s) else ?s)"
        using rx_in_order_inv [OF i assms(2) p_def] h(1) i False by auto
      then show ?thesis unfolding r rx_data_ready(1) [OF False] by (rule rx_fin_inv [OF _ assms(2) h(2)])
    qed
  qed
qed

lemma rx_loop_inv:
  assumes "length S + 1 < 2 ^ 32"
  shows "rx_inv S r0 s \<Longrightarrow> list_all (honest S r0 (tc_tuple (ts_config s))) ms \<Longrightarrow> rx_inv S r0 (snd (rx_loop slots now ms c a free s))"
proof (induction ms arbitrary: c a free s)
  case Nil
  then show ?case using rx_inv_cong [OF Nil(1)] by simp
next
  case (Cons m ms)
  have i: "rx_inv S r0 (snd (rx_packet slots now m s))" using rx_packet_inv [OF Cons.prems(1) assms] Cons.prems(2) by simp
  obtain r s' where rs: "rx_packet slots now m s = (r, s')" by (cases "rx_packet slots now m s")
  then have "ts_config s' = ts_config s" using rx_packet_keeps(1) [of slots now m s] by simp
  then show ?case using i rs Cons rx_inv_cong [OF i] by (cases r) auto
qed

lemma rx_loop_keeps_all:
  "ts_config (snd (rx_loop slots now ms c a free s)) = ts_config s \<and> ts_nic (snd (rx_loop slots now ms c a free s)) = ts_nic s \<and>
   ts_snd_nxt (snd (rx_loop slots now ms c a free s)) = ts_snd_nxt s \<and> ts_template (snd (rx_loop slots now ms c a free s)) = ts_template s"
proof (induction ms arbitrary: c a free s)
  case (Cons m ms)
  obtain r s' where rs: "rx_packet slots now m s = (r, s')" by (cases "rx_packet slots now m s")
  then have k: "ts_config s' = ts_config s" "ts_nic s' = ts_nic s" "ts_snd_nxt s' = ts_snd_nxt s" "ts_template s' = ts_template s"
    using rx_packet_keeps [of slots now m s] by simp_all
  show ?case using rs k Cons.IH [where s = s'] by (cases r) auto
qed simp

lemmas rx_loop_keeps [simp] = rx_loop_keeps_all [THEN conjunct1] rx_loop_keeps_all [THEN conjunct2, THEN conjunct1]
  rx_loop_keeps_all [THEN conjunct2, THEN conjunct2, THEN conjunct1] rx_loop_keeps_all [THEN conjunct2, THEN conjunct2, THEN conjunct2]

lemma process_rx_session:
  "\<exists>a. snd (process_rx slots now tsc ms s) = (snd (rx_loop slots now ms 0 False [] s))\<lparr>ts_ack_pending := a\<rparr>"
proof (rule exI [of _ "ts_ack_pending (snd (process_rx slots now tsc ms s))"])
  obtain r s' where rs: "rx_loop slots now ms 0 False [] s = (r, s')" by (cases "rx_loop slots now ms 0 False [] s")
  then show "snd (process_rx slots now tsc ms s) =
      (snd (rx_loop slots now ms 0 False [] s))\<lparr>ts_ack_pending := ts_ack_pending (snd (process_rx slots now tsc ms s))\<rparr>"
    by (cases r) (auto simp: process_rx_def)
qed

lemma process_rx_inv:
  assumes "rx_inv S r0 s" "length S + 1 < 2 ^ 32" "list_all (honest S r0 (tc_tuple (ts_config s))) ms"
  shows "rx_inv S r0 (snd (process_rx slots now tsc ms s))"
proof -
  obtain a where "snd (process_rx slots now tsc ms s) = (snd (rx_loop slots now ms 0 False [] s))\<lparr>ts_ack_pending := a\<rparr>"
    using process_rx_session by blast
  then show ?thesis using rx_inv_cong [OF rx_loop_inv [OF assms(2,1,3)]] by simp
qed

lemma process_rx_config [simp]:
  "ts_config (snd (process_rx slots now tsc ms s)) = ts_config s" "ts_nic (snd (process_rx slots now tsc ms s)) = ts_nic s"
  "ts_snd_nxt (snd (process_rx slots now tsc ms s)) = ts_snd_nxt s" "ts_template (snd (process_rx slots now tsc ms s)) = ts_template s"
proof -
  obtain a where e: "snd (process_rx slots now tsc ms s) = (snd (rx_loop slots now ms 0 False [] s))\<lparr>ts_ack_pending := a\<rparr>"
    using process_rx_session by blast
  show "ts_config (snd (process_rx slots now tsc ms s)) = ts_config s" "ts_nic (snd (process_rx slots now tsc ms s)) = ts_nic s"
    "ts_snd_nxt (snd (process_rx slots now tsc ms s)) = ts_snd_nxt s"
    "ts_template (snd (process_rx slots now tsc ms s)) = ts_template s" unfolding e by simp_all
qed

section \<open>Everything else leaves the receive side alone\<close>

definition rx_side :: "TcpSession \<Rightarrow> u32 \<times> bytes list \<times> ReorderEntry list \<times> TcpConfig" where
  "rx_side s = (ts_rcv_nxt s, ts_delivered s, ts_reorder s, ts_config s)"

lemma tx_segment_keeps [simp]:
  "rx_side (snd (tx_segment q a f w d s)) = rx_side s" "ts_state (snd (tx_segment q a f w d s)) = ts_state s"
  "ts_snd_nxt (snd (tx_segment q a f w d s)) = ts_snd_nxt s"
  by (auto simp: tx_segment_def session_build_def tx_burst_def rx_side_def Let_def case_prod_beta split: option.splits)

lemma rx_side_simps [simp]:
  "rx_side (s\<lparr>ts_state := st\<rparr>) = rx_side s" "rx_side (s\<lparr>ts_ack_pending := a\<rparr>) = rx_side s" "rx_side (s\<lparr>ts_snd_nxt := n\<rparr>) = rx_side s"
  "rx_side (s\<lparr>ts_stats := x\<rparr>) = rx_side s" "rx_side (s\<lparr>ts_last_rx_tsc := y\<rparr>) = rx_side s" "rx_side (s\<lparr>ts_freed := z\<rparr>) = rx_side s"
  "rx_side (s\<lparr>ts_last_keepalive_tsc := y\<rparr>) = rx_side s" "rx_side (s\<lparr>ts_keepalive_misses := k\<rparr>) = rx_side s"
  "rx_side (s\<lparr>ts_effective_mss := e\<rparr>) = rx_side s" "rx_side (s\<lparr>ts_nic := v\<rparr>) = rx_side s" "rx_side (s\<lparr>ts_template := t\<rparr>) = rx_side s"
  by (simp_all add: rx_side_def)

lemma tx_segment_rx_side: "tx_segment q a f w d s = (r, s') \<Longrightarrow> rx_side s' = rx_side s \<and> ts_state s' = ts_state s \<and> ts_snd_nxt s' = ts_snd_nxt s"
  using tx_segment_keeps [of q a f w d s] by simp

lemma tcp_send_rx_side [simp]: "rx_side (snd (tcp_send d s)) = rx_side s" "ts_state (snd (tcp_send d s)) = ts_state s"
  by (auto simp: tcp_send_def split: prod.splits tx_result.splits dest: tx_segment_rx_side)

lemma send_ack_rx_side [simp]: "rx_side (snd (send_ack s)) = rx_side s" "ts_state (snd (send_ack s)) = ts_state s" "ts_snd_nxt (snd (send_ack s)) = ts_snd_nxt s"
  by (auto simp: send_ack_def split: prod.splits tx_result.splits dest: tx_segment_rx_side)

lemma session_build_rx_side [simp]:
  "rx_side (snd (session_build q a f w d s)) = rx_side s" "ts_state (snd (session_build q a f w d s)) = ts_state s"
  "ts_snd_nxt (snd (session_build q a f w d s)) = ts_snd_nxt s" "ts_effective_mss (snd (session_build q a f w d s)) = ts_effective_mss s"
  by (simp_all add: session_build_def Let_def case_prod_beta)

lemma prepare_batch_rx_side:
  "rx_side (snd (prepare_batch segs d s)) = rx_side s \<and> ts_state (snd (prepare_batch segs d s)) = ts_state s \<and>
   ts_snd_nxt (snd (prepare_batch segs d s)) = ts_snd_nxt s"
proof (induction segs d s rule: prepare_batch.induct)
  case (2 seg segs d s)
  obtain r s' where rs: "session_build (ts_snd_nxt s + of_nat (sum_list (map snd d))) (ts_rcv_nxt s) (kTcpAck OR kTcpPsh) (ts_rcv_wnd s) seg s = (r, s')"
    by (metis surj_pair)
  then have "rx_side s' = rx_side s" "ts_state s' = ts_state s" "ts_snd_nxt s' = ts_snd_nxt s"
    using session_build_rx_side by (metis snd_conv)+
  then show ?case using rs 2 by (cases r) auto
qed simp

lemma send_batch_rx_side [simp]: "rx_side (snd (send_batch segs s)) = rx_side s" "ts_state (snd (send_batch segs s)) = ts_state s"
proof -
  obtain pr s' where e: "prepare_batch (take kMaxBatchSize segs) [] s = (pr, s')" by (metis surj_pair)
  then have "rx_side s' = rx_side s" "ts_state s' = ts_state s" using prepare_batch_rx_side [of "take kMaxBatchSize segs" "[]" s] by simp_all
  then show "rx_side (snd (send_batch segs s)) = rx_side s" "ts_state (snd (send_batch segs s)) = ts_state s"
    by (simp_all add: send_batch_def e tx_burst_def Let_def)
qed

lemma flush_rx_side [simp]: "rx_side (flush_pending_ack dl now s) = rx_side s" "ts_state (flush_pending_ack dl now s) = ts_state s"
proof -
  obtain r s' where e: "send_ack s = (r, s')" by (metis surj_pair)
  then have "rx_side s' = rx_side s" "ts_state s' = ts_state s" using send_ack_rx_side(1,2) [of s] by simp_all
  then show "rx_side (flush_pending_ack dl now s) = rx_side s" "ts_state (flush_pending_ack dl now s) = ts_state s"
    using e by (cases r; simp add: flush_pending_ack_def)+
qed

lemma icmp_rx_side [simp]: "rx_side (on_icmp_frag_needed mtu s) = rx_side s" "ts_state (on_icmp_frag_needed mtu s) = ts_state s"
  by (simp_all add: on_icmp_frag_needed_def Let_def)

lemma tick_rx_side [simp]: "rx_side (tick_keepalive iv now s) = rx_side s"
proof -
  have "rx_side (snd (send_keepalive_probe s)) = rx_side s"
    by (auto simp: send_keepalive_probe_def split: prod.splits tx_result.splits dest: tx_segment_rx_side)
  then show ?thesis by (auto simp: tick_keepalive_def Let_def case_prod_beta split: sum.splits)
qed

lemma tcp_close_rx_side [simp]: "rx_side (snd (tcp_close s)) = rx_side s"
  by (auto simp: tcp_close_def split: prod.splits tx_result.splits dest: tx_segment_rx_side)

section \<open>Runs\<close>

text \<open>
  Everything a session does between connection set-up and teardown, in any order: bursts from the card,
  sends of the application, the timers, path-MTU feedback and the local close.
\<close>

datatype tcp_event =
    Burst int u64 "mbuf list"
  | App_send bytes
  | App_send_batch "bytes list"
  | Ack_timer u64 u64
  | Keepalive u64 u64
  | Frag_needed u16
  | App_close

fun tcp_step :: "nat \<Rightarrow> TcpSession \<Rightarrow> tcp_event \<Rightarrow> TcpSession" where
  "tcp_step slots s (Burst now tsc ms) = snd (process_rx slots now tsc ms s)"
| "tcp_step slots s (App_send d) = snd (tcp_send d s)"
| "tcp_step slots s (App_send_batch segs) = snd (send_batch segs s)"
| "tcp_step slots s (Ack_timer delay now) = flush_pending_ack delay now s"
| "tcp_step slots s (Keepalive iv now) = tick_keepalive iv now s"
| "tcp_step slots s (Frag_needed mtu) = on_icmp_frag_needed mtu s"
| "tcp_step slots s App_close = snd (tcp_close s)"

definition tcp_run :: "nat \<Rightarrow> TcpSession \<Rightarrow> tcp_event list \<Rightarrow> TcpSession" where
  "tcp_run slots = foldl (tcp_step slots)"

fun received :: "tcp_event \<Rightarrow> mbuf list" where
  "received (Burst now tsc ms) = ms"
| "received _ = []"

lemma rx_side_inv: "rx_inv S r0 s \<Longrightarrow> rx_side s' = rx_side s \<Longrightarrow> rx_inv S r0 s'"
  by (rule rx_inv_cong) (simp_all add: rx_side_def)

lemma tcp_step_config [simp]: "ts_config (tcp_step slots s e) = ts_config s"
  by (cases e) (simp, use rx_side_def in \<open>metis (no_types, lifting) tcp_step.simps prod.inject rx_side_def tcp_send_rx_side(1)
    send_batch_rx_side(1) flush_rx_side(1) tick_rx_side icmp_rx_side(1) tcp_close_rx_side\<close>)+

lemma tcp_step_inv:
  assumes "rx_inv S r0 s" "length S + 1 < 2 ^ 32" "list_all (honest S r0 (tc_tuple (ts_config s))) (received e)"
  shows "rx_inv S r0 (tcp_step slots s e)"
  using assms by (cases e) (auto intro: process_rx_inv rx_side_inv [OF assms(1)])

lemma tcp_run_inv:
  assumes "length S + 1 < 2 ^ 32"
  shows "rx_inv S r0 s \<Longrightarrow> list_all (honest S r0 (tc_tuple (ts_config s))) (concat (map received evs)) \<Longrightarrow> rx_inv S r0 (tcp_run slots s evs)"
proof (induction evs arbitrary: s)
  case (Cons e evs)
  then show ?case using tcp_step_inv [OF Cons.prems(1) assms, of e slots] by (simp add: tcp_run_def)
qed (simp add: tcp_run_def)

text \<open>
  C10. Whatever the network does to the peer's segments (reordering, duplication, loss, segments that
  overlap, resets, foreign packets) and whatever the session sends meanwhile, the bytes handed to the data
  callback are a prefix of the bytes the peer sent, and the acknowledged sequence number counts exactly
  them and, after the last of them, the FIN. The bound on the stream is the one within which 32-bit
  sequence numbers are unambiguous.
\<close>

theorem tcp_delivers_prefix:
  assumes "length S + 1 < 2 ^ 32"
    and "ts_rcv_nxt s = r0" "ts_reorder s = []" "ts_delivered s = []"
    and "list_all (honest S r0 (tc_tuple (ts_config s))) (concat (map received evs))"
    and "s' = tcp_run slots s evs"
  shows "\<exists>n fin. n \<le> length S \<and> (fin \<longrightarrow> n = length S) \<and> concat (ts_delivered s') = take n S \<and>
    ts_rcv_nxt s' = r0 + of_nat (n + (if fin then 1 else 0))"
proof -
  have "rx_at S r0 0 False s" using assms(2-4) by (simp add: rx_at_def)
  then have "rx_inv S r0 s" unfolding rx_inv_def by blast
  from tcp_run_inv [OF assms(1) this assms(5)] show ?thesis
    unfolding assms(6) rx_inv_def rx_at_def by blast
qed

lemma honest_segment:
  assumes "is_segment t q fl d m" "on_wire m m'"
    and "d \<noteq> [] \<Longrightarrow> in_stream S r0 q d" "fl AND kTcpFin \<noteq> 0 \<Longrightarrow> q + of_nat (length d) = r0 + of_nat (length S)"
  shows "honest S r0 u m'"
  using is_segment_parse [OF assms(1,2) refl] assms(3,4) by (auto simp: honest_def Let_def)

lemma honest_demo:
  assumes "length d \<le> 1000" "d \<noteq> [] \<Longrightarrow> in_stream S r0 q d" "fl AND kTcpFin \<noteq> 0 \<Longrightarrow> q + of_nat (length d) = r0 + of_nat (length S)"
  shows "honest S r0 u (demo_segment q fl d)"
  by (rule honest_segment [OF demo_segment [OF assms(1)] on_wire_refl [OF demo_segment [OF assms(1)]] assms(2,3)])

lemma demo_session_fresh:
  "ts_rcv_nxt demo_session = 0" "ts_reorder demo_session = []" "ts_delivered demo_session = []" "ts_state demo_session = Established"
  "tc_tuple (ts_config demo_session) = flip_tuple (pt_tuple demo_template)"
  by (simp_all add: demo_session_def mk_TcpSession_def Let_def)

theorem tcp_delivers_prefix_witness:
  "\<exists>n. concat (ts_delivered (tcp_run 32 demo_session
     [Burst 0 5 [demo_segment 2 0x18 [30], demo_segment 0 0x18 [10, 20]], App_send [7], Burst 1 9 [demo_segment 2 0x18 [30]]])) =
     take n [10, 20, 30]"
proof -
  let ?evs = "[Burst 0 5 [demo_segment 2 0x18 [30], demo_segment 0 0x18 [10, 20]], App_send [7], Burst 1 9 [demo_segment 2 0x18 [30]]]"
  have i: "in_stream [10, 20, 30] 0 0 [10, 20]" unfolding in_stream_def by (rule exI [of _ 0]) (simp add: slice_def)
  have j: "in_stream [10, 20, 30] 0 2 [30]" unfolding in_stream_def by (rule exI [of _ 2]) (simp add: slice_def)
  have h: "honest [10, 20, 30] 0 u (demo_segment 0 0x18 [10, 20])" "honest [10, 20, 30] 0 u (demo_segment 2 0x18 [30])" for u
    by (rule honest_demo; simp add: i j kTcpFin_def)+
  have "list_all (honest [10, 20, 30] 0 (tc_tuple (ts_config demo_session))) (concat (map received ?evs))" by (simp add: h)
  moreover have "length [10, 20, 30 :: u8] + 1 < 2 ^ 32" by simp
  ultimately show ?thesis using tcp_delivers_prefix [OF _ demo_session_fresh(1-3) _ refl] by blast
qed

end
