(* ===== verification/Tcp_Reorder.thy ===== *)
theory Tcp_Reorder
  imports Tcp_Receive
begin

text \<open>
  The reorder buffer of \<^verbatim>\<open>tcp.hpp\<close> (\<open>rx_out_of_order\<close>, \<open>drain_reorder_buf\<close>): what it puts back in order, and what
  it does with segments that arrive twice.
\<close>

section \<open>Reordered and duplicated segments are put back in order\<close>

text \<open>The peer's stream cut into blocks; \<open>block_off\<close> is where a block starts.\<close>

definition block_off :: "bytes list \<Rightarrow> nat \<Rightarrow> nat" where
  "block_off bs i = length (concat (take i bs))"

definition blocks_ok :: "bytes list \<Rightarrow> bool" where
  "blocks_ok bs \<longleftrightarrow> (\<forall>b \<in> set bs. b \<noteq> [] \<and> length b \<le> kDefaultMss) \<and> length (concat bs) < 2 ^ 31"

definition block_entry :: "bytes list \<Rightarrow> u32 \<Rightarrow> nat \<Rightarrow> ReorderEntry" where
  "block_entry bs r0 i = \<lparr>re_seq = r0 + of_nat (block_off bs i), re_data = bs ! i\<rparr>"

text \<open>A data segment of this connection that carries block \<open>i\<close>.\<close>

definition carries :: "bytes list \<Rightarrow> u32 \<Rightarrow> ConnectionTuple \<Rightarrow> nat \<Rightarrow> mbuf \<Rightarrow> bool" where
  "carries bs r0 t i m \<longleftrightarrow> (let p = parse_packet m in
     i < length bs \<and> pp_tcp p \<noteq> None \<and> pp_matches t p \<and> \<not> has_flag kTcpRst p \<and> \<not> has_flag kTcpFin p \<and>
     pp_seq p = r0 + of_nat (block_off bs i) \<and> pp_bytes p = bs ! i)"

lemma block_off_Suc: "i < length bs \<Longrightarrow> block_off bs (Suc i) = block_off bs i + length (bs ! i)"
  by (simp add: block_off_def take_Suc_conv_app_nth)

lemma block_off_mono: "blocks_ok bs \<Longrightarrow> i < j \<Longrightarrow> j \<le> length bs \<Longrightarrow> block_off bs i < block_off bs j"
proof (induction j)
  case (Suc j)
  have "bs ! j \<noteq> []" using Suc.prems by (auto simp: blocks_ok_def)
  then have "block_off bs j < block_off bs (Suc j)" using Suc.prems by (simp add: block_off_Suc)
  then show ?case using Suc by (cases "i = j") auto
qed simp

lemma block_off_le: "block_off bs i \<le> length (concat bs)"
proof -
  have "concat bs = concat (take i bs) @ concat (drop i bs)" by (metis append_take_drop_id concat_append)
  then show ?thesis by (simp add: block_off_def)
qed

lemma block_off_inj: "blocks_ok bs \<Longrightarrow> i \<le> length bs \<Longrightarrow> j \<le> length bs \<Longrightarrow> (r0 :: u32) + of_nat (block_off bs i) = r0 + of_nat (block_off bs j) \<Longrightarrow> i = j"
proof -
  assume b: "blocks_ok bs" and ij: "i \<le> length bs" "j \<le> length bs" and e: "r0 + of_nat (block_off bs i) = r0 + of_nat (block_off bs j)"
  have "block_off bs i = block_off bs j"
    by (rule of_nat_u32_inj) (use e block_off_le [of bs i] block_off_le [of bs j] b in \<open>auto simp: blocks_ok_def\<close>)
  then show "i = j" using block_off_mono [OF b, of i j] block_off_mono [OF b, of j i] ij by (metis less_irrefl linorder_neqE_nat)
qed

lemma seq_after_off:
  assumes "a < 2 ^ 31" "b < 2 ^ 31"
  shows "seq_after (r0 + of_nat a) (r0 + of_nat b) \<longleftrightarrow> b < a"
proof -
  have "sint (of_nat a - of_nat b :: u32) = int a - int b"
  proof -
    have w: "(of_nat a - of_nat b :: u32) = of_int (int a - int b)" by simp
    have "- (2 ^ 31) \<le> int a - int b" "int a - int b < 2 ^ 31" using assms by auto
    then show ?thesis unfolding w by (simp only: signed_of_int) (simp add: signed_take_bit_int_eq_self)
  qed
  then show ?thesis by (simp add: seq_after_def)
qed

lemma mset_swap_remove:
  assumes "i < length xs"
  shows "add_mset (xs ! i) (mset (swap_remove i xs)) = mset xs"
proof -
  obtain as x zs where xs: "xs = as @ x # zs" "length as = i"
    using id_take_nth_drop [OF assms] assms by (metis length_take less_imp_le min.absorb2)
  show ?thesis
  proof (cases zs rule: rev_cases)
    case Nil
    then show ?thesis using xs by (simp add: swap_remove_def list_update_append nth_append butlast_append)
  next
    case (snoc ys l)
    then have "swap_remove i xs = as @ l # ys" using xs by (simp add: swap_remove_def list_update_append butlast_append)
    then show ?thesis using xs snoc by (simp add: nth_append)
  qed
qed

lemma swap_remove_keeps: "i < length xs \<Longrightarrow> x \<in> set xs \<Longrightarrow> x \<noteq> xs ! i \<Longrightarrow> x \<in> set (swap_remove i xs)"
  using mset_swap_remove [of i xs] by (metis insert_iff set_mset_add_mset_insert set_mset_mset)

lemma length_swap_remove [simp]: "length (swap_remove i xs) = length xs - 1"
  by (simp add: swap_remove_def)

text \<open>
  Blocks \<open>0\<close> to \<open>i - 1\<close> have been delivered, the blocks of \<open>J\<close> have arrived, and those of them that are not
  yet delivered are in the reorder buffer, which holds nothing but blocks.
\<close>

definition arrived :: "bytes list \<Rightarrow> u32 \<Rightarrow> nat set \<Rightarrow> nat \<Rightarrow> TcpSession \<Rightarrow> bool" where
  "arrived bs r0 J i s \<longleftrightarrow> i \<le> length bs \<and> concat (ts_delivered s) = concat (take i bs) \<and>
     ts_rcv_nxt s = r0 + of_nat (block_off bs i) \<and>
     (\<forall>j \<in> J. i \<le> j \<longrightarrow> block_entry bs r0 j \<in> set (ts_reorder s)) \<and>
     (\<forall>e \<in> set (ts_reorder s). \<exists>j < length bs. e = block_entry bs r0 j)"

lemma deliver_arrived:
  assumes "arrived bs r0 J i s" "i < length bs" "s' = (deliver (bs ! i) s)\<lparr>ts_reorder := R\<rparr>"
    and "\<And>j. j \<in> J \<Longrightarrow> i < j \<Longrightarrow> block_entry bs r0 j \<in> set R" "set R \<subseteq> set (ts_reorder s)"
  shows "arrived bs r0 J (Suc i) s'"
proof -
  have "\<exists>j < length bs. e = block_entry bs r0 j" if "e \<in> set R" for e
    using that assms(1,5) unfolding arrived_def by blast
  moreover have "block_entry bs r0 j \<in> set R" if "j \<in> J" "Suc i \<le> j" for j using that assms(4) by simp
  ultimately show ?thesis
    using assms(1,2) unfolding arrived_def assms(3) by (simp add: block_off_Suc take_Suc_conv_app_nth algebra_simps)
qed

lemma drain_arrived:
  assumes b: "blocks_ok bs" and J: "J \<subseteq> {..<length bs}"
  shows "arrived bs r0 J i s \<Longrightarrow>
    \<exists>i' \<ge> i. i' \<notin> J \<and> arrived bs r0 J i' (snd (drain_reorder_buf s)) \<and> length (ts_reorder (snd (drain_reorder_buf s))) \<le> length (ts_reorder s)"
proof (induction s arbitrary: i rule: drain_reorder_buf.induct)
  case (1 s)
  let ?f = "find (\<lambda>i. re_seq (ts_reorder s ! i) = ts_rcv_nxt s) [0..<length (ts_reorder s)]"
  have a: "i \<le> length bs" "ts_rcv_nxt s = r0 + of_nat (block_off bs i)"
    "\<And>e. e \<in> set (ts_reorder s) \<Longrightarrow> \<exists>j < length bs. e = block_entry bs r0 j"
    using 1(2) unfolding arrived_def by blast+
  show ?case
  proof (cases ?f)
    case None
    then have none: "re_seq e \<noteq> ts_rcv_nxt s" if "e \<in> set (ts_reorder s)" for e
      using that by (auto simp: find_None_iff in_set_conv_nth)
    have "i \<notin> J"
    proof
      assume "i \<in> J"
      then have "block_entry bs r0 i \<in> set (ts_reorder s)" using 1(2) unfolding arrived_def by blast
      then show False using none [of "block_entry bs r0 i"] a(2) by (simp add: block_entry_def)
    qed
    then show ?thesis using None 1(2) by (subst (1 2) drain_reorder_buf.simps) auto
  next
    case (Some k)
    then have k: "k < length (ts_reorder s)" "re_seq (ts_reorder s ! k) = ts_rcv_nxt s"
      by (auto simp: find_Some_iff)
    obtain j where j: "j < length bs" "ts_reorder s ! k = block_entry bs r0 j" using a(3) [OF nth_mem [OF k(1)]] by blast
    then have "r0 + of_nat (block_off bs j) = r0 + of_nat (block_off bs i)" using k(2) a(2) by (simp add: block_entry_def)
    then have ji: "j = i" using block_off_inj [OF b] j(1) a(1) by simp
    let ?s = "(deliver (re_data (ts_reorder s ! k)) s)\<lparr>ts_reorder := swap_remove k (ts_reorder s)\<rparr>"
    have "arrived bs r0 J (Suc i) ?s"
    proof (rule deliver_arrived [OF 1(2)])
      show "i < length bs" using j(1) ji by simp
      show "?s = (deliver (bs ! i) s)\<lparr>ts_reorder := swap_remove k (ts_reorder s)\<rparr>" using j ji by (simp add: block_entry_def)
      show "set (swap_remove k (ts_reorder s)) \<subseteq> set (ts_reorder s)" by (rule swap_remove_set [OF k(1)])
      show "block_entry bs r0 j' \<in> set (swap_remove k (ts_reorder s))" if "j' \<in> J" "i < j'" for j'
      proof (rule swap_remove_keeps [OF k(1)])
        show "block_entry bs r0 j' \<in> set (ts_reorder s)" using 1(2) that unfolding arrived_def by simp
        have "j' \<le> length bs" using that J by (auto simp: subset_iff)
        then show "block_entry bs r0 j' \<noteq> ts_reorder s ! k"
          using that j ji block_off_inj [OF b, of j' i r0] a(1) by (auto simp: block_entry_def)
      qed
    qed
    from 1(1) [OF Some this] obtain i' where i': "i' \<ge> Suc i" "i' \<notin> J" "arrived bs r0 J i' (snd (drain_reorder_buf ?s))"
      "length (ts_reorder (snd (drain_reorder_buf ?s))) \<le> length (ts_reorder ?s)" by blast
    have d: "snd (drain_reorder_buf s) = snd (drain_reorder_buf ?s)"
      using Some by (subst drain_reorder_buf.simps) (simp add: case_prod_beta Let_def)
    show ?thesis unfolding d using i' by (intro exI [of _ i']) auto
  qed
qed


lemma rx_packet_arrived:
  assumes b: "blocks_ok bs" and J: "J \<subseteq> {..<length bs}" and a: "arrived bs r0 J i s" "i \<notin> J"
    and m: "carries bs r0 (tc_tuple (ts_config s)) j m" and st: "ts_state s = Established" and sl: "length (ts_reorder s) < slots"
    and r: "rx_packet slots now m s = (r, s')"
  shows "\<exists>i'. i' \<notin> insert j J \<and> arrived bs r0 (insert j J) i' s'" "\<exists>x. r = Inr x" "ts_state s' = Established"
    "length (ts_reorder s') \<le> Suc (length (ts_reorder s))"
proof -
  define p where "p = parse_packet m"
  have p: "j < length bs" "pp_tcp p \<noteq> None" "pp_matches (tc_tuple (ts_config s)) p" "\<not> has_flag kTcpRst p" "\<not> has_flag kTcpFin p"
    "pp_seq p = r0 + of_nat (block_off bs j)" "pp_bytes p = bs ! j"
    using m by (auto simp: carries_def p_def [symmetric] Let_def)
  have bj: "bs ! j \<noteq> []" "length (bs ! j) \<le> kDefaultMss" using b p(1) by (auto simp: blocks_ok_def)
  have pl: "pp_payload_len p = length (bs ! j)" "pp_payload p \<noteq> None"
    using parse_packet_payload [OF p_def] p(7) bj(1) by auto
  let ?s = "rx_ack now p (rx_touch s)"
  have st': "ts_state ?s = Established" using st by (simp add: rx_ack_def Let_def)
  have rx: "rx_packet slots now m s = rx_data slots now p ?s" using p(2-4) by (auto simp: rx_packet_def p_def [symmetric] Let_def)
  have ai: "i \<le> length bs" "ts_rcv_nxt s = r0 + of_nat (block_off bs i)" using a(1) by (simp_all add: arrived_def)
  have fin: "rx_fin now p x = (False, x)" for x using p(5) by (simp add: rx_fin_def)
  have a': "arrived bs r0 J i ?s" using a(1) by (simp add: arrived_def)
  have bnd: "block_off bs i < 2 ^ 31" "block_off bs j < 2 ^ 31" using block_off_le [of bs i] block_off_le [of bs j] b by (auto simp: blocks_ok_def)
  have "(\<exists>i'. i' \<notin> insert j J \<and> arrived bs r0 (insert j J) i' s') \<and> (\<exists>x. r = Inr x) \<and> ts_state s' = Established \<and>
    length (ts_reorder s') \<le> Suc (length (ts_reorder s))"
  proof (cases "j = i")
    case True
    have ns: "\<not> (receiving (ts_state ?s) \<and> pp_seq p \<noteq> ts_rcv_nxt ?s \<and> pp_payload_len p > 0)" using p(6) ai(2) True by simp
    have s': "s' = snd (drain_reorder_buf (deliver (bs ! i) ?s))" "\<exists>x. r = Inr x"
      using rx_data_ready [OF ns, of slots now] r st' p(7) pl bj(1) True unfolding rx
      by (simp_all add: fin receiving_def rx_in_order_def case_prod_beta Let_def)
    have "arrived bs r0 (insert i J) (Suc i) (deliver (bs ! i) ?s)"
      using deliver_arrived [OF a', of "deliver (bs ! i) ?s" "ts_reorder ?s"] p(1) True a'
      by (simp add: arrived_def) 
    then obtain i' where "i' \<ge> Suc i" "i' \<notin> insert i J" "arrived bs r0 (insert i J) i' s'" "length (ts_reorder s') \<le> length (ts_reorder s)"
      using drain_arrived [OF b, of "insert i J" r0 "Suc i" "deliver (bs ! i) ?s"] J p(1) True s'(1) by auto
    then have "i' \<notin> insert j J \<and> arrived bs r0 (insert j J) i' s'" "length (ts_reorder s') \<le> Suc (length (ts_reorder s))"
      unfolding True by simp_all
    then show ?thesis using s' st' by auto
  next
    case False
    then have ne: "pp_seq p \<noteq> ts_rcv_nxt ?s" using block_off_inj [OF b, of j i r0] p(1,6) ai by auto
    have late: "receiving (ts_state ?s)" "pp_payload_len p > 0" using st' pl(1) bj(1) by (simp_all add: receiving_def)
    note d = rx_data_late [OF late(1) ne late(2), of slots now, folded rx, unfolded r snd_conv fst_conv]
    have after: "seq_after (pp_seq p) (ts_rcv_nxt ?s) \<longleftrightarrow> i < j"
      using seq_after_off [OF bnd(2,1), of r0] block_off_mono [OF b, of i j] block_off_mono [OF b, of j i] False p(1,6) ai
      by (cases i j rule: linorder_cases) auto
    show ?thesis
    proof (cases "i < j")
      case True
      then have "fst (rx_out_of_order slots p ?s) = None" "ts_reorder (snd (rx_out_of_order slots p ?s)) = ts_reorder s @ [block_entry bs r0 j]"
        using after sl pl bj(2) p(6,7) by (simp_all add: rx_out_of_order_def record_gap_def Let_def block_entry_def)
      then have "arrived bs r0 (insert j J) i s'" "\<exists>x. r = Inr x" "length (ts_reorder s') = Suc (length (ts_reorder s))"
        using d a(1) p(1) unfolding arrived_def by auto
      then show ?thesis using a(2) False d(1) st' by auto
    next
      case nl: False
      then have "fst (rx_out_of_order slots p ?s) = None" "ts_reorder (snd (rx_out_of_order slots p ?s)) = ts_reorder s"
        using after pl bj(2) by (simp_all add: rx_out_of_order_def record_gap_def Let_def)
      then have "arrived bs r0 (insert j J) i s'" "\<exists>x. r = Inr x" "length (ts_reorder s') = length (ts_reorder s)"
        using d a(1) nl False unfolding arrived_def by auto
      then show ?thesis using a(2) False d(1) st' by auto
    qed
  qed
  then show "\<exists>i'. i' \<notin> insert j J \<and> arrived bs r0 (insert j J) i' s'" "\<exists>x. r = Inr x" "ts_state s' = Established"
    "length (ts_reorder s') \<le> Suc (length (ts_reorder s))" by blast+
qed


lemma rx_loop_arrived:
  assumes b: "blocks_ok bs"
  shows "list_all2 (\<lambda>j. carries bs r0 (tc_tuple (ts_config s)) j) js ms \<Longrightarrow> J \<subseteq> {..<length bs} \<Longrightarrow> arrived bs r0 J i s \<Longrightarrow> i \<notin> J \<Longrightarrow>
    ts_state s = Established \<Longrightarrow> length (ts_reorder s) + length ms \<le> slots \<Longrightarrow> rx_loop slots now ms c a free s = (r, s') \<Longrightarrow>
    (\<exists>i'. i' \<notin> J \<union> set js \<and> arrived bs r0 (J \<union> set js) i' s') \<and> (\<exists>x. r = Inr x) \<and> ts_state s' = Established \<and>
    length (ts_reorder s') \<le> length (ts_reorder s) + length ms"
proof (induction ms arbitrary: js J i s c a free)
  case Nil
  then have "js = []" "s' = s\<lparr>ts_freed := ts_freed s @ free\<rparr>" "\<exists>x. r = Inr x" by auto
  moreover have "arrived bs r0 J i (s\<lparr>ts_freed := ts_freed s @ free\<rparr>)" using Nil(3) by (simp add: arrived_def)
  ultimately show ?case using Nil by auto
next
  case (Cons m ms)
  then obtain j js' where js: "js = j # js'" "carries bs r0 (tc_tuple (ts_config s)) j m" "list_all2 (\<lambda>j. carries bs r0 (tc_tuple (ts_config s)) j) js' ms"
    by (auto simp: list_all2_Cons2)
  obtain r1 s1 where p: "rx_packet slots now m s = (r1, s1)" by (cases "rx_packet slots now m s")
  have sl: "length (ts_reorder s) < slots" using Cons.prems(6) by simp
  note q = rx_packet_arrived [OF b Cons.prems(2-4) js(2) Cons.prems(5) sl p]
  obtain n k where r1: "r1 = Inr (n, k)" using q(2) by auto
  obtain i1 where i1: "i1 \<notin> insert j J" "arrived bs r0 (insert j J) i1 s1" using q(1) by blast
  have cfg: "ts_config s1 = ts_config s" using rx_packet_keeps(1) [of slots now m s] p by simp
  have "insert j J \<subseteq> {..<length bs}" using Cons.prems(2) js(2) by (auto simp: carries_def Let_def)
  moreover have "rx_loop slots now ms (c + n) (a \<or> k) (free @ [m]) s1 = (r, s')" using Cons.prems(7) p r1 by simp
  moreover have "length (ts_reorder s1) + length ms \<le> slots" using q(4) Cons.prems(6) by simp
  ultimately show ?case
    using Cons.IH [of s1 js' "insert j J" i1 "c + n" "a \<or> k" "free @ [m]"] js(3) i1 q(3,4) cfg unfolding js(1) by auto
qed

text \<open>Events that keep an established session open.\<close>

fun data_event :: "tcp_event \<Rightarrow> bool" where
  "data_event (Keepalive iv now) = False"
| "data_event App_close = False"
| "data_event _ = True"

lemma tcp_step_arrived:
  assumes b: "blocks_ok bs" and J: "J \<subseteq> {..<length bs}" and a: "arrived bs r0 J i s" "i \<notin> J" and st: "ts_state s = Established"
    and ev: "data_event e" "list_all2 (\<lambda>j. carries bs r0 (tc_tuple (ts_config s)) j) js (received e)" "length (ts_reorder s) + length (received e) \<le> slots"
  shows "(\<exists>i'. i' \<notin> J \<union> set js \<and> arrived bs r0 (J \<union> set js) i' (tcp_step slots s e)) \<and> ts_state (tcp_step slots s e) = Established \<and>
    length (ts_reorder (tcp_step slots s e)) \<le> length (ts_reorder s) + length (received e)"
proof (cases "\<exists>now tsc ms. e = Burst now tsc ms")
  case True
  then obtain now tsc ms where e: "e = Burst now tsc ms" by blast
  obtain r s' where l: "rx_loop slots now ms 0 False [] s = (r, s')" by (cases "rx_loop slots now ms 0 False [] s")
  obtain x where x: "tcp_step slots s e = s'\<lparr>ts_ack_pending := x\<rparr>" using process_rx_session [of slots now tsc ms s] l e by auto
  have upd: "arrived bs r0 K k (s'\<lparr>ts_ack_pending := x\<rparr>) = arrived bs r0 K k s'" for K k by (simp add: arrived_def)
  show ?thesis using rx_loop_arrived [OF b _ J a st _ l, of js] ev(2,3) e unfolding x upd by simp
next
  case False
  then have e: "received e = []" "rx_side (tcp_step slots s e) = rx_side s" "ts_state (tcp_step slots s e) = ts_state s"
    using ev(1) by (cases e; simp)+
  then have "js = []" "arrived bs r0 J i (tcp_step slots s e)" using ev(2) a(1) by (auto simp: arrived_def rx_side_def)
  then show ?thesis using a(2) st e by (auto simp: rx_side_def)
qed

lemma tcp_run_arrived:
  assumes b: "blocks_ok bs"
  shows "list_all data_event evs \<Longrightarrow> list_all2 (\<lambda>j. carries bs r0 (tc_tuple (ts_config s)) j) js (concat (map received evs)) \<Longrightarrow>
    J \<subseteq> {..<length bs} \<Longrightarrow> arrived bs r0 J i s \<Longrightarrow> i \<notin> J \<Longrightarrow> ts_state s = Established \<Longrightarrow>
    length (ts_reorder s) + length (concat (map received evs)) \<le> slots \<Longrightarrow>
    (\<exists>i'. i' \<notin> J \<union> set js \<and> arrived bs r0 (J \<union> set js) i' (tcp_run slots s evs)) \<and> ts_state (tcp_run slots s evs) = Established"
proof (induction evs arbitrary: js J i s)
  case Nil
  then show ?case by (auto simp: tcp_run_def)
next
  case (Cons e evs)
  let ?s = "tcp_step slots s e"
  obtain js1 js2 where js: "js = js1 @ js2" "list_all2 (\<lambda>j. carries bs r0 (tc_tuple (ts_config s)) j) js1 (received e)"
    "list_all2 (\<lambda>j. carries bs r0 (tc_tuple (ts_config s)) j) js2 (concat (map received evs))"
    using Cons.prems(2) by (auto simp: list_all2_append2)
  have l: "length (ts_reorder s) + length (received e) \<le> slots" using Cons.prems(7) by simp
  have q: "\<exists>i'. i' \<notin> J \<union> set js1 \<and> arrived bs r0 (J \<union> set js1) i' ?s" "ts_state ?s = Established"
      "length (ts_reorder ?s) \<le> length (ts_reorder s) + length (received e)"
    using tcp_step_arrived [OF b Cons.prems(3-6) _ js(2) l] Cons.prems(1) by auto
  obtain i1 where i1: "i1 \<notin> J \<union> set js1" "arrived bs r0 (J \<union> set js1) i1 ?s" using q(1) by blast
  have "set js1 \<subseteq> {..<length bs}"
    using js(2) by (auto simp: list_all2_conv_all_nth in_set_conv_nth carries_def Let_def)
  then have "J \<union> set js1 \<subseteq> {..<length bs}" using Cons.prems(3) by simp
  moreover have "length (ts_reorder ?s) + length (concat (map received evs)) \<le> slots" using q(3) Cons.prems(7) by simp
  ultimately show ?case
    using Cons.IH [of ?s js2 "J \<union> set js1" i1] Cons.prems(1) js(1,3) i1 q(2) by (simp add: tcp_run_def Un_assoc)
qed

text \<open>
  C9. Data segments of at most 1460 bytes (\<open>kDefaultMss\<close>) that arrive in any order and any number of times, in
  any bursts and between any sends, are delivered completely and in order as soon as each has arrived at
  least once, as long as no more than \<open>ReorderSlots\<close> packets arrive; the session stays established. The
  limit on the size is the code's: it does not buffer a larger segment that arrives early.
\<close>

theorem tcp_reordering_delivers:
  assumes "blocks_ok bs" "list_all data_event evs" "length (concat (map received evs)) \<le> slots"
    and "list_all2 (\<lambda>j. carries bs r0 (tc_tuple (ts_config s)) j) js (concat (map received evs))" "set js = {..<length bs}"
    and "ts_state s = Established" "ts_rcv_nxt s = r0" "ts_reorder s = []" "ts_delivered s = []"
    and "s' = tcp_run slots s evs"
  shows "concat (ts_delivered s') = concat bs \<and> ts_rcv_nxt s' = r0 + of_nat (length (concat bs)) \<and> ts_state s' = Established"
proof -
  have "arrived bs r0 {} 0 s" using assms(7-9) by (simp add: arrived_def block_off_def)
  from tcp_run_arrived [OF assms(1,2,4) _ this _ assms(6)] assms(3,5,8)
  obtain i where i: "i \<notin> {..<length bs}" "arrived bs r0 {..<length bs} i s'" "ts_state s' = Established"
    unfolding assms(10) by auto
  then have "i = length bs" by (auto simp: arrived_def)
  then show ?thesis using i by (simp add: arrived_def block_off_def)
qed

lemma demo_carries:
  assumes "i < length bs" "length (bs ! i) \<le> 1000" "q = r0 + of_nat (block_off bs i)" "d = bs ! i"
  shows "carries bs r0 (flip_tuple (pt_tuple demo_template)) i (demo_segment q 0x18 d)"
proof -
  have "is_segment (pt_tuple demo_template) q 0x18 d (demo_segment q 0x18 d)" using assms by (simp add: demo_segment)
  from is_segment_parse [OF this on_wire_refl [OF this] refl] show ?thesis
    using assms by (simp add: carries_def Let_def kTcpRst_def kTcpFin_def)
qed

theorem tcp_reordering_delivers_witness:
  "concat (ts_delivered (tcp_run 32 demo_session
     [Burst 0 5 [demo_segment 2 0x18 [30], demo_segment 2 0x18 [30]], App_send [7], Burst 1 9 [demo_segment 0 0x18 [10, 20]]])) = [10, 20, 30]"
proof -
  let ?evs = "[Burst 0 5 [demo_segment 2 0x18 [30], demo_segment 2 0x18 [30]], App_send [7], Burst 1 9 [demo_segment 0 0x18 [10, 20]]]"
  let ?bs = "[[10, 20], [30]] :: bytes list"
  have ok: "blocks_ok ?bs" "list_all data_event ?evs" "length (concat (map received ?evs)) \<le> 32"
    by (simp_all add: blocks_ok_def kDefaultMss_def)
  have "carries ?bs 0 (flip_tuple (pt_tuple demo_template)) 0 (demo_segment 0 0x18 [10, 20])"
    "carries ?bs 0 (flip_tuple (pt_tuple demo_template)) 1 (demo_segment 2 0x18 [30])"
    by (rule demo_carries; simp add: block_off_def)+
  then have "list_all2 (\<lambda>j. carries ?bs 0 (tc_tuple (ts_config demo_session)) j) [1, 1, 0] (concat (map received ?evs))"
    by (simp add: demo_session_fresh)
  moreover have "set [1, 1, 0] = {..<length ?bs}" by auto
  ultimately show ?thesis
    using tcp_reordering_delivers [OF ok _ _ demo_session_fresh(4,1-3) refl] by fastforce
qed

end
