(* ===== verification/Tcp_Faults.thy ===== *)
theory Tcp_Faults
  imports Tcp_Reorder
begin

text \<open>
  Two limits of the reorder buffer of \<^verbatim>\<open>tcp.hpp\<close>, established on the model: a segment that was buffered twice
  occupies a slot for the rest of the connection, and a FIN on a buffered segment is forgotten.
\<close>

section \<open>One packet at a time\<close>

definition rx_obs :: "TcpSession \<Rightarrow> u32 \<times> bytes \<times> ReorderEntry list \<times> TcpState \<times> TcpConfig" where
  "rx_obs s = (ts_rcv_nxt s, concat (ts_delivered s), ts_reorder s, ts_state s, ts_config s)"

text \<open>A segment that carries block \<open>i\<close>, with or without FIN.\<close>

definition segment_at :: "bytes list \<Rightarrow> u32 \<Rightarrow> ConnectionTuple \<Rightarrow> bool \<Rightarrow> nat \<Rightarrow> mbuf \<Rightarrow> bool" where
  "segment_at bs r0 t fin i m \<longleftrightarrow> (let p = parse_packet m in
     i < length bs \<and> pp_tcp p \<noteq> None \<and> pp_matches t p \<and> \<not> has_flag kTcpRst p \<and> has_flag kTcpFin p = fin \<and>
     pp_seq p = r0 + of_nat (block_off bs i) \<and> pp_bytes p = bs ! i)"

definition rx_stuck :: ErrorInfo where
  "rx_stuck = ErrorInfo Disconnected ''TcpSession::process_rx: packet loss detected (reorder buffer full)''"

lemma segment_at_view:
  assumes b: "blocks_ok bs" and m: "segment_at bs r0 (tc_tuple (ts_config s)) fin j m" and st: "ts_state s = Established"
    and o: "i \<le> length bs" "ts_rcv_nxt s = r0 + of_nat (block_off bs i)"
    and p: "p = parse_packet m" and s': "s' = rx_ack now p (rx_touch s)"
  shows "rx_packet slots now m s = rx_data slots now p s'" "rx_obs s' = rx_obs s" "ts_state s' = Established"
    "pp_payload_len p = length (bs ! j)" "0 < pp_payload_len p" "pp_payload p \<noteq> None" "pp_payload_len p \<le> kDefaultMss"
    "pp_bytes p = bs ! j" "pp_seq p = r0 + of_nat (block_off bs j)"
    "pp_seq p = ts_rcv_nxt s' \<longleftrightarrow> i = j" "seq_after (pp_seq p) (ts_rcv_nxt s') \<longleftrightarrow> i < j"
proof -
  have f: "j < length bs" "pp_tcp p \<noteq> None" "pp_matches (tc_tuple (ts_config s)) p" "\<not> has_flag kTcpRst p"
    "pp_seq p = r0 + of_nat (block_off bs j)" "pp_bytes p = bs ! j"
    using m by (auto simp: segment_at_def p [symmetric] Let_def)
  have bj: "bs ! j \<noteq> []" "length (bs ! j) \<le> kDefaultMss" using b f(1) by (auto simp: blocks_ok_def)
  show "rx_packet slots now m s = rx_data slots now p s'" using f(2-4) by (auto simp: rx_packet_def p [symmetric] s' Let_def)
  show st': "ts_state s' = Established" using st by (simp add: s' rx_ack_def Let_def)
  then show "rx_obs s' = rx_obs s" using st by (simp add: s' rx_obs_def)
  show l: "pp_payload_len p = length (bs ! j)" "0 < pp_payload_len p" "pp_payload p \<noteq> None" "pp_payload_len p \<le> kDefaultMss"
    using parse_packet_payload [OF p] f(6) bj by auto
  show "pp_bytes p = bs ! j" "pp_seq p = r0 + of_nat (block_off bs j)" by (fact f)+
  have r: "ts_rcv_nxt s' = r0 + of_nat (block_off bs i)" using o(2) by (simp add: s')
  then show "pp_seq p = ts_rcv_nxt s' \<longleftrightarrow> i = j" using f(1,5) block_off_inj [OF b, of j i r0] o(1) by auto
  have "block_off bs i < 2 ^ 31" "block_off bs j < 2 ^ 31" using block_off_le [of bs i] block_off_le [of bs j] b by (auto simp: blocks_ok_def)
  then show "seq_after (pp_seq p) (ts_rcv_nxt s') \<longleftrightarrow> i < j"
    using seq_after_off [of "block_off bs j" "block_off bs i" r0] block_off_mono [OF b, of i j] block_off_mono [OF b, of j i] f(1,5) o(1) r
    by (cases i j rule: linorder_cases) auto
qed

lemma rx_packet_late:
  assumes b: "blocks_ok bs" and m: "segment_at bs r0 (tc_tuple (ts_config s)) fin j m" and st: "ts_state s = Established"
    and o: "i \<le> length bs" "ts_rcv_nxt s = r0 + of_nat (block_off bs i)"
    and r: "rx_packet slots now m s = (r, s')" and ne: "i \<noteq> j"
  shows "rx_obs s' = (ts_rcv_nxt s, concat (ts_delivered s),
      (if i < j \<and> length (ts_reorder s) < slots then ts_reorder s @ [block_entry bs r0 j] else ts_reorder s), Established, ts_config s)"
    "r = (if i < j \<and> slots \<le> length (ts_reorder s) then Inl rx_stuck else Inr (0, False))"
proof -
  let ?p = "parse_packet m" let ?s = "rx_ack now ?p (rx_touch s)"
  note v = segment_at_view [OF b m st o refl refl]
  have "rx_data slots now ?p ?s = (r, s')" using v(1) r by simp
  then have d: "s' = snd (rx_out_of_order slots ?p ?s)"
      "r = (case fst (rx_out_of_order slots ?p ?s) of None \<Rightarrow> Inr (0, False) | Some e \<Rightarrow> Inl e)"
    using rx_data_late [of ?s ?p slots now] v(3,5,10) ne by (simp_all add: receiving_def)
  have f: "ts_rcv_nxt ?s = ts_rcv_nxt s" "ts_reorder ?s = ts_reorder s" "ts_delivered ?s = ts_delivered s" "ts_config ?s = ts_config s" by simp_all
  have g: "\<not> pp_payload_len ?p > kDefaultMss" using v(7) by simp
  show "rx_obs s' = (ts_rcv_nxt s, concat (ts_delivered s),
      (if i < j \<and> length (ts_reorder s) < slots then ts_reorder s @ [block_entry bs r0 j] else ts_reorder s), Established, ts_config s)"
    unfolding d(1) using v(3,6,7,8,9,11) f g by (simp add: rx_obs_def rx_out_of_order_def record_gap_def Let_def block_entry_def)
  show "r = (if i < j \<and> slots \<le> length (ts_reorder s) then Inl rx_stuck else Inr (0, False))"
    unfolding d(2) using v(6,7,11) f g by (simp add: rx_out_of_order_def record_gap_def Let_def rx_stuck_def)
qed

text \<open>Draining a buffer that holds the same block \<open>n\<close> times delivers it once and leaves the other copies.\<close>

lemma drain_no_match:
  "(\<And>e. e \<in> set (ts_reorder s) \<Longrightarrow> re_seq e \<noteq> ts_rcv_nxt s) \<Longrightarrow> drain_reorder_buf s = (0, s)"
proof -
  assume "\<And>e. e \<in> set (ts_reorder s) \<Longrightarrow> re_seq e \<noteq> ts_rcv_nxt s"
  then have "find (\<lambda>i. re_seq (ts_reorder s ! i) = ts_rcv_nxt s) [0..<length (ts_reorder s)] = None"
    by (auto simp: find_None_iff)
  then show ?thesis by (subst drain_reorder_buf.simps) simp
qed

lemma swap_remove_replicate: "swap_remove 0 (replicate (Suc n) e) = replicate n e"
proof -
  have "(replicate (Suc n) e)[0 := last (replicate (Suc n) e)] = replicate (Suc n) e" by (simp add: last_replicate)
  then show ?thesis by (simp add: swap_remove_def butlast_conv_take del: replicate_Suc)
qed

lemma drain_copies:
  assumes b: "blocks_ok bs" and i: "i < length bs" "ts_rcv_nxt s = r0 + of_nat (block_off bs i)"
    and e: "ts_reorder s = replicate (Suc n) (block_entry bs r0 i)"
  shows "rx_obs (snd (drain_reorder_buf s)) =
    (r0 + of_nat (block_off bs (Suc i)), concat (ts_delivered s) @ bs ! i, replicate n (block_entry bs r0 i), ts_state s, ts_config s)"
proof -
  let ?s = "(deliver (bs ! i) s)\<lparr>ts_reorder := replicate n (block_entry bs r0 i)\<rparr>"
  have f: "find (\<lambda>k. re_seq (ts_reorder s ! k) = ts_rcv_nxt s) [0..<length (ts_reorder s)] = Some 0"
    using e i(2) by (simp add: upt_conv_Cons block_entry_def del: upt_Suc)
  have n: "ts_rcv_nxt ?s = r0 + of_nat (block_off bs (Suc i))" using i by (simp add: block_off_Suc)
  have "drain_reorder_buf ?s = (0, ?s)"
  proof (rule drain_no_match)
    fix x assume "x \<in> set (ts_reorder ?s)"
    then have "re_seq x = r0 + of_nat (block_off bs i)" by (auto simp: block_entry_def)
    then show "re_seq x \<noteq> ts_rcv_nxt ?s" using n block_off_inj [OF b, of i "Suc i" r0] i(1) by auto
  qed
  moreover have "(deliver (re_data (ts_reorder s ! 0)) s)\<lparr>ts_reorder := swap_remove 0 (ts_reorder s)\<rparr> = ?s"
    unfolding e swap_remove_replicate by (simp add: block_entry_def)
  ultimately have "drain_reorder_buf s = (1, ?s)" using f by (subst drain_reorder_buf.simps) simp
  then show ?thesis using n by (simp add: rx_obs_def)
qed

lemma rx_packet_next:
  assumes b: "blocks_ok bs" and m: "segment_at bs r0 (tc_tuple (ts_config s)) False i m" and st: "ts_state s = Established"
    and o: "Suc i < length bs" "ts_rcv_nxt s = r0 + of_nat (block_off bs i)"
    and e: "ts_reorder s = replicate (Suc n) (block_entry bs r0 (Suc i))"
    and r: "rx_packet slots now m s = (r, s')"
  shows "rx_obs s' = (r0 + of_nat (block_off bs (i + 2)), concat (ts_delivered s) @ bs ! i @ bs ! Suc i,
      replicate n (block_entry bs r0 (Suc i)), Established, ts_config s)" "\<exists>x. r = Inr x"
proof -
  let ?p = "parse_packet m" let ?s = "rx_ack now ?p (rx_touch s)" let ?d = "deliver (bs ! i) ?s"
  have i: "i \<le> length bs" using o(1) by simp
  note v = segment_at_view [OF b m st i o(2) refl refl]
  have fin: "rx_fin now ?p x = (False, x)" for x using m by (simp add: rx_fin_def segment_at_def Let_def)
  have "rx_data slots now ?p ?s = (r, s')" using v(1) r by simp
  then have s': "s' = snd (drain_reorder_buf ?d)" and "\<exists>x. r = Inr x"
    using rx_data_ready [of ?s ?p slots now] v(3,5,6,8,10) by (simp_all add: receiving_def fin rx_in_order_def case_prod_beta Let_def)
  show "\<exists>x. r = Inr x" by fact
  have n: "ts_rcv_nxt ?d = r0 + of_nat (block_off bs (Suc i))" using o by (simp add: block_off_Suc)
  show "rx_obs s' = (r0 + of_nat (block_off bs (i + 2)), concat (ts_delivered s) @ bs ! i @ bs ! Suc i,
      replicate n (block_entry bs r0 (Suc i)), Established, ts_config s)"
    unfolding s' using drain_copies [OF b o(1) n, of n] e v(3) by simp
qed

section \<open>Duplicates keep their slots\<close>

lemma rx_loop_copies:
  assumes b: "blocks_ok bs"
  shows "ts_state s = Established \<Longrightarrow> i < j \<Longrightarrow> ts_rcv_nxt s = r0 + of_nat (block_off bs i) \<Longrightarrow>
    segment_at bs r0 (tc_tuple (ts_config s)) fin j m \<Longrightarrow> length (ts_reorder s) + n \<le> slots \<Longrightarrow>
    rx_obs (snd (rx_loop slots now (replicate n m) c a free s)) =
      (ts_rcv_nxt s, concat (ts_delivered s), ts_reorder s @ replicate n (block_entry bs r0 j), Established, ts_config s)"
proof (induction n arbitrary: s c a free)
  case 0
  then show ?case by (simp add: rx_obs_def)
next
  case (Suc n)
  obtain r s1 where p: "rx_packet slots now m s = (r, s1)" by (metis surj_pair)
  have i: "i \<le> length bs" "i \<noteq> j" using Suc.prems(2,4) by (auto simp: segment_at_def Let_def)
  have k: "rx_obs s1 = (ts_rcv_nxt s, concat (ts_delivered s), ts_reorder s @ [block_entry bs r0 j], Established, ts_config s)" "r = Inr (0, False)"
    using rx_packet_late [OF b Suc.prems(4,1) i(1) Suc.prems(3) p i(2)] Suc.prems(2,5) by simp_all
  then show ?case using Suc.IH [of s1 c a "free @ [m]"] Suc.prems p by (simp add: rx_obs_def)
qed

lemma process_rx_obs: "rx_obs (snd (process_rx slots now tsc ms s)) = rx_obs (snd (rx_loop slots now ms 0 False [] s))"
proof -
  obtain a where "snd (process_rx slots now tsc ms s) = (snd (rx_loop slots now ms 0 False [] s))\<lparr>ts_ack_pending := a\<rparr>"
    using process_rx_session by blast
  then show ?thesis by (simp add: rx_obs_def)
qed

text \<open>\<open>n\<close> copies of a packet, in bursts.\<close>

definition copy_bursts :: "mbuf \<Rightarrow> (int \<times> u64 \<times> nat) list \<Rightarrow> tcp_event list" where
  "copy_bursts m ks = map (\<lambda>(now, tsc, k). Burst now tsc (replicate k m)) ks"

lemma copy_bursts_obs:
  assumes b: "blocks_ok bs"
  shows "ts_state s = Established \<Longrightarrow> i < j \<Longrightarrow> ts_rcv_nxt s = r0 + of_nat (block_off bs i) \<Longrightarrow>
    segment_at bs r0 (tc_tuple (ts_config s)) fin j m \<Longrightarrow> length (ts_reorder s) + n \<le> slots \<Longrightarrow>
    sum_list (map (\<lambda>(now, tsc, k). k) ks) = n \<Longrightarrow>
    rx_obs (tcp_run slots s (copy_bursts m ks)) =
      (ts_rcv_nxt s, concat (ts_delivered s), ts_reorder s @ replicate n (block_entry bs r0 j), Established, ts_config s)"
proof (induction ks arbitrary: s n)
  case Nil
  then show ?case by (simp add: tcp_run_def copy_bursts_def rx_obs_def)
next
  case (Cons x ks)
  obtain now tsc k where x: "x = (now, tsc, k)" by (cases x)
  let ?s = "snd (process_rx slots now tsc (replicate k m) s)"
  let ?n = "sum_list (map (\<lambda>(now, tsc, k). k) ks)"
  have n: "n = k + ?n" using Cons.prems(6) by (simp add: x)
  then have "length (ts_reorder s) + k \<le> slots" using Cons.prems(5) by simp
  from rx_loop_copies [OF b Cons.prems(1-4) this, of now 0 False "[]"]
  have o: "rx_obs ?s = (ts_rcv_nxt s, concat (ts_delivered s), ts_reorder s @ replicate k (block_entry bs r0 j), Established, ts_config s)"
    unfolding process_rx_obs .
  then show ?case using Cons.IH [of ?s ?n] Cons.prems n
    by (simp add: rx_obs_def tcp_run_def copy_bursts_def x replicate_add)
qed

text \<open>
  The slots a sequence number \<open>q\<close> occupies. Once \<open>rcv_nxt_\<close> has passed \<open>q\<close> none of them is given back before
  the 32-bit sequence numbers come round again.
\<close>

definition held :: "u32 \<Rightarrow> TcpSession \<Rightarrow> nat" where
  "held q s = length (filter (\<lambda>e. re_seq e = q) (ts_reorder s))"

abbreviation delivered_len :: "TcpSession \<Rightarrow> nat" where
  "delivered_len s \<equiv> length (concat (ts_delivered s))"

definition passed :: "u32 \<Rightarrow> nat \<Rightarrow> TcpSession \<Rightarrow> TcpSession \<Rightarrow> bool" where
  "passed q k s s' \<longleftrightarrow> delivered_len s \<le> delivered_len s' \<and>
     ts_rcv_nxt s' = q + of_nat (k + (delivered_len s' - delivered_len s)) \<and>
     (k + (delivered_len s' - delivered_len s) < 2 ^ 32 \<longrightarrow> held q s \<le> held q s')"

lemma passed_refl: "ts_rcv_nxt s = q + of_nat k \<Longrightarrow> ts_rcv_nxt s' = ts_rcv_nxt s \<Longrightarrow> ts_delivered s' = ts_delivered s \<Longrightarrow>
    held q s \<le> held q s' \<Longrightarrow> passed q k s s'"
  by (simp add: passed_def)

lemma passed_trans:
  "passed q k s s1 \<Longrightarrow> passed q (k + (delivered_len s1 - delivered_len s)) s1 s2 \<Longrightarrow> passed q k s s2"
  by (auto simp: passed_def)

lemma held_swap_remove:
  assumes "i < length xs" "re_seq (xs ! i) \<noteq> q"
  shows "length (filter (\<lambda>e. re_seq e = q) (swap_remove i xs)) = length (filter (\<lambda>e. re_seq e = q) xs)"
  using arg_cong [OF mset_swap_remove [OF assms(1)], of "\<lambda>m. size (filter_mset (\<lambda>e. re_seq e = q) m)"] assms(2)
  by (simp flip: mset_filter)

lemma drain_passed:
  "ts_rcv_nxt s = q + of_nat k \<Longrightarrow> 0 < k \<Longrightarrow> passed q k s (snd (drain_reorder_buf s))"
proof (induction s arbitrary: k rule: drain_reorder_buf.induct)
  case (1 s)
  let ?f = "find (\<lambda>i. re_seq (ts_reorder s ! i) = ts_rcv_nxt s) [0..<length (ts_reorder s)]"
  show ?case
  proof (cases ?f)
    case None
    then show ?thesis using "1.prems" by (subst drain_reorder_buf.simps) (simp add: passed_refl)
  next
    case (Some i)
    then have i: "i < length (ts_reorder s)" "re_seq (ts_reorder s ! i) = ts_rcv_nxt s" by (auto simp: find_Some_iff)
    let ?d = "re_data (ts_reorder s ! i)"
    let ?s = "(deliver ?d s)\<lparr>ts_reorder := swap_remove i (ts_reorder s)\<rparr>"
    have r: "snd (drain_reorder_buf s) = snd (drain_reorder_buf ?s)"
      using Some by (subst drain_reorder_buf.simps) (simp add: case_prod_beta)
    have "ts_rcv_nxt ?s = q + of_nat (k + length ?d)" using "1.prems"(1) by simp
    with "1.IH" [OF Some, of "k + length ?d"] "1.prems"(2) have "passed q (k + length ?d) ?s (snd (drain_reorder_buf ?s))" by simp
    moreover have "held q ?s = held q s" if "k < 2 ^ 32"
    proof -
      have "of_nat k \<noteq> (0 :: u32)" using that "1.prems"(2) by (simp add: word_of_nat_eq_0_iff nat_dvd_not_less)
      then show ?thesis using held_swap_remove [OF i(1), of q] i(2) "1.prems"(1) by (simp add: held_def)
    qed
    ultimately show ?thesis unfolding r passed_def by auto
  qed
qed

lemma rx_fin_stays: "ts_state (snd (rx_fin now p s)) = Established \<Longrightarrow> snd (rx_fin now p s) = s \<and> ts_state s = Established"
  by (cases "ts_state s") (auto simp: rx_fin_def enter_time_wait_def Let_def split: if_splits)

lemma rx_ack_stays: "ts_state (rx_ack now p s) = Established \<Longrightarrow> ts_state s = Established"
  by (cases "ts_state s") (auto simp: rx_ack_def enter_time_wait_def Let_def split: if_splits)

lemma rx_data_stays: "ts_state (snd (rx_data slots now p s)) = Established \<Longrightarrow> ts_state s = Established"
proof (cases "receiving (ts_state s) \<and> pp_seq p \<noteq> ts_rcv_nxt s \<and> pp_payload_len p > 0")
  case True
  then show "ts_state (snd (rx_data slots now p s)) = Established \<Longrightarrow> ts_state s = Established"
    by (simp add: rx_data_late rx_out_of_order_def record_gap_def Let_def split: if_splits)
next
  case False
  assume "ts_state (snd (rx_data slots now p s)) = Established"
  from rx_fin_stays [OF this [unfolded rx_data_ready(1) [OF False]]] show ?thesis by (simp split: if_splits)
qed

lemma rx_packet_stays: "ts_state (snd (rx_packet slots now m s)) = Established \<Longrightarrow> ts_state s = Established"
  using rx_data_stays [of slots now "parse_packet m" "rx_ack now (parse_packet m) (rx_touch s)"]
    rx_ack_stays [of now "parse_packet m" "rx_touch s"]
  by (simp add: rx_packet_def rx_rst_def Let_def split: if_splits)

lemma rx_loop_stays: "ts_state (snd (rx_loop slots now ms c a free s)) = Established \<Longrightarrow> ts_state s = Established"
proof (induction ms arbitrary: s c a free)
  case (Cons m ms)
  obtain r s1 where p: "rx_packet slots now m s = (r, s1)" by (metis surj_pair)
  have "ts_state s1 = Established" using Cons.prems Cons.IH p by (cases r) auto
  then show ?case using rx_packet_stays [of slots now m s] p by simp
qed simp

lemma rx_data_passed:
  assumes k: "ts_rcv_nxt s = q + of_nat k" "0 < k" and e: "ts_state (snd (rx_data slots now p s)) = Established"
  shows "passed q k s (snd (rx_data slots now p s))"
proof (cases "receiving (ts_state s) \<and> pp_seq p \<noteq> ts_rcv_nxt s \<and> pp_payload_len p > 0")
  case True
  then have r: "snd (rx_data slots now p s) = snd (rx_out_of_order slots p s)" by (simp add: rx_data_late)
  show ?thesis using k unfolding r
    by (intro passed_refl) (simp_all add: rx_out_of_order_def record_gap_def held_def Let_def)
next
  case False
  note r = rx_data_ready(1) [OF False, of slots now]
  from rx_fin_stays [OF e [unfolded r]] have f: "snd (rx_data slots now p s) = (if receiving (ts_state s) then snd (rx_in_order p s) else s)"
    unfolding r by simp
  let ?d = "deliver (pp_bytes p) s"
  have "passed q (k + length (pp_bytes p)) ?d (snd (drain_reorder_buf ?d))" using k by (intro drain_passed) simp_all
  then have "passed q k s (snd (drain_reorder_buf ?d))" by (auto simp: passed_def held_def)
  then have "passed q k s (snd (rx_in_order p s))" using k by (simp add: rx_in_order_def case_prod_beta passed_refl)
  then show ?thesis using k unfolding f by (simp add: passed_refl)
qed

lemma rx_packet_passed:
  assumes k: "ts_rcv_nxt s = q + of_nat k" "0 < k" and e: "ts_state (snd (rx_packet slots now m s)) = Established"
  shows "passed q k s (snd (rx_packet slots now m s))"
proof -
  let ?p = "parse_packet m" let ?s = "rx_ack now ?p (rx_touch s)"
  have d: "passed q k s (snd (rx_data slots now ?p ?s))" if "ts_state (snd (rx_data slots now ?p ?s)) = Established"
    using rx_data_passed [of ?s q k slots now ?p] that k by (simp add: passed_def held_def)
  consider "pp_tcp ?p = None \<or> \<not> pp_matches (tc_tuple (ts_config s)) ?p"
    | "pp_tcp ?p \<noteq> None" "pp_matches (tc_tuple (ts_config s)) ?p" "has_flag kTcpRst ?p"
    | "pp_tcp ?p \<noteq> None" "pp_matches (tc_tuple (ts_config s)) ?p" "\<not> has_flag kTcpRst ?p" by blast
  then show ?thesis
  proof cases
    case 1
    then show ?thesis using k by (intro passed_refl) (simp_all add: rx_packet_def Let_def held_def)
  next
    case 2
    then show ?thesis using k by (intro passed_refl) (simp_all add: rx_packet_def rx_rst_def Let_def held_def)
  next
    case 3
    then have "snd (rx_packet slots now m s) = snd (rx_data slots now ?p ?s)" by (auto simp: rx_packet_def Let_def)
    then show ?thesis using d e by simp
  qed
qed

lemma rx_loop_passed:
  assumes "ts_rcv_nxt s = q + of_nat k" "0 < k" "ts_state (snd (rx_loop slots now ms c a free s)) = Established"
  shows "passed q k s (snd (rx_loop slots now ms c a free s))"
  using assms
proof (induction ms arbitrary: s k c a free)
  case Nil
  then show ?case by (simp add: passed_refl held_def)
next
  case (Cons m ms)
  obtain r s1 where p: "rx_packet slots now m s = (r, s1)" by (metis surj_pair)
  note h = rx_packet_passed [OF Cons.prems(1,2), of slots now m, unfolded p snd_conv]
  show ?case
  proof (cases r)
    case (Inl e)
    then show ?thesis using h Cons.prems(3) p by (simp add: passed_def held_def)
  next
    case (Inr x)
    obtain n b where x: "x = (n, b)" by (cases x)
    let ?l = "snd (rx_loop slots now ms (c + n) (a \<or> b) (free @ [m]) s1)"
    have l: "snd (rx_loop slots now (m # ms) c a free s) = ?l" using p Inr x by simp
    have st: "ts_state ?l = Established" using Cons.prems(3) unfolding l .
    have h: "passed q k s s1" using h rx_loop_stays [OF st] by simp
    have "ts_rcv_nxt s1 = q + of_nat (k + (delivered_len s1 - delivered_len s))" "0 < k + (delivered_len s1 - delivered_len s)"
      using h Cons.prems(2) by (simp_all add: passed_def)
    from Cons.IH [OF this st] show ?thesis unfolding l by (rule passed_trans [OF h])
  qed
qed

lemma tcp_step_passed:
  assumes k: "ts_rcv_nxt s = q + of_nat k" "0 < k" and e: "ts_state (tcp_step slots s ev) = Established"
  shows "passed q k s (tcp_step slots s ev)" "ts_state s = Established"
proof -
  have p: "passed q k s t" if "rx_side t = rx_side s" for t
    using that k by (intro passed_refl) (simp_all add: rx_side_def held_def)
  have "passed q k s (tcp_step slots s ev) \<and> ts_state s = Established"
  proof (cases ev)
    case (Burst now tsc ms)
    let ?l = "snd (rx_loop slots now ms 0 False [] s)"
    have o: "rx_obs (tcp_step slots s ev) = rx_obs ?l" using process_rx_obs [of slots now tsc ms s] Burst by simp
    then have "ts_state ?l = Established" using e by (simp add: rx_obs_def)
    from rx_loop_passed [OF k this] rx_loop_stays [OF this] o show ?thesis by (simp add: passed_def held_def rx_obs_def)
  next
    case (Keepalive iv now)
    have "ts_state (snd (send_keepalive_probe s)) = ts_state s"
      by (auto simp: send_keepalive_probe_def split: prod.splits tx_result.splits dest: tx_segment_rx_side)
    then have "ts_state s = Established"
      using e Keepalive by (auto simp: tick_keepalive_def Let_def case_prod_beta split: if_splits sum.splits)
    then show ?thesis using p Keepalive by simp
  next
    case App_close
    have "ts_state s = Established"
      using e App_close by (auto simp: tcp_close_def split: if_splits prod.splits tx_result.splits dest: tx_segment_rx_side)
    then show ?thesis using p App_close by simp
  qed (use p e in simp_all)
  then show "passed q k s (tcp_step slots s ev)" "ts_state s = Established" by simp_all
qed

lemma tcp_run_stays: "ts_state (tcp_run slots s evs) = Established \<Longrightarrow> ts_state s = Established"
proof (induction evs arbitrary: s)
  case (Cons e evs)
  then have "ts_state (tcp_step slots s e) = Established" by (simp add: tcp_run_def)
  then show ?case using tcp_step_passed(2) [of s "ts_rcv_nxt s - 1" 1] by simp
qed (simp add: tcp_run_def)

lemma tcp_run_passed:
  assumes "ts_rcv_nxt s = q + of_nat k" "0 < k" "ts_state (tcp_run slots s evs) = Established"
  shows "passed q k s (tcp_run slots s evs)"
  using assms
proof (induction evs arbitrary: s k)
  case (Cons e evs)
  let ?s = "tcp_step slots s e"
  have st: "ts_state (tcp_run slots ?s evs) = Established" using Cons.prems(3) by (simp add: tcp_run_def)
  have h: "passed q k s ?s" by (rule tcp_step_passed(1) [OF Cons.prems(1,2) tcp_run_stays [OF st]])
  have "ts_rcv_nxt ?s = q + of_nat (k + (delivered_len ?s - delivered_len s))" "0 < k + (delivered_len ?s - delivered_len s)"
    using h Cons.prems(2) by (simp_all add: passed_def)
  from passed_trans [OF h Cons.IH [OF this st]] show ?case by (simp add: tcp_run_def)
qed (simp add: tcp_run_def passed_refl)

text \<open>A data segment of this connection that arrives before its turn.\<close>

definition early :: "mbuf \<Rightarrow> TcpSession \<Rightarrow> bool" where
  "early m s \<longleftrightarrow> (let p = parse_packet m in pp_tcp p \<noteq> None \<and> pp_matches (tc_tuple (ts_config s)) p \<and> \<not> has_flag kTcpRst p \<and>
     0 < pp_payload_len p \<and> pp_payload_len p \<le> kDefaultMss \<and> seq_after (pp_seq p) (ts_rcv_nxt s))"

lemma rx_packet_early:
  assumes "early m s" "ts_state s = Established"
  shows "slots \<le> length (ts_reorder s) \<Longrightarrow> fst (rx_packet slots now m s) = Inl rx_stuck"
    "length (ts_reorder s) < slots \<Longrightarrow> \<exists>s'. rx_packet slots now m s = (Inr (0, False), s') \<and> ts_state s' = Established \<and>
       ts_config s' = ts_config s \<and> ts_rcv_nxt s' = ts_rcv_nxt s \<and> length (ts_reorder s') = Suc (length (ts_reorder s))"
proof -
  let ?p = "parse_packet m" let ?s = "rx_ack now ?p (rx_touch s)"
  have f: "pp_tcp ?p \<noteq> None" "pp_matches (tc_tuple (ts_config s)) ?p" "\<not> has_flag kTcpRst ?p" "0 < pp_payload_len ?p"
    "\<not> pp_payload_len ?p > kDefaultMss" "seq_after (pp_seq ?p) (ts_rcv_nxt s)" using assms(1) by (auto simp: early_def Let_def)
  have n: "pp_seq ?p \<noteq> ts_rcv_nxt s" using f(6) by (auto simp: seq_after_def)
  have pl: "pp_payload ?p \<noteq> None" using parse_packet_payload(2) [of ?p m] f(4) by simp
  have st: "ts_state ?s = Established" using assms(2) by (simp add: rx_ack_def Let_def)
  have r: "rx_packet slots now m s = (case rx_out_of_order slots ?p ?s of (Some e, s) \<Rightarrow> (Inl e, s) | (None, s) \<Rightarrow> (Inr (0, False), s))"
    using f(1-4) n st by (auto simp: rx_packet_def rx_data_def receiving_def Let_def)
  show "slots \<le> length (ts_reorder s) \<Longrightarrow> fst (rx_packet slots now m s) = Inl rx_stuck"
    unfolding r using f pl by (simp add: rx_out_of_order_def record_gap_def Let_def rx_stuck_def)
  show "length (ts_reorder s) < slots \<Longrightarrow> \<exists>s'. rx_packet slots now m s = (Inr (0, False), s') \<and> ts_state s' = Established \<and>
       ts_config s' = ts_config s \<and> ts_rcv_nxt s' = ts_rcv_nxt s \<and> length (ts_reorder s') = Suc (length (ts_reorder s))"
    unfolding r using f pl st by (simp add: rx_out_of_order_def record_gap_def Let_def)
qed

lemma two_early_stuck:
  assumes "early ma s" "early mb s" "ts_state s = Established" "slots \<le> Suc (length (ts_reorder s))"
  shows "fst (process_rx slots now tsc [ma, mb] s) = Inl rx_stuck"
proof (cases "slots \<le> length (ts_reorder s)")
  case True
  obtain r s1 where p: "rx_packet slots now ma s = (r, s1)" by (metis surj_pair)
  then show ?thesis using rx_packet_early(1) [OF assms(1,3) True, of now] by (simp add: process_rx_def)
next
  case False
  then obtain s1 where p: "rx_packet slots now ma s = (Inr (0, False), s1)" "ts_state s1 = Established" "ts_config s1 = ts_config s"
      "ts_rcv_nxt s1 = ts_rcv_nxt s" "length (ts_reorder s1) = Suc (length (ts_reorder s))"
    using rx_packet_early(2) [OF assms(1,3), of slots now] by auto
  then have "early mb s1" "slots \<le> length (ts_reorder s1)" using assms(2,4) by (simp_all add: early_def Let_def)
  obtain r s2 where q: "rx_packet slots now mb s1 = (r, s2)" by (metis surj_pair)
  then have "r = Inl rx_stuck" using rx_packet_early(1) [OF \<open>early mb s1\<close> p(2) \<open>slots \<le> length (ts_reorder s1)\<close>, of now] by simp
  then show ?thesis using p(1) q by (simp add: process_rx_def)
qed

lemma copies_obs:
  assumes "blocks_ok bs" "ts_state s = Established" "ts_rcv_nxt s = r0" "ts_reorder s = []" "ts_delivered s = []"
    and "segment_at bs r0 (tc_tuple (ts_config s)) False 0 m0" "segment_at bs r0 (tc_tuple (ts_config s)) False 1 m1"
    and "sum_list (map (\<lambda>(now, tsc, k). k) ks) = slots" "slots = Suc k"
  shows "rx_obs (tcp_run slots s (copy_bursts m1 ks @ [Burst now tsc [m0]])) =
    (r0 + of_nat (block_off bs 2), bs ! 0 @ bs ! 1, replicate k (block_entry bs r0 1), Established, ts_config s)"
proof -
  have len: "1 < length bs" using assms(7) by (auto simp: segment_at_def Let_def)
  have z: "ts_rcv_nxt s = r0 + of_nat (block_off bs 0)" using assms(3) by (simp add: block_off_def)
  let ?s = "tcp_run slots s (copy_bursts m1 ks)"
  have o: "rx_obs ?s = (r0, [], replicate slots (block_entry bs r0 1), Established, ts_config s)"
    using copy_bursts_obs [OF assms(1,2) _ z assms(7) _ assms(8), of slots] assms(3-5) by simp
  obtain r t where p: "rx_packet slots now m0 ?s = (r, t)" by (metis surj_pair)
  have o2: "rx_obs t = (r0 + of_nat (block_off bs 2), bs ! 0 @ bs ! 1, replicate k (block_entry bs r0 1), Established, ts_config s)" "\<exists>x. r = Inr x"
    using rx_packet_next [OF assms(1), of r0 ?s 0 m0 k slots now r t] p o assms(6,9) len
    by (simp_all add: rx_obs_def block_off_def numeral_2_eq_2 del: concat_eq_Nil_conv)
  then obtain x y where "r = Inr (x, y)" by auto
  then show ?thesis
    using process_rx_obs [of slots now tsc "[m0]" ?s] p o2(1) by (simp add: tcp_run_def rx_obs_def)
qed

lemma segment_early:
  assumes "blocks_ok bs" "segment_at bs r0 (tc_tuple (ts_config s)) fin j m" "ts_state s = Established"
    and "i < j" "ts_rcv_nxt s = r0 + of_nat (block_off bs i)"
  shows "early m s"
proof -
  have i: "i \<le> length bs" using assms(2,4) by (auto simp: segment_at_def Let_def)
  note v = segment_at_view [OF assms(1-3) i assms(5) refl refl]
  have "seq_after (pp_seq (parse_packet m)) (ts_rcv_nxt s)" using v(11) [of 0] assms(4) by simp
  then show ?thesis using v(5,7) assms(2) by (auto simp: early_def segment_at_def Let_def)
qed

text \<open>
  C25. Copies of a segment that arrive before the gap in front of it is filled each take a slot of the
  reorder buffer, and only one copy is ever taken out. Let \<open>ReorderSlots\<close> copies of one segment arrive, in
  bursts of any sizes, and then the missing segment. Both segments are delivered once, but whatever happens
  afterwards, while the connection stays established and has delivered less than 4 GiB, all slots but one
  stay occupied by the useless copies; so at any later time two segments that merely arrive early end the
  session with a packet-loss error, although nothing was lost.
\<close>

theorem duplicates_exhaust_reorder_buffer:
  assumes "blocks_ok bs" "ts_state s = Established" "ts_rcv_nxt s = r0" "ts_reorder s = []" "ts_delivered s = []"
    and "segment_at bs r0 (tc_tuple (ts_config s)) False 0 m0" "segment_at bs r0 (tc_tuple (ts_config s)) False 1 m1"
    and "sum_list (map (\<lambda>(now, tsc, k). k) ks) = slots" "0 < slots" "\<forall>(now, tsc, k) \<in> set ks. k \<le> kMaxBurst"
    and "s1 = tcp_run slots s (copy_bursts m1 ks @ [Burst now tsc [m0]])"
    and "s2 = tcp_run slots s1 evs" "ts_state s2 = Established" "length (concat (ts_delivered s2)) < 2 ^ 32"
  shows "concat (ts_delivered s1) = bs ! 0 @ bs ! 1 \<and> ts_rcv_nxt s1 = r0 + of_nat (block_off bs 2) \<and>
    slots - 1 \<le> length (filter (\<lambda>e. re_seq e = r0 + of_nat (block_off bs 1)) (ts_reorder s2)) \<and>
    (\<forall>ma mb now tsc. early ma s2 \<and> early mb s2 \<longrightarrow> fst (process_rx slots now tsc [ma, mb] s2) = Inl rx_stuck)"
proof -
  have len: "1 < length bs" using assms(7) by (auto simp: segment_at_def Let_def)
  let ?q = "r0 + of_nat (block_off bs 1)"
  obtain k where k: "slots = Suc k" using assms(9) by (cases slots) auto
  have "rx_obs s1 = (r0 + of_nat (block_off bs 2), bs ! 0 @ bs ! 1, replicate k (block_entry bs r0 1), Established, ts_config s)"
    using copies_obs [OF assms(1-7,8) k, of now tsc] assms(11) by simp
  then have s1: "ts_rcv_nxt s1 = r0 + of_nat (block_off bs 2)" "concat (ts_delivered s1) = bs ! 0 @ bs ! 1"
    "ts_reorder s1 = replicate k (block_entry bs r0 1)" by (simp_all add: rx_obs_def)
  have off: "block_off bs 2 = block_off bs 1 + length (bs ! 1)" "block_off bs 1 = length (bs ! 0)"
    using block_off_Suc [of 1 bs] block_off_Suc [of 0 bs, OF order.strict_trans [OF zero_less_one len]] len
    by (simp_all add: numeral_2_eq_2 block_off_def)
  have "bs ! 1 \<noteq> []" using assms(1) len by (auto simp: blocks_ok_def)
  then have n: "ts_rcv_nxt s1 = ?q + of_nat (length (bs ! 1))" "0 < length (bs ! 1)" using s1(1) off by simp_all
  have h1: "held ?q s1 = k" unfolding held_def s1(3) by (simp add: block_entry_def)
  have "passed ?q (length (bs ! 1)) s1 s2" using tcp_run_passed [OF n, of slots evs] assms(12,13) by simp
  then have h2: "k \<le> held ?q s2" using h1 assms(14) s1(2) by (simp add: passed_def)
  then have "slots \<le> Suc (length (ts_reorder s2))" using k by (simp add: held_def) (meson le_trans length_filter_le)
  then show ?thesis using two_early_stuck assms(13) s1(1,2) h2 k by (auto simp: held_def)
qed

section \<open>A FIN on a buffered segment is forgotten\<close>

lemma rx_loop_past:
  assumes b: "blocks_ok bs"
  shows "ts_state s = Established \<Longrightarrow> j < i \<Longrightarrow> i \<le> length bs \<Longrightarrow> ts_rcv_nxt s = r0 + of_nat (block_off bs i) \<Longrightarrow>
    segment_at bs r0 (tc_tuple (ts_config s)) fin j m \<Longrightarrow>
    \<exists>x s'. rx_loop slots now (replicate n m) c a free s = (Inr x, s') \<and> rx_obs s' = rx_obs s"
proof (induction n arbitrary: s c a free)
  case 0
  then show ?case by (simp add: rx_obs_def)
next
  case (Suc n)
  obtain r s1 where p: "rx_packet slots now m s = (r, s1)" by (metis surj_pair)
  have "rx_obs s1 = rx_obs s" "r = Inr (0, False)"
    using rx_packet_late [OF b Suc.prems(5,1,3,4) p] Suc.prems(1,2) by (simp_all add: rx_obs_def)
  then show ?case using Suc.IH [of s1 c a "free @ [m]"] Suc.prems p by (simp add: rx_obs_def)
qed

text \<open>
  C26. A last segment with data and FIN that overtakes its predecessor loses the FIN: the data is delivered
  and acknowledged, but the session stays established, and however often the segment is sent again it is
  dropped as a duplicate.
\<close>

theorem reordered_fin_is_lost:
  assumes "blocks_ok bs" "length bs = 2" "0 < slots" "ts_state s = Established" "ts_rcv_nxt s = r0" "ts_reorder s = []" "ts_delivered s = []"
    and "segment_at bs r0 (tc_tuple (ts_config s)) False 0 m0" "segment_at bs r0 (tc_tuple (ts_config s)) True 1 m1"
    and "process_rx slots now tsc (m1 # m0 # replicate n m1) s = (r, s')"
  shows "\<exists>c. r = Inr c \<and> concat (ts_delivered s') = concat bs \<and> ts_rcv_nxt s' = r0 + of_nat (length (concat bs)) \<and> ts_state s' = Established"
proof -
  have z: "ts_rcv_nxt s = r0 + of_nat (block_off bs 0)" using assms(5) by (simp add: block_off_def)
  obtain r1 s1 where p1: "rx_packet slots now m1 s = (r1, s1)" by (metis surj_pair)
  have o1: "rx_obs s1 = (r0, [], [block_entry bs r0 1], Established, ts_config s)" "r1 = Inr (0, False)"
    using rx_packet_late [OF assms(1,9,4) _ z p1] assms(3,5-7) by simp_all
  obtain r2 s2 where p2: "rx_packet slots now m0 s1 = (r2, s2)" by (metis surj_pair)
  have o2: "rx_obs s2 = (r0 + of_nat (block_off bs 2), bs ! 0 @ bs ! 1, [], Established, ts_config s)" "\<exists>x. r2 = Inr x"
    using rx_packet_next [OF assms(1), of r0 s1 0 m0 0 slots now r2 s2] p2 o1 assms(2,8) by (simp_all add: rx_obs_def block_off_def numeral_2_eq_2 del: concat_eq_Nil_conv)
  obtain c a where r2: "r2 = Inr (c, a)" using o2(2) by auto
  have "\<exists>x s'. rx_loop slots now (replicate n m1) (0 + c) (False \<or> a) ([m1] @ [m0]) s2 = (Inr x, s') \<and> rx_obs s' = rx_obs s2"
    using rx_loop_past [OF assms(1), of s2 1 2 r0 True m1] o2(1) assms(2,9) by (simp add: rx_obs_def)
  then obtain x s3 where l: "rx_loop slots now (replicate n m1) c a [m1, m0] s2 = (Inr x, s3)" "rx_obs s3 = rx_obs s2" by auto
  obtain b0 b1 where bs: "bs = [b0, b1]" using assms(2) by (auto simp: numeral_2_eq_2 length_Suc_conv)
  show ?thesis using assms(10) l o2(1) by (cases x) (auto simp: process_rx_def p1 o1(2) p2 r2 rx_obs_def bs block_off_def)
qed

section \<open>Instances\<close>

lemma demo_segment_at:
  assumes "i < length bs" "length (bs ! i) \<le> 1000" "q = of_nat (block_off bs i)" "d = bs ! i" "fl AND kTcpRst = 0"
  shows "segment_at bs 0 (tc_tuple (ts_config demo_session)) (fl AND kTcpFin \<noteq> 0) i (demo_segment q fl d)"
proof -
  have "is_segment (pt_tuple demo_template) q fl d (demo_segment q fl d)" using assms by (simp add: demo_segment)
  from is_segment_parse [OF this on_wire_refl [OF this] refl] show ?thesis
    using assms by (simp add: segment_at_def demo_session_fresh Let_def)
qed

theorem duplicates_exhaust_reorder_buffer_witness:
  "\<exists>s2. s2 = tcp_run 64 demo_session (copy_bursts (demo_segment 1 0x18 [2]) [(0, 5, 32), (1, 6, 32)] @ [Burst 2 7 [demo_segment 0 0x18 [1]]]) \<and>
    concat (ts_delivered s2) = [1, 2] \<and>
    fst (process_rx 64 3 8 [demo_segment 4 0x18 [5], demo_segment 3 0x18 [4]] s2) = Inl rx_stuck"
proof -
  let ?bs = "[[1], [2], [3], [4], [5]] :: bytes list"
  let ?ks = "[(0, 5, 32), (1, 6, 32)] :: (int \<times> u64 \<times> nat) list"
  let ?s = "tcp_run 64 demo_session (copy_bursts (demo_segment 1 0x18 [2]) ?ks @ [Burst 2 7 [demo_segment 0 0x18 [1]]])"
  have b: "blocks_ok ?bs" by (simp add: blocks_ok_def kDefaultMss_def)
  have m: "segment_at ?bs 0 (tc_tuple (ts_config demo_session)) False 0 (demo_segment 0 0x18 [1])"
    "segment_at ?bs 0 (tc_tuple (ts_config demo_session)) False 1 (demo_segment 1 0x18 [2])"
    "segment_at ?bs 0 (tc_tuple (ts_config demo_session)) False 3 (demo_segment 3 0x18 [4])"
    "segment_at ?bs 0 (tc_tuple (ts_config demo_session)) False 4 (demo_segment 4 0x18 [5])"
    using demo_segment_at [of 0 ?bs 0 "[1]" "0x18"] demo_segment_at [of 1 ?bs 1 "[2]" "0x18"]
      demo_segment_at [of 3 ?bs 3 "[4]" "0x18"] demo_segment_at [of 4 ?bs 4 "[5]" "0x18"]
    by (simp_all add: block_off_def kTcpRst_def kTcpFin_def)
  have k: "sum_list (map (\<lambda>(now, tsc, k). k) ?ks) = 64" "0 < (64 :: nat)" "\<forall>(now, tsc, k) \<in> set ?ks. k \<le> kMaxBurst"
    by (simp_all add: kMaxBurst_def)
  have z: "64 = Suc (63 :: nat)" by simp
  have o: "rx_obs ?s = (0 + of_nat (block_off ?bs 2), [1, 2], replicate 63 (block_entry ?bs 0 1), Established, ts_config demo_session)"
    using copies_obs [OF b demo_session_fresh(4,1-3) m(1,2) k(1) z, of 2 7] by simp
  then have f: "ts_state ?s = Established" "ts_config ?s = ts_config demo_session" "ts_rcv_nxt ?s = 0 + of_nat (block_off ?bs 2)"
    by (simp_all only: rx_obs_def prod.inject)
  have e: "early (demo_segment 4 0x18 [5]) ?s" "early (demo_segment 3 0x18 [4]) ?s"
    using segment_early [OF b _ f(1), of 0 False 4 "demo_segment 4 0x18 [5]" 2]
      segment_early [OF b _ f(1), of 0 False 3 "demo_segment 3 0x18 [4]" 2] m(3,4) f(2,3) by simp_all
  from o have "ts_state (tcp_run 64 ?s []) = Established" "length (concat (ts_delivered (tcp_run 64 ?s []))) < 2 ^ 32"
    by (simp_all add: rx_obs_def tcp_run_def)
  from duplicates_exhaust_reorder_buffer [OF b demo_session_fresh(4,1-3) m(1,2) k refl refl this] e show ?thesis
    by (simp add: tcp_run_def)
qed

theorem reordered_fin_is_lost_witness:
  "ts_state (snd (process_rx 64 0 5 (demo_segment 1 0x19 [2] # demo_segment 0 0x18 [1] # replicate 7 (demo_segment 1 0x19 [2])) demo_session)) = Established"
proof -
  let ?bs = "[[1], [2]] :: bytes list"
  have b: "blocks_ok ?bs" "length ?bs = 2" "0 < (64 :: nat)" by (simp_all add: blocks_ok_def kDefaultMss_def)
  have m: "segment_at ?bs 0 (tc_tuple (ts_config demo_session)) False 0 (demo_segment 0 0x18 [1])"
    "segment_at ?bs 0 (tc_tuple (ts_config demo_session)) True 1 (demo_segment 1 0x19 [2])"
    using demo_segment_at [of 0 ?bs 0 "[1]" "0x18"] demo_segment_at [of 1 ?bs 1 "[2]" "0x19"]
    by (simp_all add: block_off_def kTcpRst_def kTcpFin_def)
  from reordered_fin_is_lost [OF b demo_session_fresh(4,1-3) m prod.collapse [symmetric]] show ?thesis by blast
qed

end
