(* ===== verification/Tcp_Transmit.thy ===== *)
theory Tcp_Transmit
  imports Tcp_Receive
begin

text \<open>
  The sending side of \<^verbatim>\<open>tcp.hpp\<close> and both sides together: every packet a session puts on the wire is honest
  about the bytes its \<open>send\<close> and \<open>send_batch\<close> calls accepted, so a peer session that runs the same code
  delivers a prefix of exactly those bytes.
\<close>

section \<open>What was accepted\<close>

fun tcp_accepted :: "tcp_event \<Rightarrow> TcpSession \<Rightarrow> bytes" where
  "tcp_accepted (App_send d) s = (case fst (tcp_send d s) of Inr _ \<Rightarrow> d | Inl _ \<Rightarrow> [])"
| "tcp_accepted (App_send_batch segs) s = concat (take (fst (fst (send_batch segs s))) segs)"
| "tcp_accepted _ s = []"

fun tcp_accepted_run :: "nat \<Rightarrow> TcpSession \<Rightarrow> tcp_event list \<Rightarrow> bytes" where
  "tcp_accepted_run slots s [] = []"
| "tcp_accepted_run slots s (e # evs) = tcp_accepted e s @ tcp_accepted_run slots (tcp_step slots s e) evs"

text \<open>
  \<open>S\<close> has been accepted since sequence number \<open>q0\<close>, and the FIN has been sent or not; after it the session
  is in no state in which it sends data.
\<close>

definition data_open :: "TcpState \<Rightarrow> bool" where
  "data_open st \<longleftrightarrow> st \<in> {Established, CloseWait}"

definition sent_ok :: "ConnectionTuple \<Rightarrow> bytes \<Rightarrow> u32 \<Rightarrow> bool \<Rightarrow> mbuf \<Rightarrow> bool" where
  "sent_ok t S q0 fin m \<longleftrightarrow> (\<exists>q fl d. is_segment t q fl d m \<and> (d \<noteq> [] \<longrightarrow> in_stream S q0 q d) \<and>
     (fl AND kTcpFin \<noteq> 0 \<longrightarrow> fin \<and> q + of_nat (length d) = q0 + of_nat (length S)))"

definition tx_inv :: "ConnectionTuple \<Rightarrow> bytes \<Rightarrow> u32 \<Rightarrow> bool \<Rightarrow> TcpSession \<Rightarrow> bool" where
  "tx_inv t S q0 fin s \<longleftrightarrow> pt_tuple (ts_template s) = t \<and> length (pt_src_mac (ts_template s)) = 6 \<and> length (pt_dst_mac (ts_template s)) = 6 \<and>
     ts_snd_nxt s = q0 + of_nat (length S + (if fin then 1 else 0)) \<and> (fin \<longrightarrow> \<not> data_open (ts_state s)) \<and>
     (\<forall>m \<in> set (nic_wire (ts_nic s)). sent_ok t S q0 fin m)"

lemma in_stream_append: "in_stream S q0 q d \<Longrightarrow> in_stream (S @ R) q0 q d"
  by (force simp: in_stream_def slice_def)

lemma in_stream_middle: "q = q0 + of_nat (length S) \<Longrightarrow> in_stream (S @ d @ R) q0 q d"
  by (auto simp: in_stream_def slice_def intro!: exI [of _ "length S"])

lemma sent_ok_append: "sent_ok t S q0 False m \<Longrightarrow> sent_ok t (S @ R) q0 False m"
  unfolding sent_ok_def using in_stream_append by blast

lemma sent_ok_data: "is_segment t q (kTcpAck OR kTcpPsh) d m \<Longrightarrow> in_stream S q0 q d \<Longrightarrow> sent_ok t S q0 fin m"
  unfolding sent_ok_def by (intro exI [of _ q] exI [of _ "kTcpAck OR kTcpPsh"] exI [of _ d]) (simp add: kTcpAck_def kTcpPsh_def kTcpFin_def)

section \<open>Segments\<close>

definition tx_ready :: "TcpSession \<Rightarrow> bool" where
  "tx_ready s \<longleftrightarrow> length (pt_src_mac (ts_template s)) = 6 \<and> length (pt_dst_mac (ts_template s)) = 6"

lemma session_build_tx:
  assumes "session_build q a fl w d s = (mb, s')" "tx_ready s"
  shows "tx_ready s'" "pt_tuple (ts_template s') = pt_tuple (ts_template s)" "nic_wire (ts_nic s') = nic_wire (ts_nic s)"
    "\<And>m. mb = Some m \<Longrightarrow> is_segment (pt_tuple (ts_template s)) q fl d m"
proof -
  obtain t where b: "build_packet (nic_phdr (ts_nic s)) (nic_alloc (ts_nic s) (nic_allocs (ts_nic s))) q a fl w d (ts_template s) = (mb, t)"
    and s': "s' = s\<lparr>ts_template := t, ts_nic := (ts_nic s)\<lparr>nic_allocs := nic_allocs (ts_nic s) + 1\<rparr>\<rparr>"
    using assms(1) by (auto simp: session_build_def Let_def split: prod.splits)
  show "nic_wire (ts_nic s') = nic_wire (ts_nic s)" by (simp add: s')
  have r: "length (pt_src_mac (ts_template s)) = 6" "length (pt_dst_mac (ts_template s)) = 6" using assms(2) by (simp_all add: tx_ready_def)
  show "is_segment (pt_tuple (ts_template s)) q fl d m" if "mb = Some m" for m using built_segment(1) [OF _ r] b that by blast
  have "length (pt_src_mac t) = 6 \<and> length (pt_dst_mac t) = 6 \<and> pt_tuple t = pt_tuple (ts_template s)"
  proof (cases mb)
    case None
    then have "t = ts_template s" using b by (auto simp: build_packet_def Let_def split: option.splits if_splits)
    then show ?thesis using r by simp
  next
    case (Some m)
    show ?thesis using built_segment(2-4) [OF b [unfolded Some] r] r by simp
  qed
  then show "tx_ready s'" "pt_tuple (ts_template s') = pt_tuple (ts_template s)" by (simp_all add: s' tx_ready_def)
qed

lemma tx_segment_tx:
  assumes "tx_segment q a fl w d s = (r, s')" "tx_ready s"
  shows "tx_ready s'" "pt_tuple (ts_template s') = pt_tuple (ts_template s)" "ts_snd_nxt s' = ts_snd_nxt s" "ts_state s' = ts_state s"
    "\<exists>ms. nic_wire (ts_nic s') = nic_wire (ts_nic s) @ ms \<and> (r \<noteq> Sent \<longrightarrow> ms = []) \<and> (\<forall>m \<in> set ms. is_segment (pt_tuple (ts_template s)) q fl d m)"
proof -
  obtain mb s1 where b: "session_build q a fl w d s = (mb, s1)" by (metis surj_pair)
  note k = session_build_tx [OF b assms(2)]
  show "ts_snd_nxt s' = ts_snd_nxt s" "ts_state s' = ts_state s" using tx_segment_rx_side [OF assms(1)] by simp_all
  show "tx_ready s'" "pt_tuple (ts_template s') = pt_tuple (ts_template s)"
    using assms(1) k(1,2) by (auto simp: tx_segment_def b tx_burst_def tx_ready_def Let_def split: option.splits if_splits)
  show "\<exists>ms. nic_wire (ts_nic s') = nic_wire (ts_nic s) @ ms \<and> (r \<noteq> Sent \<longrightarrow> ms = []) \<and> (\<forall>m \<in> set ms. is_segment (pt_tuple (ts_template s)) q fl d m)"
    using assms(1) k(3,4) by (cases mb) (auto simp: tx_segment_def b tx_burst_def Let_def split: if_splits)
qed

text \<open>A segment that carries no data and no FIN says nothing about the stream.\<close>

lemma tx_inv_ready: "tx_inv t S q0 fin s \<Longrightarrow> tx_ready s \<and> pt_tuple (ts_template s) = t"
  by (simp add: tx_inv_def tx_ready_def)

lemma tx_inv_wire:
  assumes i: "tx_inv t S q0 fin s" and k: "tx_ready s'" "pt_tuple (ts_template s') = pt_tuple (ts_template s)"
    and n: "ts_snd_nxt s' = ts_snd_nxt s" "ts_state s' = ts_state s"
    and w: "nic_wire (ts_nic s') = nic_wire (ts_nic s) @ ms" "\<And>m. m \<in> set ms \<Longrightarrow> sent_ok t S q0 fin m"
  shows "tx_inv t S q0 fin s'"
proof -
  have "\<forall>m \<in> set (nic_wire (ts_nic s')). sent_ok t S q0 fin m" using i w(2) unfolding w(1) tx_inv_def by auto
  then show ?thesis using i k n by (simp add: tx_inv_def tx_ready_def)
qed

lemma tx_inv_cong:
  assumes "tx_inv t S q0 fin s" "ts_template s' = ts_template s" "ts_nic s' = ts_nic s" "ts_snd_nxt s' = ts_snd_nxt s"
    "data_open (ts_state s') \<Longrightarrow> data_open (ts_state s)"
  shows "tx_inv t S q0 fin s'"
  using assms by (auto simp: tx_inv_def)

lemma tx_bare_segment:
  assumes "tx_segment q a fl w [] s = (r, s')" "tx_inv t S q0 fin s" "fl AND kTcpFin = 0"
  shows "tx_inv t S q0 fin s'"
proof -
  have t: "tx_ready s" "pt_tuple (ts_template s) = t" using tx_inv_ready [OF assms(2)] by simp_all
  note k = tx_segment_tx [OF assms(1) t(1)]
  obtain ms where ms: "nic_wire (ts_nic s') = nic_wire (ts_nic s) @ ms" "\<forall>m \<in> set ms. is_segment t q fl [] m"
    using k(5) t(2) by blast
  show ?thesis by (rule tx_inv_wire [OF assms(2) k(1-4) ms(1)]) (use ms(2) assms(3) in \<open>auto simp: sent_ok_def\<close>)
qed

lemma send_ack_tx: "tx_inv t S q0 fin s \<Longrightarrow> tx_inv t S q0 fin (snd (send_ack s))"
proof -
  assume i: "tx_inv t S q0 fin s"
  obtain r s' where e: "tx_segment (ts_snd_nxt s) (ts_rcv_nxt s) kTcpAck (ts_rcv_wnd s) [] s = (r, s')" by (metis surj_pair)
  from tx_bare_segment [OF e i] have "tx_inv t S q0 fin s'" by (simp add: kTcpAck_def kTcpFin_def)
  then show ?thesis using e by (cases r) (auto simp: send_ack_def intro: tx_inv_cong)
qed

lemma keepalive_tx: "tx_inv t S q0 fin s \<Longrightarrow> tx_inv t S q0 fin (tick_keepalive iv now s)"
proof -
  assume i: "tx_inv t S q0 fin s"
  obtain r s' where e: "tx_segment (ts_snd_nxt s - 1) (ts_rcv_nxt s) kTcpAck (ts_rcv_wnd s) [] s = (r, s')" by (metis surj_pair)
  from tx_bare_segment [OF e i] have "tx_inv t S q0 fin s'" by (simp add: kTcpAck_def kTcpFin_def)
  then have "tx_inv t S q0 fin (snd (send_keepalive_probe s))" using e by (cases r) (auto simp: send_keepalive_probe_def)
  then show ?thesis using i
    by (auto simp: tick_keepalive_def Let_def case_prod_beta data_open_def split: sum.splits intro: tx_inv_cong [OF i] tx_inv_cong [where s = "snd (send_keepalive_probe s)"])
qed

lemma flush_tx: "tx_inv t S q0 fin s \<Longrightarrow> tx_inv t S q0 fin (flush_pending_ack dl now s)"
proof -
  assume i: "tx_inv t S q0 fin s"
  obtain r s' where e: "send_ack s = (r, s')" by (metis surj_pair)
  then have "tx_inv t S q0 fin s'" using send_ack_tx [OF i] by simp
  then show ?thesis using e i by (cases r) (auto simp: flush_pending_ack_def intro: tx_inv_cong)
qed

lemma tcp_send_tx:
  assumes i: "tx_inv t S q0 fin s"
  shows "tx_inv t (S @ tcp_accepted (App_send d) s) q0 fin (snd (tcp_send d s))"
proof (cases "ts_state s = Established \<and> length d \<le> unat (ts_effective_mss s)")
  case False
  then have "tcp_send d s = (fst (tcp_send d s), s) \<and> (\<exists>e. fst (tcp_send d s) = Inl e)" by (auto simp: tcp_send_def)
  then show ?thesis using i by (auto split: sum.splits)
next
  case True
  then have f: "\<not> fin" using i by (auto simp: tx_inv_def data_open_def)
  have t: "tx_ready s" "pt_tuple (ts_template s) = t" using tx_inv_ready [OF i] by simp_all
  obtain r s' where e: "tx_segment (ts_snd_nxt s) (ts_rcv_nxt s) (kTcpAck OR kTcpPsh) (ts_rcv_wnd s) d s = (r, s')" by (metis surj_pair)
  note k = tx_segment_tx [OF e t(1)]
  obtain ms where ms: "nic_wire (ts_nic s') = nic_wire (ts_nic s) @ ms" "r \<noteq> Sent \<longrightarrow> ms = []" "\<forall>m \<in> set ms. is_segment t (ts_snd_nxt s) (kTcpAck OR kTcpPsh) d m"
    using k(5) t(2) by blast
  have q: "ts_snd_nxt s = q0 + of_nat (length S)" using i f by (simp add: tx_inv_def)
  show ?thesis
  proof (cases "r = Sent")
    case False
    then have "tx_inv t S q0 fin s'" using tx_inv_wire [OF i k(1-4) ms(1)] ms(2) by simp
    then show ?thesis using False True e by (cases r) (auto simp: tcp_send_def)
  next
    case s: True
    have "sent_ok t (S @ d) q0 False m" if "m \<in> set ms" for m
      using ms(3) that in_stream_middle [OF q, of d "[]"] by (auto intro: sent_ok_data)
    then have "\<forall>m \<in> set (nic_wire (ts_nic s')). sent_ok t (S @ d) q0 False m"
      using i f sent_ok_append unfolding ms(1) tx_inv_def by auto
    then have "tx_inv t (S @ d) q0 False (s'\<lparr>ts_snd_nxt := ts_snd_nxt s' + of_nat (length d)\<rparr>)"
      using k(1-3) t q by (simp add: tx_inv_def tx_ready_def)
    then show ?thesis using s True e f by (auto simp: tcp_send_def intro: tx_inv_cong)
  qed
qed

lemma tcp_close_tx:
  assumes i: "tx_inv t S q0 fin s"
  shows "\<exists>fin'. tx_inv t S q0 fin' (snd (tcp_close s))"
proof (cases "data_open (ts_state s)")
  case False
  then show ?thesis using i by (auto simp: tcp_close_def data_open_def)
next
  case True
  then have f: "\<not> fin" using i by (auto simp: tx_inv_def)
  have t: "tx_ready s" "pt_tuple (ts_template s) = t" using tx_inv_ready [OF i] by simp_all
  obtain r s' where e: "tx_segment (ts_snd_nxt s) (ts_rcv_nxt s) (kTcpFin OR kTcpAck) (ts_rcv_wnd s) [] s = (r, s')" by (metis surj_pair)
  note k = tx_segment_tx [OF e t(1)]
  obtain ms where ms: "nic_wire (ts_nic s') = nic_wire (ts_nic s) @ ms" "r \<noteq> Sent \<longrightarrow> ms = []" "\<forall>m \<in> set ms. is_segment t (ts_snd_nxt s) (kTcpFin OR kTcpAck) [] m"
    using k(5) t(2) by blast
  have q: "ts_snd_nxt s = q0 + of_nat (length S)" using i f by (simp add: tx_inv_def)
  show ?thesis
  proof (cases "r = Sent")
    case False
    then have "tx_inv t S q0 fin s'" using tx_inv_wire [OF i k(1-4) ms(1)] ms(2) by simp
    then show ?thesis using False True e by (cases r) (auto simp: tcp_close_def data_open_def)
  next
    case s: True
    have "sent_ok t S q0 True m" if "m \<in> set (nic_wire (ts_nic s'))" for m
    proof (cases "m \<in> set ms")
      case True
      then show ?thesis using ms(3) q unfolding sent_ok_def by fastforce
    next
      case False
      then have "sent_ok t S q0 fin m" using that i unfolding ms(1) tx_inv_def by auto
      then show ?thesis using f unfolding sent_ok_def by blast
    qed
    then have "tx_inv t S q0 True (s'\<lparr>ts_snd_nxt := ts_snd_nxt s' + 1, ts_state := (if ts_state s' = Established then FinWait1 else LastAck)\<rparr>)"
      using k(1-3) t q by (simp add: tx_inv_def tx_ready_def data_open_def)
    then show ?thesis using s True e by (auto simp: tcp_close_def data_open_def)
  qed
qed


section \<open>Batches\<close>

lemma prepare_batch_tx:
  "prepare_batch segs done s = (pr, s') \<Longrightarrow> tx_ready s \<Longrightarrow> t = pt_tuple (ts_template s) \<Longrightarrow>
   tx_ready s' \<and> pt_tuple (ts_template s') = t \<and> nic_wire (ts_nic s') = nic_wire (ts_nic s) \<and>
   (\<exists>n ms. pr = done @ zip ms (map length (take n segs)) \<and> length ms = n \<and> n \<le> length segs \<and>
     (\<forall>i < n. is_segment t (ts_snd_nxt s + of_nat (sum_list (map snd done) + length (concat (take i segs)))) (kTcpAck OR kTcpPsh) (segs ! i) (ms ! i)))"
proof (induction segs "done" s rule: prepare_batch.induct)
  case (1 done_list s)
  then show ?case by auto
next
  case (2 seg segs done_list s)
  let ?q = "ts_snd_nxt s + of_nat (sum_list (map snd done_list))"
  obtain mb s1 where b: "session_build ?q (ts_rcv_nxt s) (kTcpAck OR kTcpPsh) (ts_rcv_wnd s) seg s = (mb, s1)" by (metis surj_pair)
  note k = session_build_tx [OF b 2(3)]
  have n: "ts_snd_nxt s1 = ts_snd_nxt s" using session_build_rx_side(3) b by (metis snd_conv)
  show ?case
  proof (cases "length seg \<le> unat (ts_effective_mss s) \<and> mb \<noteq> None")
    case False
    then have "pr = done_list" "s' = s \<or> s' = s1" using 2(2) b by (auto split: if_splits)
    then show ?thesis using k(1-3) 2(3,4) by (auto intro!: exI [of _ "0 :: nat"])
  next
    case True
    then obtain m where m: "mb = Some m" by auto
    have r: "prepare_batch segs (done_list @ [(m, length seg)]) s1 = (pr, s')" using 2(2) b m True by simp
    have t1: "t = pt_tuple (ts_template s1)" using k(2) 2(4) by simp
    from 2(1) [OF _ b [symmetric] m r k(1) t1] True obtain n ms where
      ih: "tx_ready s'" "pt_tuple (ts_template s') = t" "nic_wire (ts_nic s') = nic_wire (ts_nic s1)"
      "pr = (done_list @ [(m, length seg)]) @ zip ms (map length (take n segs))" "length ms = n" "n \<le> length segs"
      "\<forall>i < n. is_segment t (ts_snd_nxt s1 + of_nat (sum_list (map snd (done_list @ [(m, length seg)])) + length (concat (take i segs))))
        (kTcpAck OR kTcpPsh) (segs ! i) (ms ! i)" by auto
    have "is_segment t (ts_snd_nxt s + of_nat (sum_list (map snd done_list) + length (concat (take i (seg # segs))))) (kTcpAck OR kTcpPsh) ((seg # segs) ! i) ((m # ms) ! i)"
      if "i < Suc n" for i
      using that ih(7) k(4) [OF m] 2(4) n by (cases i) (auto simp: add.assoc)
    then show ?thesis using ih k(3) by (intro conjI exI [of _ "Suc n"] exI [of _ "m # ms"]) auto
  qed
qed

lemma map_snd_take_zip: "length ms = n \<Longrightarrow> n \<le> length segs \<Longrightarrow> k \<le> n \<Longrightarrow>
  sum_list (map snd (take k (zip ms (map length (take n segs))))) = length (concat (take k segs))"
  by (simp add: take_zip take_map length_concat min_def)

lemma batch_sent_ok:
  assumes q: "q = q0 + of_nat (length S)"
    and g: "\<And>i. i < n \<Longrightarrow> is_segment t (q + of_nat (length (concat (take i segs)))) (kTcpAck OR kTcpPsh) (segs ! i) (ms ! i)"
    and l: "sent \<le> n" "length ms = n" "n \<le> length segs" and m: "m \<in> set (take sent ms)"
  shows "sent_ok t (S @ concat (take sent segs)) q0 fin m"
proof -
  obtain k where k: "k < sent" "k < n" "m = ms ! k" using m l(2) by (auto simp: in_set_conv_nth)
  have "take sent segs = take k segs @ segs ! k # drop (Suc k) (take sent segs)"
    using id_take_nth_drop [of k "take sent segs"] k(1) l by (simp add: min_absorb1)
  then have sp: "concat (take sent segs) = concat (take k segs) @ segs ! k @ concat (drop (Suc k) (take sent segs))"
    by (metis concat.simps(2) concat_append)
  have "in_stream (S @ concat (take sent segs)) q0 (q + of_nat (length (concat (take k segs)))) (segs ! k)"
    using in_stream_middle [of _ q0 "S @ concat (take k segs)" "segs ! k" "concat (drop (Suc k) (take sent segs))"] q unfolding sp by (simp add: add.assoc)
  with g [OF k(2)] show ?thesis unfolding k(3) by (rule sent_ok_data)
qed

lemma send_batch_tx:
  assumes i: "tx_inv t S q0 fin s"
  shows "tx_inv t (S @ tcp_accepted (App_send_batch segs) s) q0 fin (snd (send_batch segs s))"
proof (cases "ts_state s = Established")
  case False
  then show ?thesis using i by (simp add: send_batch_def)
next
  case True
  then have f: "\<not> fin" using i by (auto simp: tx_inv_def data_open_def)
  have t: "tx_ready s" "t = pt_tuple (ts_template s)" using tx_inv_ready [OF i] by simp_all
  obtain pr s1 where e: "prepare_batch (take kMaxBatchSize segs) [] s = (pr, s1)" by (metis surj_pair)
  from prepare_batch_tx [OF e t] obtain n ms where
    p: "tx_ready s1" "pt_tuple (ts_template s1) = t" "nic_wire (ts_nic s1) = nic_wire (ts_nic s)"
    "pr = zip ms (map length (take n (take kMaxBatchSize segs)))" "length ms = n" "n \<le> length (take kMaxBatchSize segs)"
    and g: "\<And>i. i < n \<Longrightarrow> is_segment t (ts_snd_nxt s + of_nat (length (concat (take i (take kMaxBatchSize segs))))) (kTcpAck OR kTcpPsh) (take kMaxBatchSize segs ! i) (ms ! i)"
    by auto
  have nx: "ts_snd_nxt s1 = ts_snd_nxt s" using prepare_batch_rx_side [of "take kMaxBatchSize segs" "[]" s] e by simp
  have q: "ts_snd_nxt s = q0 + of_nat (length S)" using i f by (simp add: tx_inv_def)
  have n: "n \<le> kMaxBatchSize" "n \<le> length segs" using p(6) by auto
  define sent where "sent = min (length pr) (nic_tx (ts_nic s1) (nic_bursts (ts_nic s1)) (length pr))"
  have lp: "length pr = n" using p(4-6) by simp
  have sn: "sent \<le> n" by (simp add: sent_def lp)
  have mp: "map fst pr = ms" using p(4-6) by simp
  have sm: "min (length ms) (nic_tx (ts_nic s1) (nic_bursts (ts_nic s1)) (length ms)) = sent" by (simp add: sent_def lp p(5))
  have sum: "sum_list (map snd (take sent pr)) = length (concat (take sent segs))"
    unfolding p(4) using map_snd_take_zip [OF p(5,6) sn] sn n by (simp add: min_absorb1)
  have "sent_ok t (S @ concat (take sent segs)) q0 False m" if m: "m \<in> set (take sent ms)" for m
    by (rule batch_sent_ok [OF q _ sn p(5) n(2) m]) (use g n in \<open>simp add: min_absorb1\<close>)
  moreover have "sent_ok t (S @ concat (take sent segs)) q0 False m" if "m \<in> set (nic_wire (ts_nic s))" for m
    using i f that sent_ok_append unfolding tx_inv_def by auto
  ultimately have w: "\<forall>m \<in> set (nic_wire (ts_nic s) @ take sent ms). sent_ok t (S @ concat (take sent segs)) q0 False m" by auto
  show ?thesis
  proof (cases "pr = []")
    case empty: True
    then have "tx_inv t S q0 fin s1" using p(1-3) nx i prepare_batch_rx_side [of "take kMaxBatchSize segs" "[]" s] e by (simp add: tx_inv_def tx_ready_def)
    then show ?thesis using True e empty by (simp add: send_batch_def)
  next
    case False
    have "fst (fst (send_batch segs s)) = sent" using True e False by (simp add: send_batch_def tx_burst_def Let_def sent_def)
    moreover have "tx_inv t (S @ concat (take sent segs)) q0 False (snd (send_batch segs s))"
      using True e False w p(1-3) nx q by (simp add: send_batch_def tx_burst_def Let_def lp p(5) [symmetric] sm sum mp tx_inv_def tx_ready_def)
    ultimately show ?thesis using f by simp
  qed
qed


section \<open>Receiving never reopens the sending side\<close>

lemma rx_data_open: "data_open (ts_state (snd (rx_data slots now p s))) \<Longrightarrow> data_open (ts_state s)"
proof (cases "receiving (ts_state s) \<and> pp_seq p \<noteq> ts_rcv_nxt s \<and> pp_payload_len p > 0")
  case True
  then show "data_open (ts_state (snd (rx_data slots now p s))) \<Longrightarrow> data_open (ts_state s)" by (simp add: rx_data_late)
next
  case False
  have "data_open (ts_state (snd (rx_fin now p x))) \<Longrightarrow> data_open (ts_state x)" for x
    by (auto simp: rx_fin_def enter_time_wait_def data_open_def Let_def split: TcpState.splits if_splits)
  from this [of "if receiving (ts_state s) then snd (rx_in_order p s) else s"]
  show "data_open (ts_state (snd (rx_data slots now p s))) \<Longrightarrow> data_open (ts_state s)"
    unfolding rx_data_ready(1) [OF False] by (simp split: if_splits)
qed

lemma rx_packet_open: "data_open (ts_state (snd (rx_packet slots now m s))) \<Longrightarrow> data_open (ts_state s)"
proof -
  have "data_open (ts_state (rx_ack now p (rx_touch s))) \<Longrightarrow> data_open (ts_state s)" for p
    by (auto simp: rx_ack_def enter_time_wait_def data_open_def Let_def split: TcpState.splits if_splits)
  moreover have "\<not> data_open Closed" by (simp add: data_open_def)
  ultimately show "data_open (ts_state (snd (rx_packet slots now m s))) \<Longrightarrow> data_open (ts_state s)"
    by (auto simp: rx_packet_def rx_rst_def Let_def dest: rx_data_open split: if_splits)
qed

lemma rx_loop_open: "data_open (ts_state (snd (rx_loop slots now ms c a free s))) \<Longrightarrow> data_open (ts_state s)"
proof (induction ms arbitrary: c a free s)
  case (Cons m ms)
  obtain r s' where rs: "rx_packet slots now m s = (r, s')" by (metis surj_pair)
  then have "data_open (ts_state s') \<Longrightarrow> data_open (ts_state s)" using rx_packet_open [of slots now m s] by simp
  then show ?case using Cons rs by (cases r) auto
qed simp

lemma process_rx_tx: "tx_inv t S q0 fin s \<Longrightarrow> tx_inv t S q0 fin (snd (process_rx slots now tsc ms s))"
proof -
  assume i: "tx_inv t S q0 fin s"
  obtain a where e: "snd (process_rx slots now tsc ms s) = (snd (rx_loop slots now ms 0 False [] s))\<lparr>ts_ack_pending := a\<rparr>"
    using process_rx_session by blast
  show ?thesis unfolding e by (rule tx_inv_cong [OF i]) (auto dest: rx_loop_open)
qed

section \<open>Both sides\<close>

lemma tcp_step_tx:
  assumes "tx_inv t S q0 fin s"
  shows "\<exists>fin'. tx_inv t (S @ tcp_accepted e s) q0 fin' (tcp_step slots s e)"
proof (cases e)
  case (App_send d)
  then show ?thesis using tcp_send_tx [OF assms, of d] by auto
next
  case (App_send_batch segs)
  then show ?thesis using send_batch_tx [OF assms, of segs] by auto
next
  case App_close
  then show ?thesis using tcp_close_tx [OF assms] by auto
next
  case (Frag_needed mtu)
  have "tx_inv t S q0 fin (on_icmp_frag_needed mtu s)"
    by (rule tx_inv_cong [OF assms]) (simp_all add: on_icmp_frag_needed_def Let_def split: if_splits)
  then show ?thesis using Frag_needed by auto
qed (auto intro: exI [of _ fin] process_rx_tx [OF assms] flush_tx [OF assms] keepalive_tx [OF assms])

lemma tcp_run_tx:
  "tx_inv t S q0 fin s \<Longrightarrow> \<exists>fin'. tx_inv t (S @ tcp_accepted_run slots s evs) q0 fin' (tcp_run slots s evs)"
proof (induction evs arbitrary: S fin s)
  case (Cons e evs)
  from tcp_step_tx [OF Cons.prems] obtain fin' where "tx_inv t (S @ tcp_accepted e s) q0 fin' (tcp_step slots s e)" by blast
  from Cons.IH [OF this] show ?case by (simp add: tcp_run_def)
qed (auto simp: tcp_run_def)

text \<open>
  C8. Two sessions that run this code, connected by a network that may lose, reorder, duplicate and pad
  packets and mix in packets of other connections: in every interleaving of sends, batches, bursts, timers
  and closes on both sides, the bytes one side has delivered are a prefix of the bytes that the other
  side's \<open>send\<close> and \<open>send_batch\<close> calls reported as sent.
\<close>

theorem tcp_end_to_end:
  assumes "length (tcp_accepted_run slots a evs) + 1 < 2 ^ 32"
    and "pt_tuple (ts_template a) = flip_tuple (tc_tuple (ts_config b))" "length (pt_src_mac (ts_template a)) = 6" "length (pt_dst_mac (ts_template a)) = 6"
    and "nic_wire (ts_nic a) = []" "ts_rcv_nxt b = ts_snd_nxt a" "ts_reorder b = []" "ts_delivered b = []"
    and "\<And>m'. m' \<in> set (concat (map received evs')) \<Longrightarrow>
      (\<exists>m \<in> set (nic_wire (ts_nic (tcp_run slots a evs))). on_wire m m') \<or>
      pp_tcp (parse_packet m') = None \<or> \<not> pp_matches (tc_tuple (ts_config b)) (parse_packet m')"
  shows "prefix (concat (ts_delivered (tcp_run slots' b evs'))) (tcp_accepted_run slots a evs)"
proof -
  let ?S = "tcp_accepted_run slots a evs" and ?r = "ts_snd_nxt a" and ?t = "tc_tuple (ts_config b)"
  have "tx_inv (flip_tuple ?t) [] ?r False a" using assms(2-5) by (simp add: tx_inv_def)
  from tcp_run_tx [OF this] obtain fin where tx: "tx_inv (flip_tuple ?t) ?S ?r fin (tcp_run slots a evs)" by auto
  have "honest ?S ?r ?t m'" if m': "m' \<in> set (concat (map received evs'))" for m'
  proof (cases "\<exists>m \<in> set (nic_wire (ts_nic (tcp_run slots a evs))). on_wire m m'")
    case True
    then obtain m q fl d where m: "on_wire m m'" "is_segment (flip_tuple ?t) q fl d m" "d \<noteq> [] \<longrightarrow> in_stream ?S ?r q d"
        "fl AND kTcpFin \<noteq> 0 \<longrightarrow> q + of_nat (length d) = ?r + of_nat (length ?S)"
      using tx unfolding tx_inv_def sent_ok_def by blast
    show ?thesis by (rule honest_segment [OF m(2,1)]) (use m(3,4) in auto)
  next
    case False
    then show ?thesis using assms(9) [OF m'] by (auto simp: honest_def Let_def)
  qed
  then have h: "list_all (honest ?S ?r ?t) (concat (map received evs'))" unfolding list_all_iff by blast
  have "rx_at ?S ?r 0 False b" using assms(6-8) by (simp add: rx_at_def)
  then have "rx_inv ?S ?r b" unfolding rx_inv_def by blast
  from tcp_run_inv [OF assms(1) this h] show ?thesis unfolding rx_inv_def rx_at_def by (metis take_is_prefix)
qed

definition demo_sender :: TcpSession where
  "demo_sender = demo_session\<lparr>ts_template := demo_template, ts_snd_nxt := 0\<rparr>"

theorem tcp_end_to_end_witness:
  "let evs = [App_send [1, 2], App_send_batch [[3], [4, 5]], App_close]; w = nic_wire (ts_nic (tcp_run 64 demo_sender evs)) in
   prefix (concat (ts_delivered (tcp_run 64 demo_session [Burst 0 5 (rev w), Burst 0 6 w]))) (tcp_accepted_run 64 demo_sender evs)"
proof -
  let ?evs = "[App_send [1, 2], App_send_batch [[3], [4, 5]], App_close]"
  let ?w = "nic_wire (ts_nic (tcp_run 64 demo_sender ?evs))"
  have l: "length (concat (take n [[3], [4, 5 :: u8]])) \<le> 3" for n by (cases n; cases "n - 1") auto
  have "length (tcp_accepted (App_send [1, 2]) x) \<le> 2" for x by (auto split: sum.splits)
  moreover have "length (tcp_accepted (App_send_batch [[3], [4, 5]]) x) \<le> 3" for x using l by simp
  ultimately have "length (tcp_accepted_run 64 demo_sender ?evs) \<le> 2 + (3 + 0)"
    unfolding tcp_accepted_run.simps length_append by (intro add_mono) simp_all
  then have "length (tcp_accepted_run 64 demo_sender ?evs) + 1 < 2 ^ 32" by simp
  moreover have f: "pt_tuple (ts_template demo_sender) = flip_tuple (tc_tuple (ts_config demo_session))" "length (pt_src_mac (ts_template demo_sender)) = 6"
    "length (pt_dst_mac (ts_template demo_sender)) = 6" "nic_wire (ts_nic demo_sender) = []" "ts_rcv_nxt demo_session = ts_snd_nxt demo_sender"
    by (simp_all add: demo_sender_def demo_session_fresh flip_tuple_def demo_template_def)
      (simp add: demo_session_def mk_TcpSession_def Let_def)
  moreover have "\<exists>m \<in> set ?w. on_wire m m'" if "m' \<in> set (concat (map received [Burst 0 5 (rev ?w), Burst 0 6 ?w]))" for m'
  proof -
    have "tx_inv (pt_tuple (ts_template demo_sender)) [] 0 False demo_sender" using f by (simp add: tx_inv_def demo_sender_def)
    from tcp_run_tx [OF this, of 64 ?evs] have "on_wire m' m'" using that on_wire_refl by (auto simp: tx_inv_def sent_ok_def)
    then show ?thesis using that by auto
  qed
  ultimately show ?thesis
    unfolding Let_def by (intro tcp_end_to_end [OF _ _ _ _ _ _ demo_session_fresh(2,3)]) blast+
qed

end
