(* ===== verification/Tcp_States.thy ===== *)
theory Tcp_States
  imports Tcp_Receive
begin

text \<open>
  The states a session of \<^verbatim>\<open>tcp.hpp\<close> goes through, against the connection state diagram of RFC 793: what an
  arriving segment does to the state, and what every other operation, from \<open>begin_connect\<close> to \<open>reset\<close>, does.
\<close>

section \<open>A segment arrives\<close>
















section \<open>The other operations\<close>











end
