(* ===== verification/Fix_Builder.thy ===== *)
theory Fix_Builder
  imports Core_Codec
begin

text \<open>
  The FIX message builder of \<^verbatim>\<open>eph-fix/include/eph/fix/builder.hpp\<close> and the tag constants it is used with.
  The caller's buffer is a byte list of its real length beside the capacity the caller claimed; a store
  outside it is undefined behaviour in the source and \<open>None\<close> here. The setter for binary floating-point
  values is left out.
\<close>

section \<open>Tags\<close>

definition tag_BeginString :: u32 where "tag_BeginString = 8"
definition tag_BodyLength :: u32 where "tag_BodyLength = 9"
definition tag_MsgType :: u32 where "tag_MsgType = 35"
definition tag_SenderCompID :: u32 where "tag_SenderCompID = 49"
definition tag_TargetCompID :: u32 where "tag_TargetCompID = 56"
definition tag_MsgSeqNum :: u32 where "tag_MsgSeqNum = 34"
definition tag_SendingTime :: u32 where "tag_SendingTime = 52"
definition tag_BeginSeqNo :: u32 where "tag_BeginSeqNo = 7"
definition tag_EndSeqNo :: u32 where "tag_EndSeqNo = 16"
definition tag_PossDupFlag :: u32 where "tag_PossDupFlag = 43"
definition tag_EncryptMethod :: u32 where "tag_EncryptMethod = 98"
definition tag_HeartBtInt :: u32 where "tag_HeartBtInt = 108"
definition tag_TestReqID :: u32 where "tag_TestReqID = 112"
definition tag_GapFillFlag :: u32 where "tag_GapFillFlag = 123"
definition tag_ResetSeqNumFlag :: u32 where "tag_ResetSeqNumFlag = 141"
definition tag_NewSeqNo :: u32 where "tag_NewSeqNo = 36"

lemmas tag_defs = tag_BeginString_def tag_BodyLength_def tag_MsgType_def tag_SenderCompID_def tag_TargetCompID_def
  tag_MsgSeqNum_def tag_SendingTime_def tag_BeginSeqNo_def tag_EndSeqNo_def tag_PossDupFlag_def tag_EncryptMethod_def
  tag_HeartBtInt_def tag_TestReqID_def tag_GapFillFlag_def tag_ResetSeqNumFlag_def tag_NewSeqNo_def

section \<open>Number formatting\<close>

abbreviation SOH :: u8 where "SOH \<equiv> 1"
abbreviation EQ_SIGN :: u8 where "EQ_SIGN \<equiv> 61"

definition ascii :: "string \<Rightarrow> bytes" where
  "ascii s = map of_char s"

definition digit_byte :: "nat \<Rightarrow> u8" where
  "digit_byte d = 48 + of_nat d"

text \<open>The digits of a positive number, least significant first, as the loop of \<open>format_uint\<close> stores them.\<close>

fun uint_digits :: "nat \<Rightarrow> bytes" where
  "uint_digits n = (if n = 0 then [] else digit_byte (n mod 10) # uint_digits (n div 10))"

declare uint_digits.simps [simp del]

definition format_uint :: "nat \<Rightarrow> bytes" where
  "format_uint v = (if v = 0 then [48] else rev (uint_digits v))"

definition format_int :: "int \<Rightarrow> bytes" where
  "format_int v = (if v < 0 then 45 # format_uint (nat (- v)) else format_uint (nat v))"

section \<open>State\<close>

definition kHeaderReserve :: nat where "kHeaderReserve = 32"
definition kTrailerLen :: nat where "kTrailerLen = 7"

record MessageBuilder =
  bl_buf :: bytes
  bl_capacity :: nat
  bl_body_start :: nat
  bl_pos :: nat
  bl_total_len :: nat
  bl_field_count :: nat
  bl_overflow :: bool
  bl_finished :: bool

text \<open>A null buffer is \<open>None\<close>.\<close>

definition mk_MessageBuilder :: "bytes option \<Rightarrow> nat \<Rightarrow> MessageBuilder" where
  "mk_MessageBuilder buf capacity =
     (let b = \<lparr>bl_buf = (case buf of None \<Rightarrow> [] | Some m \<Rightarrow> m), bl_capacity = capacity, bl_body_start = 0, bl_pos = 0,
               bl_total_len = 0, bl_field_count = 0, bl_overflow = False, bl_finished = False\<rparr> in
      if buf = None \<or> capacity < kHeaderReserve then b\<lparr>bl_overflow := True\<rparr>
      else b\<lparr>bl_body_start := kHeaderReserve, bl_pos := kHeaderReserve\<rparr>)"

definition store :: "nat \<Rightarrow> bytes \<Rightarrow> bytes \<Rightarrow> bytes option" where
  "store i vs buf = (if i + length vs \<le> length buf then Some (take i buf @ vs @ drop (i + length vs) buf) else None)"

section \<open>Fields\<close>

definition write_uint :: "nat \<Rightarrow> nat \<Rightarrow> MessageBuilder \<Rightarrow> (nat \<times> MessageBuilder) option" where
  "write_uint val off b =
     (let tmp = format_uint val; n = length tmp in
      if off + n \<le> bl_capacity b then map_option (\<lambda>m. (n, b\<lparr>bl_buf := m\<rparr>)) (store off tmp (bl_buf b))
      else Some (n, b))"

definition set_trusted :: "u32 \<Rightarrow> bytes \<Rightarrow> MessageBuilder \<Rightarrow> MessageBuilder option" where
  "set_trusted t value b =
     (if bl_overflow b then Some b
      else if bl_finished b then Some b
      else if length value > bl_capacity b then Some (b\<lparr>bl_overflow := True\<rparr>)
      else case write_uint (unat t) (bl_pos b) b of
        None \<Rightarrow> None
      | Some (tag_len, b) \<Rightarrow>
          let needed = tag_len + 1 + length value + 1 in
          if bl_pos b + needed > bl_capacity b then Some (b\<lparr>bl_overflow := True\<rparr>)
          else
            map_option (\<lambda>m. b\<lparr>bl_buf := m, bl_pos := bl_pos b + needed, bl_field_count := bl_field_count b + 1\<rparr>)
              (store (bl_pos b + tag_len) (EQ_SIGN # value @ [SOH]) (bl_buf b)))"

text \<open>\<open>set\<close> refuses values that contain the field delimiter.\<close>

definition set_field :: "u32 \<Rightarrow> bytes \<Rightarrow> MessageBuilder \<Rightarrow> MessageBuilder option" where
  "set_field t value b =
     (if bl_overflow b then Some b
      else if SOH \<in> set value then Some (b\<lparr>bl_overflow := True\<rparr>)
      else set_trusted t value b)"

definition set_int :: "u32 \<Rightarrow> int \<Rightarrow> MessageBuilder \<Rightarrow> MessageBuilder option" where
  "set_int t value = set_trusted t (format_int value)"

definition set_raw :: "u32 \<Rightarrow> bytes option \<Rightarrow> MessageBuilder \<Rightarrow> MessageBuilder option" where
  "set_raw t data b =
     (case data of
        None \<Rightarrow> set_trusted t [] b
      | Some d \<Rightarrow>
          if d = [] then set_trusted t [] b
          else if SOH \<in> set d then Some (b\<lparr>bl_overflow := True\<rparr>)
          else set_trusted t d b)"

definition set_bool :: "u32 \<Rightarrow> bool \<Rightarrow> MessageBuilder \<Rightarrow> MessageBuilder option" where
  "set_bool t value = set_trusted t (if value then ascii ''Y'' else ascii ''N'')"

definition set_char :: "u32 \<Rightarrow> u8 \<Rightarrow> MessageBuilder \<Rightarrow> MessageBuilder option" where
  "set_char t value = set_field t [value]"

definition is_digit :: "u8 \<Rightarrow> bool" where
  "is_digit c \<longleftrightarrow> 48 \<le> c \<and> c \<le> 57"

section \<open>Timestamps\<close>

datatype TimestampPrecision = kSeconds | kMilliseconds | kMicroseconds | kNanoseconds

fun frac_digits :: "TimestampPrecision \<Rightarrow> nat" where
  "frac_digits kSeconds = 0"
| "frac_digits kMilliseconds = 3"
| "frac_digits kMicroseconds = 6"
| "frac_digits kNanoseconds = 9"

text \<open>
  The civil date of a day count since 1970-01-01: year, month, day. The day count is not negative, and neither
  is any of the differences (shown in \<open>Fix_Civil\<close>), so the unsigned arithmetic of the source is that of the naturals.
\<close>

definition civil_from_days :: "nat \<Rightarrow> nat \<times> nat \<times> nat" where
  "civil_from_days days =
     (let z = days + 719468;
          era = z div 146097;
          doe = z - era * 146097;
          yoe = (doe - doe div 1460 + doe div 36524 - doe div 146096) div 365;
          y = yoe + era * 400;
          doy = doe - (365 * yoe + yoe div 4 - yoe div 100);
          mp = (5 * doy + 2) div 153;
          day = doy - (153 * mp + 2) div 5 + 1;
          mon = (if mp < 10 then mp + 3 else mp - 9) in
      (if mon \<le> 2 then y + 1 else y, mon, day))"

text \<open>The fractional digits, written right to left with leading zeros.\<close>

fun frac_bytes :: "nat \<Rightarrow> nat \<Rightarrow> bytes" where
  "frac_bytes 0 frac_val = []"
| "frac_bytes (Suc i) frac_val = frac_bytes i (frac_val div 10) @ [digit_byte (frac_val mod 10)]"

definition format_timestamp :: "u64 \<Rightarrow> TimestampPrecision \<Rightarrow> bytes" where
  "format_timestamp epoch_ns prec =
     (let epoch_sec = unat epoch_ns div 1000000000;
          day_sec = epoch_sec mod 86400; hour = day_sec div 3600; minute = day_sec mod 3600 div 60; second = day_sec mod 60;
          (year, mon, day) = civil_from_days (epoch_sec div 86400);
          sub_ns = unat epoch_ns mod 1000000000;
          frac_val = (if frac_digits prec = 3 then sub_ns div 1000000 else if frac_digits prec = 6 then sub_ns div 1000 else sub_ns) in
      [digit_byte (year div 1000 mod 10), digit_byte (year div 100 mod 10), digit_byte (year div 10 mod 10), digit_byte (year mod 10),
       digit_byte (mon div 10), digit_byte (mon mod 10), digit_byte (day div 10), digit_byte (day mod 10), 45,
       digit_byte (hour div 10), digit_byte (hour mod 10), 58, digit_byte (minute div 10), digit_byte (minute mod 10), 58,
       digit_byte (second div 10), digit_byte (second mod 10)] @
      (if 0 < frac_digits prec then 46 # frac_bytes (frac_digits prec) frac_val else []))"

definition set_timestamp :: "u32 \<Rightarrow> u64 \<Rightarrow> TimestampPrecision \<Rightarrow> MessageBuilder \<Rightarrow> MessageBuilder option" where
  "set_timestamp t epoch_ns prec = set_trusted t (format_timestamp epoch_ns prec)"

section \<open>Decimals\<close>

text \<open>The loop of \<open>set_decimal\<close> behind the optional sign: digits, at most one dot, a digit behind it.\<close>

fun decimal_ok :: "bool \<Rightarrow> bool \<Rightarrow> bytes \<Rightarrow> bool" where
  "decimal_ok has_digits has_dot [] = has_digits"
| "decimal_ok has_digits has_dot (c # cs) =
     (if is_digit c then decimal_ok True has_dot cs
      else if c = 46 \<and> \<not> has_dot then (cs \<noteq> [] \<and> is_digit (hd cs) \<and> decimal_ok has_digits True cs)
      else False)"

definition set_decimal :: "u32 \<Rightarrow> bytes \<Rightarrow> MessageBuilder \<Rightarrow> MessageBuilder option" where
  "set_decimal t decimal b =
     (if bl_overflow b then Some b
      else
        let digits = (if decimal \<noteq> [] \<and> hd decimal = 45 then tl decimal else decimal) in
        if digits = [] \<or> \<not> decimal_ok False False digits then Some (b\<lparr>bl_overflow := True\<rparr>)
        else set_trusted t decimal b)"

text \<open>The leading zeros of the fractional part.\<close>

fun frac_zeros :: "nat \<Rightarrow> nat \<Rightarrow> bytes" where
  "frac_zeros frac_divisor frac_part =
     (if 0 < frac_divisor \<and> frac_part < frac_divisor then 48 # frac_zeros (frac_divisor div 10) frac_part else [])"

declare frac_zeros.simps [simp del]

definition format_price :: "int \<Rightarrow> nat \<Rightarrow> bytes" where
  "format_price mantissa decimals =
     (let abs_val = nat \<bar>mantissa\<bar>; divisor = 10 ^ decimals; int_part = abs_val div divisor; frac_part = abs_val mod divisor in
      (if mantissa < 0 then [45] else []) @ format_uint int_part @ [46] @ frac_zeros (divisor div 10) frac_part @
      (if 0 < frac_part then format_uint frac_part else []))"

definition set_price :: "u32 \<Rightarrow> int \<Rightarrow> nat \<Rightarrow> MessageBuilder \<Rightarrow> MessageBuilder option" where
  "set_price t mantissa decimals =
     (if decimals = 0 then set_int t mantissa else set_trusted t (format_price mantissa (min decimals 18)))"

text \<open>The count in front of a repeating group.\<close>

definition begin_group :: "u32 \<Rightarrow> u64 \<Rightarrow> MessageBuilder \<Rightarrow> MessageBuilder option" where
  "begin_group count_tag count = set_int count_tag (sint count)"

section \<open>Finishing\<close>

definition kMaxBeginString :: nat where "kMaxBeginString = 32"

definition fix_header :: "bytes \<Rightarrow> nat \<Rightarrow> bytes" where
  "fix_header begin_string body_length =
     ascii ''8='' @ begin_string @ [SOH] @ ascii ''9='' @ format_uint body_length @ [SOH]"

definition checksum_sum :: "bytes \<Rightarrow> u32" where
  "checksum_sum = foldl (\<lambda>sum b. sum + ucast b) 0"

definition fix_trailer :: "u8 \<Rightarrow> bytes" where
  "fix_trailer cs =
     ascii ''10='' @ [digit_byte (unat cs div 100 mod 10), digit_byte (unat cs div 10 mod 10), digit_byte (unat cs mod 10)] @ [SOH]"

text \<open>\<open>None\<close> is a store outside the buffer, the number the total length or \<open>0\<close> for a refused message.\<close>

definition bl_finish :: "bytes \<Rightarrow> MessageBuilder \<Rightarrow> (nat \<times> MessageBuilder) option" where
  "bl_finish begin_string b =
     (if bl_overflow b then Some (0, b)
      else
        let body_length = bl_pos b - bl_body_start b; fail = Some (0, b\<lparr>bl_overflow := True\<rparr>) in
        if length begin_string > kMaxBeginString then fail
        else if begin_string = [] then fail
        else if \<exists>c \<in> set begin_string. c = SOH \<or> c = 0 then fail
        else
          let header = fix_header begin_string body_length; hpos = length header in
          if hpos > bl_body_start b then fail
          else
            let header_offset = bl_body_start b - hpos in
            case store header_offset header (bl_buf b) of
              None \<Rightarrow> None
            | Some m \<Rightarrow>
                let cs = ucast (checksum_sum (slice m header_offset (bl_pos b - header_offset)) AND 0xFF) in
                if bl_pos b + kTrailerLen > bl_capacity b then Some (0, b\<lparr>bl_buf := m, bl_overflow := True\<rparr>)
                else
                  case store (bl_pos b) (fix_trailer cs) m of
                    None \<Rightarrow> None
                  | Some m \<Rightarrow>
                      let pos = bl_pos b + kTrailerLen; total = pos - header_offset;
                          m = (if header_offset > 0 then slice m header_offset total @ drop total m else m) in
                      Some (total, b\<lparr>bl_buf := m, bl_pos := pos, bl_total_len := total, bl_finished := True\<rparr>))"

definition bl_reset :: "MessageBuilder \<Rightarrow> MessageBuilder" where
  "bl_reset b = b\<lparr>bl_body_start := kHeaderReserve, bl_pos := kHeaderReserve, bl_total_len := 0, bl_field_count := 0,
                 bl_overflow := False, bl_finished := False\<rparr>"

definition as_span :: "MessageBuilder \<Rightarrow> bytes" where
  "as_span b = take (bl_total_len b) (bl_buf b)"

section \<open>Duplicate tags\<close>

text \<open>The scan of \<open>has_tag\<close> over the body written so far: fields up to the equals sign, then past the delimiter.\<close>

function scan_tag :: "bytes \<Rightarrow> bytes \<Rightarrow> bool" where
  "scan_tag tag_str body =
     (if body = [] then False
      else
        let name = takeWhile (\<lambda>c. c \<noteq> EQ_SIGN) body; rest = dropWhile (\<lambda>c. c \<noteq> EQ_SIGN) body in
        if rest = [] then False
        else if name = tag_str then True
        else scan_tag tag_str (drop 1 (dropWhile (\<lambda>c. c \<noteq> SOH) (drop 1 rest))))"
  by pat_completeness auto
termination
proof (relation "measure (\<lambda>(t, body). length body)", goal_cases)
  case (2 tag_str body x xa)
  have "length (drop 1 (dropWhile (\<lambda>c. c \<noteq> SOH) (drop 1 xa))) \<le> length (dropWhile (\<lambda>c. c \<noteq> SOH) (drop 1 xa))" by simp
  also have "\<dots> \<le> length (drop 1 xa)" by (rule length_dropWhile_le)
  also have "\<dots> < length xa" using 2 by (cases xa) auto
  also have "length xa \<le> length body" using 2 by (simp add: length_dropWhile_le)
  finally show ?case by simp
qed simp

declare scan_tag.simps [simp del]

definition has_tag :: "u32 \<Rightarrow> MessageBuilder \<Rightarrow> bool" where
  "has_tag t b =
     (if bl_overflow b \<or> bl_pos b \<le> bl_body_start b then False
      else scan_tag (format_uint (unat t)) (slice (bl_buf b) (bl_body_start b) (bl_pos b - bl_body_start b)))"

text \<open>The \<open>_unique\<close> setters: a field whose tag is already there sets the overflow flag.\<close>

definition set_unique :: "(u32 \<Rightarrow> 'v \<Rightarrow> MessageBuilder \<Rightarrow> MessageBuilder option) \<Rightarrow> u32 \<Rightarrow> 'v \<Rightarrow> MessageBuilder \<Rightarrow> MessageBuilder option" where
  "set_unique setter t v b = (if has_tag t b then Some (b\<lparr>bl_overflow := True\<rparr>) else setter t v b)"

definition remaining_capacity :: "MessageBuilder \<Rightarrow> nat" where
  "remaining_capacity b =
     (if bl_overflow b then 0 else if bl_pos b + kTrailerLen \<ge> bl_capacity b then 0 else bl_capacity b - bl_pos b - kTrailerLen)"

section \<open>Memory safety\<close>

definition bl_inv :: "MessageBuilder \<Rightarrow> bool" where
  "bl_inv b \<longleftrightarrow> bl_capacity b = length (bl_buf b) \<and>
     (bl_overflow b \<or> kHeaderReserve \<le> bl_capacity b \<and> bl_body_start b = kHeaderReserve \<and> kHeaderReserve \<le> bl_pos b \<and> bl_pos b \<le> bl_capacity b)"

lemma store_length: "store i vs buf = Some m \<Longrightarrow> length m = length buf"
  by (auto simp: store_def split: if_splits)

lemma store_fits: "i + length vs \<le> length buf \<Longrightarrow> store i vs buf = Some (take i buf @ vs @ drop (i + length vs) buf)"
  by (simp add: store_def)

lemma bl_inv_overflow: "bl_inv b \<Longrightarrow> bl_inv (b\<lparr>bl_overflow := True\<rparr>)"
  by (simp add: bl_inv_def)

lemma set_trusted_safe:
  assumes "bl_inv b"
  shows "\<exists>b'. set_trusted t value b = Some b' \<and> bl_inv b'"
proof (cases "bl_overflow b \<or> bl_finished b \<or> length value > bl_capacity b")
  case True
  then show ?thesis using assms bl_inv_overflow by (auto simp: set_trusted_def)
next
  case False
  let ?n = "length (format_uint (unat t))"
  have l: "length (bl_buf b) = bl_capacity b" using assms by (simp add: bl_inv_def)
  show ?thesis
  proof (cases "bl_pos b + (?n + 1 + length value + 1) \<le> bl_capacity b")
    case True
    then show ?thesis using False assms l
      by (auto simp: set_trusted_def write_uint_def store_fits bl_inv_def Let_def)
  next
    case no: False
    then show ?thesis using False assms l
      by (auto simp: set_trusted_def write_uint_def store_def bl_inv_def Let_def)
  qed
qed

section \<open>Decimal digits\<close>

lemma is_digit_byte [simp]: "d < 10 \<Longrightarrow> is_digit (digit_byte d)"
  by (simp add: is_digit_def digit_byte_def word_le_nat_alt unat_word_ariths unat_of_nat)

lemma digit_byte_value [simp]: "d < 10 \<Longrightarrow> unat (digit_byte d - 48) = d"
  by (simp add: digit_byte_def unat_of_nat)

lemma is_digit_not [simp]: "is_digit c \<Longrightarrow> c \<noteq> SOH" "is_digit c \<Longrightarrow> c \<noteq> EQ_SIGN" "is_digit c \<Longrightarrow> c \<noteq> 45"
  by (auto simp: is_digit_def word_le_nat_alt)

lemma uint_digits_step: "0 < n \<Longrightarrow> rev (uint_digits n) = rev (uint_digits (n div 10)) @ [digit_byte (n mod 10)]"
  by (subst uint_digits.simps) simp

lemma uint_digits_0 [simp]: "uint_digits 0 = []"
  by (subst uint_digits.simps) simp

text \<open>The shape shared by every decimal loop of the parser, the framer and the number parser.\<close>

lemma digits_loop:
  assumes "\<And>m d rest. d < 10 \<Longrightarrow> m * 10 + d \<le> lim \<Longrightarrow> f m (digit_byte d # rest) = f (m * 10 + d) rest"
    and "n \<le> lim"
  shows "f 0 (format_uint n @ rest) = f n rest"
proof -
  have "f 0 (rev (uint_digits n) @ rest) = f n rest" using assms(2)
  proof (induction n arbitrary: rest rule: less_induct)
    case (less n)
    show ?case
    proof (cases "n = 0")
      case False
      then have "f 0 (rev (uint_digits n) @ rest) = f 0 (rev (uint_digits (n div 10)) @ (digit_byte (n mod 10) # rest))"
        by (simp add: uint_digits_step)
      also have "\<dots> = f (n div 10) (digit_byte (n mod 10) # rest)"
        using False less.prems by (intro less.IH) (simp_all add: order.trans [OF div_le_dividend])
      also have "\<dots> = f n rest" using assms(1) [of "n mod 10" "n div 10" rest] less.prems by simp
      finally show ?thesis .
    qed simp
  qed
  moreover have "f 0 (48 # rest) = f 0 rest" using assms(1) [of 0 0 rest] by (simp add: digit_byte_def)
  ultimately show ?thesis by (auto simp: format_uint_def)
qed

lemma uint_digits_digits: "c \<in> set (uint_digits n) \<Longrightarrow> is_digit c"
  by (induction n rule: uint_digits.induct) (metis uint_digits.simps empty_iff empty_set is_digit_byte mod_less_divisor set_ConsD zero_less_numeral)

lemma format_uint_digits: "c \<in> set (format_uint n) \<Longrightarrow> is_digit c"
  using uint_digits_digits by (auto simp: format_uint_def is_digit_def split: if_splits)

lemma format_uint_nonempty [simp]: "format_uint n \<noteq> []"
  by (auto simp: format_uint_def uint_digits.simps)

lemma format_uint_no [simp]: "SOH \<notin> set (format_uint n)" "EQ_SIGN \<notin> set (format_uint n)"
  using format_uint_digits is_digit_not by blast+

lemma format_int_no [simp]: "SOH \<notin> set (format_int v)"
  by (simp add: format_int_def)

lemma ucast_digit [simp]: "d < 10 \<Longrightarrow> ucast (digit_byte d - 48) = (of_nat d :: 'a :: len word)"
  using digit_byte_value [of d] by (metis of_nat_unat)

lemma frac_zeros_no_SOH [simp]: "SOH \<notin> set (frac_zeros d p)"
  by (induction d p rule: frac_zeros.induct) (subst frac_zeros.simps, simp)

lemma digit_byte_not_SOH [simp]: "d < 10 \<Longrightarrow> digit_byte d \<noteq> SOH" "d < 10 \<Longrightarrow> SOH \<noteq> digit_byte d"
  using is_digit_not(1) [OF is_digit_byte] by metis+

lemma frac_bytes_no_SOH [simp]: "SOH \<notin> set (frac_bytes i v)"
  by (induction i arbitrary: v) auto

lemma decimal_ok_no_SOH: "decimal_ok a b cs \<Longrightarrow> SOH \<notin> set cs"
  by (induction cs arbitrary: a b) (auto split: if_splits)

end
