(* ===== verification/Fix_Parser.thy ===== *)
theory Fix_Parser
  imports Framing Fix_Builder
begin

text \<open>
  The zero-copy FIX parser of \<^verbatim>\<open>eph-fix/include/eph/fix/parser.hpp\<close> and the framer of \<^verbatim>\<open>framer.hpp\<close>. A
  pointer into the input is the list of bytes from there on, a \<open>string_view\<close> the bytes it covers. The limits
  \<open>MaxFields\<close> and \<open>MaxBodyLength\<close> are arguments.
\<close>

section \<open>Values\<close>

datatype ParseError = kMsgIncomplete | kMsgInvalidFormat | kChecksumMismatch | kFieldOverflow

definition kDefaultMaxBodyLength :: nat where "kDefaultMaxBodyLength = 1024 * 1024"
definition kMaxFields :: nat where "kMaxFields = 128"

fun parse_char_value :: "bytes \<Rightarrow> u8 option" where
  "parse_char_value [c] = Some c"
| "parse_char_value _ = None"

definition parse_bool_value :: "bytes \<Rightarrow> bool option" where
  "parse_bool_value sv =
     (case parse_char_value sv of
        None \<Rightarrow> None
      | Some c \<Rightarrow> if c = 89 then Some True else if c = 78 then Some False else None)"

text \<open>The accumulation loop of \<open>core::parse_int\<close>.\<close>

fun parse_int_loop :: "u64 \<Rightarrow> u64 \<Rightarrow> bytes \<Rightarrow> u64 option" where
  "parse_int_loop limit result [] = Some result"
| "parse_int_loop limit result (c # cs) =
     (if \<not> is_digit c then None
      else
        let digit = ucast (c - 48) in
        if result > (limit - digit) div 10 then None
        else parse_int_loop limit (result * 10 + digit) cs)"

definition parse_int :: "bytes \<Rightarrow> int option" where
  "parse_int sv =
     (if sv = [] then None
      else
        let negative = (hd sv = 45); p = (if negative then tl sv else sv) in
        if p = [] then None
        else
          map_option (\<lambda>result. sint (if negative then NOT result + 1 else result :: u64))
            (parse_int_loop (if negative then 0x8000000000000000 else 0x7FFFFFFFFFFFFFFF) 0 p))"

section \<open>Message views\<close>

record MessageView =
  mv_fields :: "(u32 \<times> bytes) list"
  mv_total_len :: nat
  mv_begin_string :: bytes

definition mv_get :: "u32 \<Rightarrow> (u32 \<times> bytes) list \<Rightarrow> bytes option" where
  "mv_get t flds = map_option snd (find (\<lambda>f. fst f = t) flds)"

definition mv_has :: "u32 \<Rightarrow> (u32 \<times> bytes) list \<Rightarrow> bool" where
  "mv_has t flds \<longleftrightarrow> mv_get t flds \<noteq> None"

definition msg_type :: "MessageView \<Rightarrow> bytes option" where
  "msg_type v = mv_get tag_MsgType (mv_fields v)"

definition get_char :: "u32 \<Rightarrow> (u32 \<times> bytes) list \<Rightarrow> u8 option" where
  "get_char t flds = Option.bind (mv_get t flds) parse_char_value"

definition get_int :: "u32 \<Rightarrow> (u32 \<times> bytes) list \<Rightarrow> int option" where
  "get_int t flds = Option.bind (mv_get t flds) parse_int"

definition get_bool :: "u32 \<Rightarrow> (u32 \<times> bytes) list \<Rightarrow> bool option" where
  "get_bool t flds = Option.bind (mv_get t flds) parse_bool_value"

definition mv_count :: "u32 \<Rightarrow> (u32 \<times> bytes) list \<Rightarrow> nat" where
  "mv_count t flds = length (filter (\<lambda>f. fst f = t) flds)"

fun get_nth :: "u32 \<Rightarrow> nat \<Rightarrow> (u32 \<times> bytes) list \<Rightarrow> bytes option" where
  "get_nth t n [] = None"
| "get_nth t n (f # fs) =
     (if fst f = t then (if n = 0 then Some (snd f) else get_nth t (n - 1) fs) else get_nth t n fs)"

text \<open>The entries of a repeating group: each starts at a delimiter tag and ends before the next.\<close>

fun group_entries :: "u32 \<Rightarrow> nat \<Rightarrow> (u32 \<times> bytes) list \<Rightarrow> (u32 \<times> bytes) list list" where
  "group_entries delim 0 flds = []"
| "group_entries delim (Suc n) [] = []"
| "group_entries delim (Suc n) (f # fs) =
     (if fst f = delim
      then (f # takeWhile (\<lambda>g. fst g \<noteq> delim) fs) # group_entries delim n (dropWhile (\<lambda>g. fst g \<noteq> delim) fs)
      else group_entries delim (Suc n) fs)"

definition get_group :: "u32 \<Rightarrow> u32 \<Rightarrow> nat \<Rightarrow> (u32 \<times> bytes) list \<Rightarrow> (u32 \<times> bytes) list list" where
  "get_group count_tag delim_tag max_entries flds =
     (case get_int count_tag flds of
        None \<Rightarrow> []
      | Some n \<Rightarrow> if n \<le> 0 then [] else take (nat n) (group_entries delim_tag max_entries flds))"

section \<open>Parsing\<close>

definition kMaxTag :: u32 where "kMaxTag = 0xFFFFFFFF div 10"

fun parse_tag_loop :: "u32 \<Rightarrow> bytes \<Rightarrow> u32 \<times> bytes" where
  "parse_tag_loop num [] = (0, [])"
| "parse_tag_loop num (c # p) =
     (if c = EQ_SIGN then (num, p)
      else if \<not> is_digit c then (0, p)
      else
        let digit = ucast (c - 48) in
        if num > kMaxTag then (0, p)
        else if num * 10 > 0xFFFFFFFF - digit then (0, p)
        else parse_tag_loop (num * 10 + digit) p)"

definition parse_tag_number :: "bytes \<Rightarrow> u32 \<times> bytes" where
  "parse_tag_number p = (if p = [] \<or> \<not> is_digit (hd p) then (0, p) else parse_tag_loop 0 p)"

definition compute_checksum :: "bytes \<Rightarrow> u8" where
  "compute_checksum data = ucast (checksum_sum data AND 0xFF)"

text \<open>The bytes up to the next delimiter and what follows it; \<open>None\<close> when there is no delimiter.\<close>

definition take_value :: "bytes \<Rightarrow> (bytes \<times> bytes) option" where
  "take_value p =
     (if SOH \<in> set p then Some (takeWhile (\<lambda>c. c \<noteq> SOH) p, drop 1 (dropWhile (\<lambda>c. c \<noteq> SOH) p)) else None)"

text \<open>Decimal digits with the guards against overflow and against values above the limit.\<close>

fun body_length_loop :: "nat \<Rightarrow> nat \<Rightarrow> bytes \<Rightarrow> nat option" where
  "body_length_loop max_body n [] = Some n"
| "body_length_loop max_body n (c # cs) =
     (if \<not> is_digit c then None
      else if n > max_body div 10 then None
      else
        let n = n * 10 + unat (c - 48) in
        if n > max_body then None else body_length_loop max_body n cs)"

text \<open>The three checksum digits; the value is compared modulo 256.\<close>

definition checksum_digits :: "bytes \<Rightarrow> u32 option" where
  "checksum_digits cs =
     (if is_digit (byte_at cs 3) \<and> is_digit (byte_at cs 4) \<and> is_digit (byte_at cs 5)
      then Some ((ucast (byte_at cs 3 - 48) * 10 + ucast (byte_at cs 4 - 48)) * 10 + ucast (byte_at cs 5 - 48)) else None)"

function parse_fields :: "nat \<Rightarrow> (u32 \<times> bytes) list \<Rightarrow> bytes \<Rightarrow> (ParseError, (u32 \<times> bytes) list) expected" where
  "parse_fields max_fields flds bp =
     (if bp = [] then Inr flds
      else
        let (field_tag, p) = parse_tag_number bp in
        if field_tag = 0 then Inl kMsgInvalidFormat
        else case take_value p of
          None \<Rightarrow> Inl kMsgInvalidFormat
        | Some (val, rest) \<Rightarrow>
            if length flds \<ge> max_fields then Inl kFieldOverflow
            else parse_fields max_fields (flds @ [(field_tag, val)]) rest)"
  by pat_completeness auto
termination
proof (relation "measure (\<lambda>(m, fs, bp). max (m - length fs) 0)", goal_cases)
  case (2 max_fields flds bp a b c d)
  then show ?case by auto
qed simp

declare parse_fields.simps [simp del]

definition fix_parse :: "nat \<Rightarrow> nat \<Rightarrow> bytes \<Rightarrow> (ParseError, MessageView) expected" where
  "fix_parse max_fields max_body data =
     (if data = [] then Inl kMsgIncomplete
      else
        let (t1, p) = parse_tag_number data in
        if t1 \<noteq> tag_BeginString then Inl kMsgInvalidFormat
        else case take_value p of
          None \<Rightarrow> Inl kMsgIncomplete
        | Some (begin_string, p) \<Rightarrow>
            if p = [] then Inl kMsgIncomplete
            else
              let (t2, p) = parse_tag_number p in
              if t2 \<noteq> tag_BodyLength then Inl kMsgInvalidFormat
              else case take_value p of
                None \<Rightarrow> Inl kMsgIncomplete
              | Some (body_len_str, body_start) \<Rightarrow>
                  case body_length_loop max_body 0 body_len_str of
                    None \<Rightarrow> Inl kMsgInvalidFormat
                  | Some body_length \<Rightarrow>
                      let header_len = length data - length body_start in
                      if length data < header_len + 7 \<or> body_length > length data - header_len - 7
                      then Inl kMsgIncomplete
                      else
                        let cs_field = drop body_length body_start in
                        if take 3 cs_field \<noteq> ascii ''10='' then Inl kMsgInvalidFormat
                        else if byte_at cs_field 6 \<noteq> SOH then Inl kMsgInvalidFormat
                        else case checksum_digits cs_field of
                          None \<Rightarrow> Inl kMsgInvalidFormat
                        | Some declared_cs \<Rightarrow>
                            if compute_checksum (take (header_len + body_length) data) \<noteq> ucast declared_cs then Inl kChecksumMismatch
                            else
                              case parse_fields max_fields [] (take body_length body_start) of
                                Inl e \<Rightarrow> Inl e
                              | Inr flds \<Rightarrow>
                                  Inr \<lparr>mv_fields = flds, mv_total_len = header_len + body_length + 7, mv_begin_string = begin_string\<rparr>)"

section \<open>Consecutive messages\<close>

lemma parse_tag_loop_length: "length (snd (parse_tag_loop num p)) \<le> length p"
  by (induction num p rule: parse_tag_loop.induct) (auto simp: Let_def)

lemma parse_tag_number_length: "length (snd (parse_tag_number p)) \<le> length p"
  by (auto simp: parse_tag_number_def parse_tag_loop_length)

lemma take_value_length: "take_value p = Some (v, r) \<Longrightarrow> length r < length p"
proof -
  assume a: "take_value p = Some (v, r)"
  then have "SOH \<in> set p" "r = drop 1 (dropWhile (\<lambda>c. c \<noteq> SOH) p)" by (auto simp: take_value_def split: if_splits)
  moreover from this have "dropWhile (\<lambda>c. c \<noteq> SOH) p \<noteq> []" by auto
  ultimately show ?thesis using length_dropWhile_le [of "\<lambda>c. c \<noteq> SOH" p] by (cases "dropWhile (\<lambda>c. c \<noteq> SOH) p") auto
qed

lemma fix_parse_total_len:
  assumes "fix_parse max_fields max_body data = Inr v"
  shows "7 \<le> mv_total_len v" "mv_total_len v \<le> length data"
  using assms by (auto simp: fix_parse_def Let_def split: if_splits prod.splits option.splits sum.splits)

text \<open>\<open>parse_all\<close>: the callback says whether to go on; the result is the offset reached and the messages delivered.\<close>

function parse_all :: "nat \<Rightarrow> (MessageView \<Rightarrow> bool) \<Rightarrow> bytes \<Rightarrow> nat \<times> MessageView list" where
  "parse_all max_fields callback data =
     (if data = [] then (0, [])
      else case fix_parse max_fields kDefaultMaxBodyLength data of
        Inl e \<Rightarrow> (0, [])
      | Inr v \<Rightarrow>
          if \<not> callback v then (mv_total_len v, [v])
          else
            let (off, vs) = parse_all max_fields callback (drop (mv_total_len v) data) in
            (mv_total_len v + off, v # vs))"
  by pat_completeness auto
termination
proof (relation "measure (\<lambda>(m, c, d). length d)", goal_cases)
  case (2 max_fields callback data v)
  then show ?case using fix_parse_total_len(1) [OF 2(2)] by auto
qed simp

declare parse_all.simps [simp del]

record ParserStats =
  messages_parsed :: u64
  parse_errors :: u64
  bytes_consumed :: u64
  first_error_offset :: nat
  first_error_type :: ParseError
  first_error_tag_byte :: u8

definition on_message :: "nat \<Rightarrow> ParserStats \<Rightarrow> ParserStats" where
  "on_message msg_bytes st =
     st\<lparr>messages_parsed := messages_parsed st + 1, bytes_consumed := bytes_consumed st + of_nat msg_bytes\<rparr>"

definition on_error :: "nat \<Rightarrow> ParseError \<Rightarrow> u8 \<Rightarrow> ParserStats \<Rightarrow> ParserStats" where
  "on_error off err tag_byte st =
     (let st = (if parse_errors st = 0
                then st\<lparr>first_error_offset := off, first_error_type := err, first_error_tag_byte := tag_byte\<rparr> else st) in
      st\<lparr>parse_errors := parse_errors st + 1\<rparr>)"

definition parser_stats_reset :: "ParserStats \<Rightarrow> ParserStats" where
  "parser_stats_reset st =
     \<lparr>messages_parsed = 0, parse_errors = 0, bytes_consumed = 0, first_error_offset = 0, first_error_type = kMsgIncomplete,
      first_error_tag_byte = 0\<rparr>"

definition parser_stats_minus :: "ParserStats \<Rightarrow> ParserStats \<Rightarrow> ParserStats" where
  "parser_stats_minus l r =
     l\<lparr>messages_parsed := (if messages_parsed l \<ge> messages_parsed r then messages_parsed l - messages_parsed r else 0),
       parse_errors := (if parse_errors l \<ge> parse_errors r then parse_errors l - parse_errors r else 0),
       bytes_consumed := (if bytes_consumed l \<ge> bytes_consumed r then bytes_consumed l - bytes_consumed r else 0)\<rparr>"

text \<open>The overload with statistics; \<open>off\<close> is the offset reached so far.\<close>

function parse_all_stats :: "nat \<Rightarrow> (MessageView \<Rightarrow> bool) \<Rightarrow> nat \<Rightarrow> bytes \<Rightarrow> ParserStats \<Rightarrow> nat \<times> MessageView list \<times> ParserStats" where
  "parse_all_stats max_fields callback off data st =
     (if data = [] then (off, [], st)
      else case fix_parse max_fields kDefaultMaxBodyLength data of
        Inl e \<Rightarrow> (off, [], if e \<noteq> kMsgIncomplete then on_error off e (hd data) st else st)
      | Inr v \<Rightarrow>
          let st = on_message (mv_total_len v) st in
          if \<not> callback v then (off + mv_total_len v, [v], st)
          else
            let (off, vs, st) = parse_all_stats max_fields callback (off + mv_total_len v) (drop (mv_total_len v) data) st in
            (off, v # vs, st))"
  by pat_completeness auto
termination
proof (relation "measure (\<lambda>(m, c, off, d, st). length d)", goal_cases)
  case (2 max_fields callback off data st v st')
  then show ?case using fix_parse_total_len(1) [OF 2(2)] by auto
qed simp

declare parse_all_stats.simps [simp del]

section \<open>Dispatch on the message type\<close>

datatype msg_tag = Heartbeat | TestRequest | Logon | Logout | NewOrderSingle | OrderCancelRequest | OrderCancelReplace
  | ExecutionReport | OrderCancelReject | MarketDataRequest | MarketDataSnapshot | MarketDataIncRefresh
  | TradeCaptureReport | TradeCaptureReportAck | SecurityDefinition | SecurityStatus | PositionReport | MassQuote
  | QuoteCancel | SecurityList | SecurityListRequest | UnknownMsg

definition single_char_types :: "(char \<times> msg_tag) list" where
  "single_char_types =
     [(CHR ''0'', Heartbeat), (CHR ''1'', TestRequest), (CHR ''A'', Logon), (CHR ''5'', Logout), (CHR ''D'', NewOrderSingle),
      (CHR ''F'', OrderCancelRequest), (CHR ''G'', OrderCancelReplace), (CHR ''8'', ExecutionReport), (CHR ''9'', OrderCancelReject),
      (CHR ''V'', MarketDataRequest), (CHR ''W'', MarketDataSnapshot), (CHR ''X'', MarketDataIncRefresh),
      (CHR ''d'', SecurityDefinition), (CHR ''f'', SecurityStatus), (CHR ''i'', MassQuote), (CHR ''Z'', QuoteCancel),
      (CHR ''y'', SecurityList), (CHR ''x'', SecurityListRequest)]"

definition fix_dispatch :: "MessageView \<Rightarrow> msg_tag" where
  "fix_dispatch view =
     (case msg_type view of
        None \<Rightarrow> UnknownMsg
      | Some mt \<Rightarrow>
          if mt = [] then UnknownMsg
          else if length mt > 1 then
            (if mt = ascii ''AE'' then TradeCaptureReport else if mt = ascii ''AR'' then TradeCaptureReportAck
             else if mt = ascii ''AP'' then PositionReport else UnknownMsg)
          else case map_of (map (\<lambda>(c, t). (of_char c, t)) single_char_types) (hd mt) of None \<Rightarrow> UnknownMsg | Some t \<Rightarrow> t)"

section \<open>Checksum verification of a complete message\<close>

definition verify_checksum :: "bytes \<Rightarrow> bool" where
  "verify_checksum data =
     (let len = length data in
      if len < 7 then False
      else if last data \<noteq> SOH then False
      else
        let before = dropWhile (\<lambda>c. c \<noteq> SOH) (rev (butlast data)) in
        if length before \<le> 1 then False
        else
          let cs_start = drop (length before) data in
          if length cs_start \<le> 3 \<or> take 3 cs_start \<noteq> ascii ''10='' then False
          else if length cs_start \<noteq> 7 then False
          else case checksum_digits cs_start of
            None \<Rightarrow> False
          | Some declared \<Rightarrow> compute_checksum (take (length before) data) = ucast declared)"

section \<open>The framer\<close>

fun framer_body_length :: "nat \<Rightarrow> nat \<Rightarrow> bytes \<Rightarrow> (FrameError, nat \<times> bytes) expected" where
  "framer_body_length max_body n [] = Inl kIncomplete"
| "framer_body_length max_body n (c # p) =
     (if c = SOH then Inr (n, p)
      else if \<not> is_digit c then Inl kInvalidFormat
      else if n > max_body div 10 then Inl kInvalidFormat
      else
        let n = n * 10 + unat (c - 48) in
        if n > max_body then Inl kInvalidFormat else framer_body_length max_body n p)"

text \<open>The scan for tag 35; a tag number is accumulated from the digits in front of the equals sign.\<close>

definition loose_tag :: "bytes \<Rightarrow> u32" where
  "loose_tag name = foldl (\<lambda>tag c. if is_digit c then tag * 10 + ucast (c - 48) else tag) 0 name"

function scan_msg_type :: "bytes \<Rightarrow> u8" where
  "scan_msg_type body =
     (if body = [] then 0
      else
        let name = takeWhile (\<lambda>c. c \<noteq> EQ_SIGN) body; rest = dropWhile (\<lambda>c. c \<noteq> EQ_SIGN) body in
        if rest = [] then 0
        else case take_value (tl rest) of
          None \<Rightarrow> 0
        | Some (val, p) \<Rightarrow> if loose_tag name = tag_MsgType \<and> val \<noteq> [] then hd val else scan_msg_type p)"
  by pat_completeness auto
termination
proof (relation "measure length", goal_cases)
  case (2 body name rest a val p)
  have "length p < length (tl rest)" using 2(5) unfolding 2(6) [symmetric] by (intro take_value_length [of _ val]) simp
  also have "\<dots> \<le> length body" using 2 length_dropWhile_le [of "\<lambda>c. c \<noteq> EQ_SIGN" body] by simp
  finally show ?case by simp
qed simp

declare scan_msg_type.simps [simp del]

definition fix_framer_encode :: "bytes \<Rightarrow> bytes" where
  "fix_framer_encode data = data"

definition fix_framer_decode :: "nat \<Rightarrow> bytes \<Rightarrow> (FrameError, FramedMessage) expected" where
  "fix_framer_decode max_body data =
     (if length data < 2 then Inl kIncomplete
      else if take 2 data \<noteq> ascii ''8='' then Inl kInvalidFormat
      else case take_value (drop 2 data) of
        None \<Rightarrow> Inl kIncomplete
      | Some (begin_string, p) \<Rightarrow>
          if length p < 2 then Inl kIncomplete
          else if take 2 p \<noteq> ascii ''9='' then Inl kInvalidFormat
          else case framer_body_length max_body 0 (drop 2 p) of
            Inl e \<Rightarrow> Inl e
          | Inr (body_length, body) \<Rightarrow>
              let header_len = length data - length body in
              if length data < header_len + 7 \<or> body_length > length data - header_len - 7 then Inl kIncomplete
              else
                let total = header_len + body_length + 7; cs = drop body_length body in
                if take 3 cs \<noteq> ascii ''10='' then Inl kInvalidFormat
                else if byte_at cs 6 \<noteq> SOH then Inl kInvalidFormat
                else case checksum_digits cs of
                  None \<Rightarrow> Inl kInvalidFormat
                | Some declared_cs \<Rightarrow>
                    if compute_checksum (take (header_len + body_length) data) \<noteq> ucast declared_cs then Inl kInvalidFormat
                    else Inr \<lparr>fm_payload = take total data, fm_payload_len = total,
                              fm_msg_type = scan_msg_type (take body_length body), fm_is_control = False, fm_total_len = total\<rparr>)"

end
