(* ===== verification/Fix_Civil.thy ===== *)
theory Fix_Civil
  imports Fix_Builder
begin

text \<open>
  The two civil-date algorithms of the FIX code: the one of \<open>set_timestamp\<close> (\<^verbatim>\<open>builder.hpp\<close>) from a day count to
  a date, \<open>civil_from_days\<close>, and the one of \<open>parse_timestamp_value\<close> (\<^verbatim>\<open>parser.hpp\<close>) back. The parser's
  inverts the builder's on every day count since 1970, and every date the builder writes is one the
  parser's calendar check accepts.
\<close>

section \<open>The parser's side\<close>

definition days_from_civil :: "nat \<Rightarrow> nat \<Rightarrow> nat \<Rightarrow> int" where
  "days_from_civil year m day =
     (let y = (if m \<le> 2 then int year - 1 else int year);
          era = (if y \<ge> 0 then y else y - 399) div 400;
          yoe = nat (y - era * 400);
          doy = (153 * (if m > 2 then m - 3 else m + 9) + 2) div 5 + day - 1;
          doe = yoe * 365 + yoe div 4 - yoe div 100 + doy in
      era * 146097 + int doe - 719468)"

definition kDaysInMonth :: "nat list" where
  "kDaysInMonth = [31, 28, 31, 30, 31, 30, 31, 31, 30, 31, 30, 31]"

definition leap_year :: "nat \<Rightarrow> bool" where
  "leap_year year \<longleftrightarrow> year mod 4 = 0 \<and> (year mod 100 \<noteq> 0 \<or> year mod 400 = 0)"

section \<open>Civil dates\<close>

text \<open>The days of a 400-year era before its year \<open>y\<close>, and the year of a day of an era.\<close>

definition days_before :: "nat \<Rightarrow> nat" where
  "days_before y = 365 * y + y div 4 - y div 100"

definition year_of_era :: "nat \<Rightarrow> nat" where
  "year_of_era doe = (doe - doe div 1460 + doe div 36524 - doe div 146096) div 365"

lemma sub_div_mono:
  fixes a :: nat
  assumes "0 < k"
  shows "a - a div k \<le> a + e - (a + e) div k"
proof -
  have "(a + e) div k \<le> (a + e * k) div k" using assms by (intro div_le_mono) (cases k, auto)
  also have "\<dots> = e + a div k" using assms by (intro div_mult_self1) auto
  finally have le: "(a + e) div k \<le> e + a div k" .
  have "x - q \<le> x + e - r" if "r \<le> e + q" for x q r :: nat using that by linarith
  from this [OF le] show ?thesis .
qed

lemma sub_div_mono_le: "a \<le> b \<Longrightarrow> 0 < k \<Longrightarrow> a - a div k \<le> b - b div (k :: nat)"
  by (metis sub_div_mono less_eqE)

text \<open>The numerator of the year formula.\<close>

definition era_days :: "nat \<Rightarrow> nat" where
  "era_days x = (x - x div 1460) + (x div 36524 - x div 36524 div 4)"

lemma year_of_era_alt: "year_of_era x = era_days x div 365"
proof -
  have "x div 146096 = x div 36524 div 4" by (simp add: div_mult2_eq [symmetric])
  moreover have "x div 36524 div 4 \<le> x div 36524" by simp
  ultimately show ?thesis unfolding year_of_era_def era_days_def by simp
qed

lemma era_days_mono: "m \<le> n \<Longrightarrow> era_days m \<le> era_days n"
  unfolding era_days_def by (intro add_mono sub_div_mono_le div_le_mono) simp_all

lemma year_of_era_mono: "m \<le> n \<Longrightarrow> year_of_era m \<le> year_of_era n"
  unfolding year_of_era_alt by (intro div_le_mono era_days_mono)

text \<open>It takes out the leap days: at the first day of a year it is the number of whole years in days.\<close>

lemma era_days_year_start:
  assumes "y < 400"
  shows "era_days (days_before y) = 365 * y" "0 < y \<Longrightarrow> 0 < days_before y mod 1460"
proof -
  define c where "c = y div 100"
  define q where "q = y mod 100 div 4"
  define s where "s = y mod 100 mod 4"
  have b: "c < 4" "q < 25" "s < 4" using assms by (auto simp: c_def q_def s_def less_mult_imp_div_less)
  have y: "y = 100 * c + 4 * q + s" unfolding c_def q_def s_def by simp
  have "(100 * c + 4 * q + s) div 4 = 25 * c + q" "(100 * c + 4 * q + s) div 100 = c"
    using b by (auto intro!: div_nat_eqI)
  then have x: "days_before y = 36524 * c + 1461 * q + 365 * s" unfolding days_before_def y by simp
  have d: "days_before y div 1460 = 25 * c + q" "days_before y div 36524 = c" unfolding x using b by (auto intro!: div_nat_eqI)
  have "c div 4 = 0" using b by simp
  then show "era_days (days_before y) = 365 * y" unfolding era_days_def d unfolding x by (simp add: y)
  have "days_before y mod 1460 = 24 * c + q + 365 * s"
    using d(1) x minus_div_mult_eq_mod [of "days_before y" 1460] by simp
  then show "0 < days_before y mod 1460" if "0 < y" using that y by simp
qed

lemma era_days_step: "Suc x mod 1460 \<noteq> 0 \<Longrightarrow> era_days x < era_days (Suc x)"
proof -
  assume "Suc x mod 1460 \<noteq> 0"
  then have "Suc x div 1460 = x div 1460" by (simp add: div_Suc)
  then have "x - x div 1460 < Suc x - Suc x div 1460" using div_le_dividend [of x 1460] by (simp add: Suc_diff_le)
  moreover have "x div 36524 - x div 36524 div 4 \<le> Suc x div 36524 - Suc x div 36524 div 4"
    by (intro sub_div_mono_le div_le_mono) simp_all
  ultimately show ?thesis unfolding era_days_def by (rule add_less_le_mono)
qed

definition year_bounds :: "nat \<Rightarrow> bool" where
  "year_bounds y \<longleftrightarrow> year_of_era (days_before y) = y \<and> year_of_era (days_before (y + 1) - 1) = y"

lemma year_bounds_all: "y < 400 \<Longrightarrow> year_bounds y"
proof -
  assume y: "y < 400"
  let ?x = "days_before (y + 1) - 1"
  have q: "y div 100 \<le> y div 4" "(y + 1) div 100 \<le> (y + 1) div 4" by (rule div_le_mono2; simp)+
  have ar: "0 < 365 * (n + 1) + a - b" "b' \<le> a' \<Longrightarrow> a' \<le> a \<Longrightarrow> b \<le> b' + 1 \<Longrightarrow> 365 * n + a' - b' \<le> 365 * (n + 1) + a - b - 1"
    if "b \<le> a" for a b a' b' n :: nat using that by auto
  have pos: "0 < days_before (y + 1)" unfolding days_before_def by (rule ar(1) [OF q(2)])
  have start: "year_of_era (days_before y) = y" unfolding year_of_era_alt era_days_year_start(1) [OF y] by simp
  have "days_before y \<le> ?x"
  proof -
    have "(y + 1) div 100 \<le> y div 100 + 1" "y div 4 \<le> (y + 1) div 4" by (simp_all add: div_Suc div_le_mono)
    then show ?thesis unfolding days_before_def by (intro ar(2) q)
  qed
  then have "era_days ?x \<ge> 365 * y" using era_days_mono era_days_year_start(1) [OF y] by metis
  moreover have "era_days ?x < 365 * (y + 1)"
  proof (cases "y + 1 < 400")
    case True
    have S: "Suc ?x = days_before (y + 1)" using pos by simp
    have "0 < days_before (y + 1) mod 1460" by (rule era_days_year_start(2) [OF True]) simp
    then show ?thesis using era_days_step [of ?x] era_days_year_start(1) [OF True] unfolding S by simp
  next
    case False
    then have "y = 399" using y by simp
    then show ?thesis by (simp add: days_before_def era_days_def)
  qed
  ultimately have "year_of_era ?x = y" unfolding year_of_era_alt by (intro div_nat_eqI) simp_all
  with start show ?thesis unfolding year_bounds_def ..
qed

lemma days_before_year: "doe < days_before n \<Longrightarrow> \<exists>y < n. days_before y \<le> doe \<and> doe < days_before (y + 1)"
proof (induction n)
  case (Suc n)
  then show ?case by (cases "doe < days_before n") (auto simp: less_Suc_eq)
qed (simp add: days_before_def)

text \<open>The year the algorithm finds is the one whose days contain the given day; the last day of an era is the
  leap day of the year 400.\<close>

lemma year_of_era_contains:
  assumes "doe < 146097"
  obtains "year_of_era doe < 400" "days_before (year_of_era doe) \<le> doe"
    "doe < days_before (year_of_era doe + 1) \<or> year_of_era doe = 399 \<and> doe = 146096"
proof (cases "doe < days_before 400")
  case True
  then obtain y where y: "y < 400" "days_before y \<le> doe" "doe < days_before (y + 1)" using days_before_year by blast
  have "doe \<le> days_before (y + 1) - 1" using y(3) by simp
  then have "year_of_era doe \<le> y" using year_bounds_all [OF y(1)] year_of_era_mono unfolding year_bounds_def by metis
  moreover have "y \<le> year_of_era doe" using year_bounds_all [OF y(1)] year_of_era_mono [OF y(2)] by (simp add: year_bounds_def)
  ultimately show ?thesis using that y by simp
next
  case False
  then have "doe = 146096" using assms by (simp add: days_before_def)
  then show ?thesis using that by (simp add: year_of_era_def days_before_def)
qed

lemma days_before_step:
  "days_before (y + 1) \<le> days_before y + 366"
  "days_before (y + 1) = days_before y + 366 \<Longrightarrow> y < 400 \<Longrightarrow> (y + 1) mod 4 = 0 \<and> (y + 1) mod 100 \<noteq> 0"
proof -
  have q: "(y + 1) div 4 = (if (y + 1) mod 4 = 0 then y div 4 + 1 else y div 4)"
    "(y + 1) div 100 = (if (y + 1) mod 100 = 0 then y div 100 + 1 else y div 100)"
    using div_Suc [of y 4] div_Suc [of y 100] by simp_all
  have le: "y div 100 \<le> y div 4" by (rule div_le_mono2) simp_all
  have ar: "365 * (n + 1) + (if P then a + 1 else a) - (if Q then b + 1 else b) \<le> 365 * n + a - b + 366"
    "365 * (n + 1) + (if P then a + 1 else a) - (if Q then b + 1 else b) = 365 * n + a - b + 366 \<Longrightarrow> P \<and> \<not> Q"
    if "b \<le> a" for a b n :: nat and P Q using that by (auto split: if_splits)
  show "days_before (y + 1) \<le> days_before y + 366" unfolding days_before_def q by (rule ar(1) [OF le])
  show "(y + 1) mod 4 = 0 \<and> (y + 1) mod 100 \<noteq> 0" if "days_before (y + 1) = days_before y + 366"
    using that unfolding days_before_def q by (rule ar(2) [OF le])
qed

text \<open>Months and days of a year that starts in March.\<close>

lemma month_of_day:
  assumes "doy \<le> 365" "mp = (5 * doy + 2) div 153"
  shows "mp < 12" "(153 * mp + 2) div 5 \<le> doy"
    and "doy - (153 * mp + 2) div 5 < (if mp = 11 then (if doy = 365 then 29 else 28) else kDaysInMonth ! (if mp < 10 then mp + 2 else mp - 10))"
proof -
  have mp: "153 * mp \<le> 5 * doy + 2" "5 * doy + 2 < 153 * mp + 153"
    using assms(2) div_mult_mod_eq [of "5 * doy + 2" 153] mod_less_divisor [of 153 "5 * doy + 2"] by simp_all
  show lt: "mp < 12" using mp assms(1) by linarith
  have c: "mp = 0 \<or> mp = 1 \<or> mp = 2 \<or> mp = 3 \<or> mp = 4 \<or> mp = 5 \<or> mp = 6 \<or> mp = 7 \<or> mp = 8 \<or> mp = 9 \<or> mp = 10 \<or> mp = 11"
    using lt by presburger
  have "(153 * mp + 2) div 5 \<le> doy \<and>
    doy - (153 * mp + 2) div 5 < (if mp = 11 then (if doy = 365 then 29 else 28) else kDaysInMonth ! (if mp < 10 then mp + 2 else mp - 10))"
    using c mp assms(1) by (elim disjE; simp add: kDaysInMonth_def; linarith)
  then show "(153 * mp + 2) div 5 \<le> doy"
    "doy - (153 * mp + 2) div 5 < (if mp = 11 then (if doy = 365 then 29 else 28) else kDaysInMonth ! (if mp < 10 then mp + 2 else mp - 10))"
    by blast+
qed

definition date_ok :: "nat \<Rightarrow> nat \<Rightarrow> nat \<Rightarrow> bool" where
  "date_ok year month day \<longleftrightarrow> 1 \<le> month \<and> month \<le> 12 \<and> 1 \<le> day \<and>
     day \<le> (if month = 2 \<and> leap_year year then 29 else kDaysInMonth ! (month - 1))"

lemma date_ok_31: "date_ok y m d \<Longrightarrow> d \<le> 31"
proof -
  assume a: "date_ok y m d"
  have "m \<in> {1..12}" using a by (simp add: date_ok_def)
  then have "kDaysInMonth ! (m - 1) \<le> 31"
    by (simp add: kDaysInMonth_def atLeastAtMost_iff) (auto simp: nth_Cons' split: if_splits)
  then show ?thesis using a by (auto simp: date_ok_def split: if_splits)
qed

text \<open>The parts of a civil date: era, year of the era, day of the year and month, both counted from March.\<close>

lemma civil_parts:
  assumes "civil_from_days days = (year, month, day)"
  obtains era yoe doy mp where "days + 719468 = era * 146097 + (days_before yoe + doy)" "yoe < 400" "doy \<le> 365"
    "doy = 365 \<longrightarrow> leap_year (yoe + era * 400 + 1)" "mp = (5 * doy + 2) div 153"
    "month = (if mp < 10 then mp + 3 else mp - 9)" "day = doy - (153 * mp + 2) div 5 + 1"
    "year = (if month \<le> 2 then yoe + era * 400 + 1 else yoe + era * 400)"
proof -
  define z where "z = days + 719468"
  define era where "era = z div 146097"
  define doe where "doe = z - era * 146097"
  define yoe where "yoe = year_of_era doe"
  define doy where "doy = doe - days_before yoe"
  define mp where "mp = (5 * doy + 2) div 153"
  have z: "z = era * 146097 + doe" "doe < 146097"
    unfolding doe_def era_def by (simp_all add: minus_div_mult_eq_mod)
  from year_of_era_contains [OF z(2)] have y: "yoe < 400" "days_before yoe \<le> doe"
    "doe < days_before (yoe + 1) \<or> yoe = 399 \<and> doe = 146096" unfolding yoe_def by blast+
  have "days_before 399 = 145731" by (simp add: days_before_def)
  with y(3) days_before_step(1) [of yoe] have doy: "doy \<le> 365" unfolding doy_def by auto
  moreover have "doe = days_before yoe + doy" using y(2) by (simp add: doy_def)
  ultimately have doy: "doy \<le> 365" "doe = days_before yoe + doy" by blast+
  have leap: "doy = 365 \<longrightarrow> leap_year (yoe + era * 400 + 1)"
  proof
    assume full: "doy = 365"
    show "leap_year (yoe + era * 400 + 1)"
    proof (cases "yoe = 399")
      case True
      then have "400 dvd yoe + era * 400 + 1" by simp
      moreover from this have "4 dvd yoe + era * 400 + 1" by (rule dvd_trans [rotated]) simp
      ultimately show ?thesis unfolding leap_year_def mod_eq_0_iff_dvd by blast
    next
      case False
      then have "days_before (yoe + 1) = days_before yoe + 366"
        using y(3) doy(2) full days_before_step(1) [of yoe] by simp
      from days_before_step(2) [OF this y(1)]
      have "(yoe + 1) mod 4 = 0" "(yoe + 1) mod 100 \<noteq> 0" by blast+
      moreover have "(yoe + era * 400 + 1) mod 4 = (yoe + 1) mod 4" "(yoe + era * 400 + 1) mod 100 = (yoe + 1) mod 100"
        using mod_mult_self1 [of "yoe + 1" "era * 100" 4] mod_mult_self1 [of "yoe + 1" "era * 4" 100] by (simp_all add: algebra_simps)
      ultimately show ?thesis unfolding leap_year_def by metis
    qed
  qed
  have c: "civil_from_days days =
      (if (if mp < 10 then mp + 3 else mp - 9) \<le> 2 then yoe + era * 400 + 1 else yoe + era * 400,
       if mp < 10 then mp + 3 else mp - 9, doy - (153 * mp + 2) div 5 + 1)"
    unfolding civil_from_days_def z_def era_def doe_def yoe_def doy_def mp_def year_of_era_def days_before_def Let_def by (rule refl)
  have eq: "month = (if mp < 10 then mp + 3 else mp - 9)" "day = doy - (153 * mp + 2) div 5 + 1"
    "year = (if month \<le> 2 then yoe + era * 400 + 1 else yoe + era * 400)"
    using assms unfolding c prod.inject by blast+
  show ?thesis by (rule that [OF z(1) [unfolded z_def doy(2)] y(1) doy(1) leap mp_def eq])
qed

text \<open>The parser's day count inverts the formatter's civil date, and the date is one the parser accepts.\<close>

lemma civil_date_ok:
  assumes "civil_from_days days = (year, month, day)"
  shows "date_ok year month day"
proof -
  obtain era yoe doy mp where z: "days + 719468 = era * 146097 + (days_before yoe + doy)"
    and y: "yoe < 400" and doy: "doy \<le> 365" and leap: "doy = 365 \<longrightarrow> leap_year (yoe + era * 400 + 1)" and mp: "mp = (5 * doy + 2) div 153"
    and eq: "month = (if mp < 10 then mp + 3 else mp - 9)" "day = doy - (153 * mp + 2) div 5 + 1"
    "year = (if month \<le> 2 then yoe + era * 400 + 1 else yoe + era * 400)"
    by (rule civil_parts [OF assms])
  note m = month_of_day [OF doy mp]
  show ?thesis
  proof (cases "mp = 11")
    case True
    then show ?thesis using m(3) eq leap by (auto simp: date_ok_def kDaysInMonth_def split: if_splits)
  next
    case False
    have "month - 1 = (if mp < 10 then mp + 2 else mp - 10)" using eq(1) by simp
    then show ?thesis using m(1,3) eq(1,2) False by (auto simp: date_ok_def)
  qed
qed

lemma civil_round_trip:
  assumes "civil_from_days days = (year, month, day)"
  shows "days_from_civil year month day = int days"
proof -
  obtain era yoe doy mp where z: "days + 719468 = era * 146097 + (days_before yoe + doy)"
    and y: "yoe < 400" and doy: "doy \<le> 365" and leap: "doy = 365 \<longrightarrow> leap_year (yoe + era * 400 + 1)" and mp: "mp = (5 * doy + 2) div 153"
    and eq: "month = (if mp < 10 then mp + 3 else mp - 9)" "day = doy - (153 * mp + 2) div 5 + 1"
    "year = (if month \<le> 2 then yoe + era * 400 + 1 else yoe + era * 400)"
    by (rule civil_parts [OF assms])
  note m = month_of_day [OF doy mp]
  have yr: "(if month \<le> 2 then int year - 1 else int year) = int era * 400 + int yoe" unfolding eq(3) by simp
  have er: "(if 0 \<le> int era * 400 + int yoe then int era * 400 + int yoe else int era * 400 + int yoe - 399) div 400 = int era"
    using y by simp
  have ye: "nat (int era * 400 + int yoe - int era * 400) = yoe" by simp
  have mo: "(if month > 2 then month - 3 else month + 9) = mp" using eq(1) m(1) by (auto split: if_splits)
  have dy: "(153 * mp + 2) div 5 + day - 1 = doy" using m(2) unfolding eq(2) by simp
  have db: "yoe * 365 + yoe div 4 - yoe div 100 = days_before yoe" unfolding days_before_def by (simp only: mult.commute)
  have "int days = int era * 146097 + int (days_before yoe + doy) - 719468" using z by linarith
  then show ?thesis unfolding days_from_civil_def Let_def yr er ye mo dy db by simp
qed

lemma year_small:
  assumes "civil_from_days days = (year, month, day)" "days < 213504"
  shows "year < 10000"
proof -
  obtain era yoe doy mp where z: "days + 719468 = era * 146097 + (days_before yoe + doy)"
    and y: "yoe < 400" and doy: "doy \<le> 365" and leap: "doy = 365 \<longrightarrow> leap_year (yoe + era * 400 + 1)" and mp: "mp = (5 * doy + 2) div 153"
    and eq: "month = (if mp < 10 then mp + 3 else mp - 9)" "day = doy - (153 * mp + 2) div 5 + 1"
    "year = (if month \<le> 2 then yoe + era * 400 + 1 else yoe + era * 400)"
    by (rule civil_parts [OF assms(1)])
  have "era < 7" using z assms(2) by linarith
  moreover have "year \<le> yoe + era * 400 + 1" unfolding eq(3) by simp
  ultimately show ?thesis using y by linarith
qed

end
