(* ===== verification/Fix_Time.thy ===== *)
theory Fix_Time
  imports Fix_Parser Fix_Civil
begin

text \<open>
  The timestamps of \<^verbatim>\<open>builder.hpp\<close> and \<^verbatim>\<open>parser.hpp\<close>: the civil date algorithm is inverted by the one of the
  parser on every day count, so a formatted \<open>UTCTimestamp\<close> is read back up to its precision.
\<close>

section \<open>The parser\<close>

definition digits_val :: "bytes \<Rightarrow> nat" where
  "digits_val = foldl (\<lambda>v c. v * 10 + unat (c - 48)) 0"

definition kMaxEpochSec :: nat where
  "kMaxEpochSec = (2 ^ 64 - 1) div 1000000000"

definition parse_timestamp_value :: "bytes \<Rightarrow> u64 option" where
  "parse_timestamp_value sv =
     (if length sv \<noteq> 17 \<and> length sv \<noteq> 21 \<and> length sv \<noteq> 24 \<and> length sv \<noteq> 27 then None
      else if \<not> list_all is_digit (slice sv 0 8) then None
      else if byte_at sv 8 \<noteq> 45 then None
      else
        let year = digits_val (slice sv 0 4); month = digits_val (slice sv 4 2); day = digits_val (slice sv 6 2) in
        if month < 1 \<or> month > 12 \<or> day < 1 \<or> day > 31 then None
        else if day > (if month = 2 \<and> leap_year year then 29 else kDaysInMonth ! (month - 1)) then None
        else if \<not> list_all is_digit (slice sv 9 2 @ slice sv 12 2 @ slice sv 15 2) then None
        else if byte_at sv 11 \<noteq> 58 \<or> byte_at sv 14 \<noteq> 58 then None
        else
          let hour = digits_val (slice sv 9 2); minute = digits_val (slice sv 12 2); second = digits_val (slice sv 15 2) in
          if hour > 23 \<or> minute > 59 \<or> second > 59 then None
          else if length sv > 17 \<and> byte_at sv 17 \<noteq> 46 then None
          else if \<not> list_all is_digit (drop 18 sv) then None
          else
            let frac_len = length sv - 18; frac_val = digits_val (drop 18 sv);
                frac_ns = (if frac_len = 3 then frac_val * 1000000 else if frac_len = 6 then frac_val * 1000
                           else if frac_len = 9 then frac_val else 0);
                days = days_from_civil year month day in
            if days < 0 then None
            else
              let epoch_sec = nat days * 86400 + hour * 3600 + minute * 60 + second in
              if epoch_sec > kMaxEpochSec then None
              else if epoch_sec = kMaxEpochSec \<and> frac_ns > 2 ^ 64 - 1 - kMaxEpochSec * 1000000000 then None
              else Some (of_nat (epoch_sec * 1000000000 + frac_ns)))"

definition get_timestamp :: "u32 \<Rightarrow> (u32 \<times> bytes) list \<Rightarrow> u64 option" where
  "get_timestamp t flds = Option.bind (mv_get t flds) parse_timestamp_value"

section \<open>Formatting and parsing\<close>

lemma digits_val_simps [simp]:
  "a < 10 \<Longrightarrow> b < 10 \<Longrightarrow> digits_val [digit_byte a, digit_byte b] = 10 * a + b"
  "a < 10 \<Longrightarrow> b < 10 \<Longrightarrow> c < 10 \<Longrightarrow> d < 10 \<Longrightarrow>
   digits_val [digit_byte a, digit_byte b, digit_byte c, digit_byte d] = 1000 * a + 100 * b + 10 * c + d"
  by (simp_all add: digits_val_def)

lemma frac_bytes_length [simp]: "length (frac_bytes i v) = i"
  by (induction i arbitrary: v) auto

lemma frac_bytes_digits: "list_all is_digit (frac_bytes i v)"
  by (induction i arbitrary: v) auto

lemma digits_val_frac: "v < 10 ^ i \<Longrightarrow> digits_val (frac_bytes i v) = v"
proof (induction i arbitrary: v)
  case (Suc i)
  then have "v div 10 < 10 ^ i" by (simp add: less_mult_imp_div_less mult.commute)
  then show ?case using Suc.IH by (simp add: digits_val_def)
qed (simp add: digits_val_def)

text \<open>The nanoseconds that survive at a precision.\<close>

definition truncate_ns :: "TimestampPrecision \<Rightarrow> nat \<Rightarrow> nat" where
  "truncate_ns prec ns = ns - ns mod 10 ^ (9 - frac_digits prec)"

lemma four_digits:
  fixes n :: nat
  assumes "n < 10000"
  shows "1000 * (n div 1000 mod 10) + 100 * (n div 100 mod 10) + 10 * (n div 10 mod 10) + n mod 10 = n"
proof -
  have d: "n div 100 = n div 10 div 10" "n div 1000 = n div 10 div 10 div 10" by (simp_all add: div_mult2_eq [symmetric])
  have "n div 1000 < 10" using assms by (simp add: less_mult_imp_div_less)
  then have "n div 10 div 10 div 10 mod 10 = n div 10 div 10 div 10" unfolding d by (rule mod_less)
  then show ?thesis unfolding d
    using div_mult_mod_eq [of n 10] div_mult_mod_eq [of "n div 10" 10] div_mult_mod_eq [of "n div 10 div 10" 10] by linarith
qed

text \<open>The fixed layout of the first seventeen characters and of the fraction behind them.\<close>

definition stamp :: "nat \<Rightarrow> nat \<Rightarrow> nat \<Rightarrow> nat \<Rightarrow> nat \<Rightarrow> nat \<Rightarrow> bytes" where
  "stamp year mon day hour minute second =
     [digit_byte (year div 1000 mod 10), digit_byte (year div 100 mod 10), digit_byte (year div 10 mod 10), digit_byte (year mod 10),
      digit_byte (mon div 10), digit_byte (mon mod 10), digit_byte (day div 10), digit_byte (day mod 10), 45,
      digit_byte (hour div 10), digit_byte (hour mod 10), 58, digit_byte (minute div 10), digit_byte (minute mod 10), 58,
      digit_byte (second div 10), digit_byte (second mod 10)]"

lemma stamp_parts:
  assumes "year < 10000" "mon < 100" "day < 100" "hour < 100" "minute < 100" "second < 100"
  shows "length (stamp year mon day hour minute second @ fr) = 17 + length fr"
    "list_all is_digit (slice (stamp year mon day hour minute second @ fr) 0 8)"
    "digits_val (slice (stamp year mon day hour minute second @ fr) 0 4) = year"
    "digits_val (slice (stamp year mon day hour minute second @ fr) 4 2) = mon"
    "digits_val (slice (stamp year mon day hour minute second @ fr) 6 2) = day"
    "digits_val (slice (stamp year mon day hour minute second @ fr) 9 2) = hour"
    "digits_val (slice (stamp year mon day hour minute second @ fr) 12 2) = minute"
    "digits_val (slice (stamp year mon day hour minute second @ fr) 15 2) = second"
    "list_all is_digit (slice (stamp year mon day hour minute second @ fr) 9 2 @
       slice (stamp year mon day hour minute second @ fr) 12 2 @ slice (stamp year mon day hour minute second @ fr) 15 2)"
    "byte_at (stamp year mon day hour minute second @ fr) 8 = 45" "byte_at (stamp year mon day hour minute second @ fr) 11 = 58"
    "byte_at (stamp year mon day hour minute second @ fr) 14 = 58"
    "drop 18 (stamp year mon day hour minute second @ fr) = drop 1 fr"
    "byte_at (stamp year mon day hour minute second @ fr) 17 = byte_at fr 0"
  using assms four_digits [OF assms(1)]
  by (simp_all add: stamp_def slice_def byte_at_def less_mult_imp_div_less)

definition frac_part :: "TimestampPrecision \<Rightarrow> nat \<Rightarrow> nat" where
  "frac_part prec sub_ns = (if prec = kMilliseconds then sub_ns div 1000000 else if prec = kMicroseconds then sub_ns div 1000 else sub_ns)"

definition frac_suffix :: "TimestampPrecision \<Rightarrow> nat \<Rightarrow> bytes" where
  "frac_suffix prec sub_ns = (if prec = kSeconds then [] else 46 # frac_bytes (frac_digits prec) (frac_part prec sub_ns))"

lemma format_timestamp_stamp:
  assumes "civil_from_days (unat ns div 1000000000 div 86400) = (year, mon, day)"
  shows "format_timestamp ns prec =
    stamp year mon day (unat ns div 1000000000 mod 86400 div 3600) (unat ns div 1000000000 mod 86400 mod 3600 div 60)
      (unat ns div 1000000000 mod 86400 mod 60) @ frac_suffix prec (unat ns mod 1000000000)"
  unfolding format_timestamp_def Let_def assms stamp_def frac_suffix_def frac_part_def by (cases prec) simp_all

lemma frac_part_less:
  assumes "s < 1000000000" "prec \<noteq> kSeconds"
  shows "frac_part prec s < 10 ^ frac_digits prec"
  using assms by (cases prec) (simp_all add: frac_part_def less_mult_imp_div_less)

lemma frac_suffix_parse:
  assumes "s < 1000000000"
  shows "length (frac_suffix prec s) = (if prec = kSeconds then 0 else frac_digits prec + 1)"
    "list_all is_digit (drop 1 (frac_suffix prec s))"
    "prec \<noteq> kSeconds \<Longrightarrow> byte_at (frac_suffix prec s) 0 = 46"
    "prec \<noteq> kSeconds \<Longrightarrow> digits_val (drop 1 (frac_suffix prec s)) = frac_part prec s"
  using frac_part_less [OF assms, of prec] by (simp_all add: frac_suffix_def frac_bytes_digits digits_val_frac)

text \<open>Seconds, and what is left of the fraction at a precision, make up the truncated time.\<close>

lemma truncate_ns_split:
  "truncate_ns prec ns = ns div 1000000000 * 1000000000 + (ns mod 1000000000 - ns mod 1000000000 mod 10 ^ (9 - frac_digits prec))"
proof -
  have dv: "10 ^ (9 - frac_digits prec) dvd (1000000000 :: nat)" by (cases prec) simp_all
  have "ns mod 1000000000 mod 10 ^ (9 - frac_digits prec) = ns mod 10 ^ (9 - frac_digits prec)" by (rule mod_mod_cancel [OF dv])
  moreover have "ns mod 1000000000 mod 10 ^ (9 - frac_digits prec) \<le> ns mod 1000000000" by (rule mod_less_eq_dividend)
  ultimately show ?thesis using div_mult_mod_eq [of ns 1000000000] unfolding truncate_ns_def by linarith
qed

lemma day_split: "(s :: nat) div 86400 * 86400 + s mod 86400 div 3600 * 3600 + s mod 86400 mod 3600 div 60 * 60 + s mod 86400 mod 60 = s"
proof -
  have "s mod 86400 mod 3600 mod 60 = s mod 86400 mod 60" by (rule mod_mod_cancel) simp
  then show ?thesis using div_mult_mod_eq [of s 86400] div_mult_mod_eq [of "s mod 86400" 3600]
      div_mult_mod_eq [of "s mod 86400 mod 3600" 60] by linarith
qed

lemma epoch_bounds:
  fixes ns :: u64
  shows "unat ns div 1000000000 \<le> kMaxEpochSec" "unat ns div 1000000000 div 86400 < 213504"
    "unat ns div 1000000000 = kMaxEpochSec \<Longrightarrow> unat ns mod 1000000000 \<le> 2 ^ 64 - 1 - kMaxEpochSec * 1000000000"
proof -
  have le: "unat ns \<le> 2 ^ 64 - 1" using unsigned_less [of ns, where 'a = nat] by simp
  show a: "unat ns div 1000000000 \<le> kMaxEpochSec" unfolding kMaxEpochSec_def by (rule div_le_mono [OF le])
  then have "unat ns div 1000000000 < 213504 * 86400" by (simp add: kMaxEpochSec_def)
  then show "unat ns div 1000000000 div 86400 < 213504" by (rule less_mult_imp_div_less)
  show "unat ns mod 1000000000 \<le> 2 ^ 64 - 1 - kMaxEpochSec * 1000000000" if "unat ns div 1000000000 = kMaxEpochSec"
    using le div_mult_mod_eq [of "unat ns" 1000000000] unfolding that by linarith
qed

lemma parse_stamp:
  assumes "year < 10000" "date_ok year mon day" "hour < 24" "minute < 60" "second < 60" "s < 1000000000"
    and days: "days_from_civil year mon day = int days"
    and sec: "e = days * 86400 + hour * 3600 + minute * 60 + second" "e \<le> kMaxEpochSec"
    and frac: "f = s - s mod 10 ^ (9 - frac_digits prec)" "e = kMaxEpochSec \<Longrightarrow> f \<le> 2 ^ 64 - 1 - kMaxEpochSec * 1000000000"
  shows "parse_timestamp_value (stamp year mon day hour minute second @ frac_suffix prec s) = Some (of_nat (e * 1000000000 + f))"
proof -
  let ?fr = "frac_suffix prec s"
  have md: "mon \<le> 12" "1 \<le> mon" "1 \<le> day" "day \<le> 31" using assms(2) date_ok_31 [OF assms(2)] by (simp_all add: date_ok_def)
  have "mon < 100" "day < 100" "hour < 100" "minute < 100" "second < 100" using md assms(3-5) by simp_all
  note st = stamp_parts [OF assms(1) this, of ?fr]
  note fr = frac_suffix_parse [OF assms(6), of prec]
  have fl: "17 + length ?fr = 17 \<or> 17 + length ?fr = 21 \<or> 17 + length ?fr = 24 \<or> 17 + length ?fr = 27"
    unfolding fr(1) by (cases prec) simp_all
  have dot: "\<not> (17 < 17 + length ?fr \<and> byte_at ?fr 0 \<noteq> 46)" using fr(3) unfolding fr(1) by simp
  have "s div 1000000 * 1000000 = s - s mod 1000000" "s div 1000 * 1000 = s - s mod 1000" by (simp_all add: minus_mod_eq_div_mult)
  then have ns: "(if 17 + length ?fr - 18 = 3 then digits_val (drop 1 ?fr) * 1000000
       else if 17 + length ?fr - 18 = 6 then digits_val (drop 1 ?fr) * 1000
       else if 17 + length ?fr - 18 = 9 then digits_val (drop 1 ?fr) else 0) = f"
    using fr(4) assms(6) unfolding fr(1) frac(1) by (cases prec) (simp_all add: frac_part_def)
  have cal: "\<not> day > (if mon = 2 \<and> leap_year year then 29 else kDaysInMonth ! (mon - 1))"
    using assms(2) unfolding date_ok_def by linarith
  have lim: "\<not> e > kMaxEpochSec" "\<not> (e = kMaxEpochSec \<and> f > 2 ^ 64 - 1 - kMaxEpochSec * 1000000000)"
    using sec(2) frac(2) by auto
  have r: "nat (int days) = days" "\<not> int days < 0" by simp_all
  show ?thesis
    unfolding parse_timestamp_value_def Let_def st days ns r(1) sec(1) [symmetric]
    using fl dot cal lim st(2,9) fr(2) md assms(3-5) by auto
qed

lemma format_timestamp_no_SOH: "SOH \<notin> set (format_timestamp ns prec)"
proof -
  obtain year mon day where c: "civil_from_days (unat ns div 1000000000 div 86400) = (year, mon, day)" by (metis surj_pair)
  have "mon < 100" "day < 100" using civil_date_ok [OF c] date_ok_31 [OF civil_date_ok [OF c]] by (simp_all add: date_ok_def)
  then show ?thesis unfolding format_timestamp_stamp [OF c]
    by (auto simp: stamp_def frac_suffix_def less_mult_imp_div_less)
qed

text \<open>
  C30. Every time \<open>MessageBuilder::set_timestamp\<close> can be given, at every precision, is read back by
  \<open>parse_timestamp_value\<close> truncated to that precision, up to the last nanosecond of \<open>uint64_t\<close>: the
  civil-date formulas of the two sides are inverse to each other, leap days included, and none of the
  parser's calendar and overflow checks refuses what the builder writes.
\<close>

theorem timestamp_round_trip:
  "parse_timestamp_value (format_timestamp ns prec) = Some (of_nat (truncate_ns prec (unat ns)))"
proof -
  let ?e = "unat ns div 1000000000" and ?s = "unat ns mod 1000000000"
  obtain year mon day where c: "civil_from_days (?e div 86400) = (year, mon, day)" by (metis surj_pair)
  have h: "?e mod 86400 div 3600 < 24" "?e mod 86400 mod 3600 div 60 < 60" "?e mod 86400 mod 60 < 60" "?s < 1000000000"
    by (simp_all add: less_mult_imp_div_less)
  have "?s - ?s mod 10 ^ (9 - frac_digits prec) \<le> 2 ^ 64 - 1 - kMaxEpochSec * 1000000000" if "?e = kMaxEpochSec"
    using epoch_bounds(3) [OF that] by linarith
  from parse_stamp [OF year_small [OF c epoch_bounds(2)] civil_date_ok [OF c] h civil_round_trip [OF c]
      day_split [symmetric] epoch_bounds(1) refl this]
  show ?thesis unfolding format_timestamp_stamp [OF c] truncate_ns_split by blast
qed

end
