(* ===== verification/Fix_Wire.thy ===== *)
theory Fix_Wire
  imports Fix_Time
begin

text \<open>
  The wire image of a FIX message, and the writing side against it: the builder of \<open>Fix_Builder\<close> leaves
  exactly that image in its buffer or refuses, and never writes outside the buffer. The decimal loops of
  the readers are shown here to invert the formatter; what the readers make of a whole message is in
  \<open>Fix_Stream\<close>.
\<close>

section \<open>The loops read back what was formatted\<close>

lemma parse_tag_loop_uint:
  assumes "n < 2 ^ 32"
  shows "parse_tag_loop 0 (format_uint n @ rest) = parse_tag_loop (of_nat n) rest"
proof -
  have "parse_tag_loop (of_nat m) (digit_byte d # rest) = parse_tag_loop (of_nat (m * 10 + d)) rest"
    if "d < 10" "m * 10 + d \<le> 2 ^ 32 - 1" for m d rest
  proof -
    have u: "unat (of_nat m :: u32) = m" "unat (of_nat d :: u32) = d" using that by (simp_all add: unat_of_nat)
    have "\<not> (of_nat m :: u32) > kMaxTag" using that u by (simp add: word_less_nat_alt kMaxTag_def unat_div)
    moreover have "unat (of_nat m * 10 :: u32) = m * 10" using that u by (simp add: unat_word_ariths)
    moreover have "unat (0xFFFFFFFF - of_nat d :: u32) = 0xFFFFFFFF - d"
      using that u by (subst unat_sub) (simp_all add: word_le_nat_alt)
    ultimately have "\<not> (of_nat m * 10 :: u32) > 0xFFFFFFFF - of_nat d" using that by (simp add: word_less_nat_alt)
    with \<open>\<not> _ > kMaxTag\<close> show ?thesis using that(1) by (simp add: Let_def)
  qed
  from digits_loop [where f = "\<lambda>m. parse_tag_loop (of_nat m)" and lim = "2 ^ 32 - 1", OF this, of n rest] assms
  show ?thesis by simp
qed

lemma body_length_loop_uint: "n \<le> lim \<Longrightarrow> body_length_loop lim 0 (format_uint n @ rest) = body_length_loop lim n rest"
  by (rule digits_loop [where f = "body_length_loop lim"]) (auto simp: Let_def)

lemma framer_body_length_uint: "n \<le> lim \<Longrightarrow> framer_body_length lim 0 (format_uint n @ rest) = framer_body_length lim n rest"
  by (rule digits_loop [where f = "framer_body_length lim"]) (auto simp: Let_def)

lemma loose_tag_uint: "loose_tag (format_uint n) = of_nat n"
  unfolding loose_tag_def
  using digits_loop [where f = "\<lambda>m. foldl (\<lambda>tag c. if is_digit c then tag * 10 + ucast (c - 48) else tag) (of_nat m :: u32)"
      and lim = n and rest = "[]" and n = n]
  by simp

lemma parse_int_loop_uint:
  assumes "n \<le> unat limit"
  shows "parse_int_loop limit 0 (format_uint n @ rest) = parse_int_loop limit (of_nat n) rest"
proof -
  have "parse_int_loop limit (of_nat m) (digit_byte d # rest) = parse_int_loop limit (of_nat (m * 10 + d)) rest"
    if "d < 10" "m * 10 + d \<le> unat limit" for m d rest
  proof -
    have "m * 10 + d < 2 ^ 64" using that(2) unsigned_less [of limit, where 'a = nat] by simp
    then have u: "unat (of_nat m :: u64) = m" "unat (of_nat d :: u64) = d" by (simp_all add: unat_of_nat)
    have "unat (limit - of_nat d) = unat limit - d" using that u by (subst unat_sub) (simp_all add: word_le_nat_alt)
    then have "\<not> (of_nat m :: u64) > (limit - of_nat d) div 10"
      using that u by (simp add: word_less_nat_alt unat_div)
    then show ?thesis using that(1) by (simp add: Let_def)
  qed
  from digits_loop [where f = "\<lambda>m. parse_int_loop limit (of_nat m)" and lim = "unat limit", OF this, of n rest] assms
  show ?thesis by simp
qed

section \<open>Integers\<close>

text \<open>The number parser inverts the formatter on the whole of \<open>int64_t\<close>, its minimum included.\<close>

lemma parse_int_format_int:
  assumes "- (2 ^ 63) \<le> v" "v < 2 ^ 63"
  shows "parse_int (format_int v) = Some v"
proof (cases "v < 0")
  case True
  have n: "nat (- v) \<le> unat (0x8000000000000000 :: u64)" using assms(1) by simp
  have "sint (NOT (of_nat (nat (- v)) :: u64) + 1) = v"
  proof -
    have "NOT (of_nat (nat (- v)) :: u64) + 1 = - of_nat (nat (- v))" by (simp add: not_eq_complement)
    also have "\<dots> = of_int v" using True by (simp add: of_nat_nat)
    finally show ?thesis using assms by (simp add: signed_take_bit_int_eq_self_iff signed_of_int)
  qed
  then show ?thesis using True parse_int_loop_uint [OF n, of "[]"]
    by (simp add: parse_int_def format_int_def)
next
  case False
  have n: "nat v \<le> unat (0x7FFFFFFFFFFFFFFF :: u64)" using assms(2) by simp
  have "hd (format_uint (nat v)) \<noteq> 45"
    using format_uint_digits [of "hd (format_uint (nat v))" "nat v"] is_digit_not by auto
  moreover have "sint (of_nat (nat v) :: u64) = v"
    using False assms by (simp add: signed_take_bit_int_eq_self_iff signed_of_int)
  ultimately show ?thesis using False parse_int_loop_uint [OF n, of "[]"]
    by (simp add: parse_int_def format_int_def)
qed

section \<open>The wire image\<close>

fun field_bytes :: "u32 \<times> bytes \<Rightarrow> bytes" where
  "field_bytes (t, v) = format_uint (unat t) @ EQ_SIGN # v @ [SOH]"

definition body :: "(u32 \<times> bytes) list \<Rightarrow> bytes" where
  "body fs = concat (map field_bytes fs)"

definition fix_message :: "bytes \<Rightarrow> (u32 \<times> bytes) list \<Rightarrow> bytes" where
  "fix_message bs fs =
     (let hb = fix_header bs (length (body fs)) @ body fs in hb @ fix_trailer (compute_checksum hb))"

definition begin_ok :: "bytes \<Rightarrow> bool" where
  "begin_ok bs \<longleftrightarrow> bs \<noteq> [] \<and> length bs \<le> kMaxBeginString \<and> SOH \<notin> set bs \<and> 0 \<notin> set bs"

lemma body_simps [simp]: "body [] = []" "body (f # fs) = field_bytes f @ body fs" "body (fs @ gs) = body fs @ body gs"
  by (simp_all add: body_def)

lemma fix_trailer_length [simp]: "length (fix_trailer cs) = 7"
  by (simp add: fix_trailer_def ascii_def)

lemma fix_message_length: "length (fix_message bs fs) = length (fix_header bs (length (body fs))) + length (body fs) + 7"
  by (simp add: fix_message_def Let_def)

section \<open>The builder writes the wire image\<close>

text \<open>The builder's buffer behind the header reservation is the image of the fields set so far.\<close>

definition holds :: "(u32 \<times> bytes) list \<Rightarrow> MessageBuilder \<Rightarrow> bool" where
  "holds fs b \<longleftrightarrow> bl_inv b \<and> \<not> bl_overflow b \<and> \<not> bl_finished b \<and> bl_pos b = kHeaderReserve + length (body fs) \<and>
     slice (bl_buf b) kHeaderReserve (length (body fs)) = body fs \<and> bl_field_count b = length fs"

lemma holds_start: "kHeaderReserve \<le> length buf \<Longrightarrow> holds [] (mk_MessageBuilder (Some buf) (length buf))"
  by (simp add: holds_def mk_MessageBuilder_def bl_inv_def slice_def)

lemma set_trusted_holds:
  assumes "holds fs b"
  shows "set_trusted t v b = Some b' \<longleftrightarrow>
    (if bl_pos b + length (field_bytes (t, v)) \<le> bl_capacity b
     then b' = b\<lparr>bl_buf := take (bl_pos b) (bl_buf b) @ field_bytes (t, v) @ drop (bl_pos b + length (field_bytes (t, v))) (bl_buf b),
                 bl_pos := bl_pos b + length (field_bytes (t, v)), bl_field_count := bl_field_count b + 1\<rparr>
     else b' = (if bl_pos b + length (format_uint (unat t)) \<le> bl_capacity b \<and> length v \<le> bl_capacity b
                then b\<lparr>bl_buf := take (bl_pos b) (bl_buf b) @ format_uint (unat t) @ drop (bl_pos b + length (format_uint (unat t))) (bl_buf b),
                       bl_overflow := True\<rparr>
                else b\<lparr>bl_overflow := True\<rparr>))"
proof -
  have l: "bl_capacity b = length (bl_buf b)" "\<not> bl_overflow b" "\<not> bl_finished b"
    using assms by (simp_all add: holds_def bl_inv_def)
  then show ?thesis by (auto simp: set_trusted_def write_uint_def store_fits Let_def ac_simps)
qed

lemma set_trusted_extends:
  assumes "holds fs b" "set_trusted t v b = Some b'"
  shows "if bl_pos b + length (field_bytes (t, v)) \<le> bl_capacity b then holds (fs @ [(t, v)]) b' else bl_overflow b'"
    and "bl_capacity b' = bl_capacity b"
proof -
  have h: "bl_capacity b = length (bl_buf b)" "bl_pos b = kHeaderReserve + length (body fs)"
    "slice (bl_buf b) kHeaderReserve (length (body fs)) = body fs" using assms(1) by (simp_all add: holds_def bl_inv_def)
  note eq = assms(2) [unfolded set_trusted_holds [OF assms(1)]]
  show "bl_capacity b' = bl_capacity b" using eq by (auto split: if_splits)
  have "drop kHeaderReserve (take (bl_pos b) (bl_buf b)) = body fs" using h(2,3) by (simp add: slice_def take_drop add.commute)
  then have "holds (fs @ [(t, v)]) b'" if "bl_pos b + length (field_bytes (t, v)) \<le> bl_capacity b"
    using that eq assms(1) h by (auto simp: holds_def bl_inv_def slice_def)
  then show "if bl_pos b + length (field_bytes (t, v)) \<le> bl_capacity b then holds (fs @ [(t, v)]) b' else bl_overflow b'"
    using eq by (auto split: if_splits)
qed

lemma bl_finish_holds:
  assumes h: "holds fs b"
  shows "\<exists>n b'. bl_finish bs b = Some (n, b') \<and>
    (if begin_ok bs \<and> length (fix_header bs (length (body fs))) \<le> kHeaderReserve \<and> bl_pos b + kTrailerLen \<le> bl_capacity b
     then n = length (fix_message bs fs) \<and> as_span b' = fix_message bs fs \<and> \<not> bl_overflow b'
     else n = 0 \<and> bl_overflow b')"
proof -
  let ?hd = "fix_header bs (length (body fs))"
  let ?o = "kHeaderReserve - length ?hd"
  have c: "bl_capacity b = length (bl_buf b)" "bl_pos b = kHeaderReserve + length (body fs)" "bl_body_start b = kHeaderReserve"
    "drop kHeaderReserve (take (bl_pos b) (bl_buf b)) = body fs" "\<not> bl_overflow b" "bl_pos b \<le> bl_capacity b"
    using h by (auto simp: holds_def bl_inv_def slice_def take_drop add.commute)
  show ?thesis
  proof (cases "begin_ok bs \<and> length ?hd \<le> kHeaderReserve")
    case False
    then show ?thesis using c by (auto simp: bl_finish_def begin_ok_def Let_def)
  next
    case True
    define m where "m = take ?o (bl_buf b) @ ?hd @ drop kHeaderReserve (bl_buf b)"
    have st: "store ?o ?hd (bl_buf b) = Some m" using True c by (simp add: store_fits m_def)
    have ml: "length m = bl_capacity b" using True c by (simp add: m_def)
    have hb: "slice m ?o (bl_pos b - ?o) = ?hd @ body fs"
    proof -
      have "slice m ?o (bl_pos b - ?o) = take (bl_pos b - ?o) (?hd @ drop kHeaderReserve (bl_buf b))"
        using True c by (simp add: m_def slice_def)
      also have "\<dots> = ?hd @ take (length (body fs)) (drop kHeaderReserve (bl_buf b))" using True c by simp
      also have "\<dots> = ?hd @ body fs" using c by (simp add: take_drop add.commute)
      finally show ?thesis .
    qed
    have b: "begin_string \<noteq> []" if "begin_string = bs" for begin_string using True that by (simp add: begin_ok_def)
    have cs: "ucast (checksum_sum (slice m ?o (bl_pos b - ?o)) AND 0xFF) = compute_checksum (?hd @ body fs)"
      by (simp add: hb compute_checksum_def)
    show ?thesis
    proof (cases "bl_pos b + kTrailerLen \<le> bl_capacity b")
      case False
      then show ?thesis using True c st by (auto simp: bl_finish_def begin_ok_def Let_def)
    next
      case room: True
      let ?tr = "fix_trailer (compute_checksum (?hd @ body fs))"
      define m' where "m' = take (bl_pos b) m @ ?tr @ drop (bl_pos b + 7) m"
      have st': "store (bl_pos b) ?tr m = Some m'" using room ml by (simp add: store_fits m'_def kTrailerLen_def)
      have im: "slice m' ?o (length (fix_message bs fs)) = fix_message bs fs"
      proof -
        have "slice m' ?o (length (fix_message bs fs)) = take (length (fix_message bs fs)) (drop ?o (take (bl_pos b) m) @ ?tr @ drop (bl_pos b + 7) m)"
          using c ml by (simp add: slice_def m'_def)
        moreover have "drop ?o (take (bl_pos b) m) = ?hd @ body fs" using hb c by (simp add: slice_def drop_take)
        ultimately show ?thesis by (simp add: fix_message_def Let_def)
      qed
      have tot: "bl_pos b + kTrailerLen - ?o = length (fix_message bs fs)"
        using True c by (simp add: fix_message_length kTrailerLen_def)
      have "?o = 0 \<Longrightarrow> take (length (fix_message bs fs)) m' = fix_message bs fs" using im by (simp add: slice_def)
      then show ?thesis using True c st st' room tot im cs
        by (auto simp: bl_finish_def begin_ok_def Let_def as_span_def)
    qed
  qed
qed

section \<open>Duplicate tags\<close>

lemma takeWhile_dropWhile_field [simp]:
  "x \<notin> set xs \<Longrightarrow> takeWhile (\<lambda>c. c \<noteq> x) (xs @ x # ys) = xs" "x \<notin> set xs \<Longrightarrow> dropWhile (\<lambda>c. c \<noteq> x) (xs @ x # ys) = x # ys"
  by (induction xs) auto

lemma format_uint_inj: "format_uint m = format_uint n \<Longrightarrow> m = n"
proof -
  assume a: "format_uint m = format_uint n"
  have v: "foldl (\<lambda>v c. v * 10 + unat (c - 48)) 0 (format_uint k) = k" for k
    by (rule digits_loop [where f = "foldl (\<lambda>v c. v * 10 + unat (c - 48))" and lim = k and rest = "[]", unfolded append_Nil2 foldl_Nil]) simp_all
  show ?thesis using v a by metis
qed

lemma scan_tag_body:
  "\<forall>f \<in> set fs. SOH \<notin> set (snd f) \<Longrightarrow> scan_tag (format_uint (unat t)) (body fs) \<longleftrightarrow> t \<in> fst ` set fs"
proof (induction fs)
  case (Cons f fs)
  obtain u v where f: "f = (u, v)" by (metis surj_pair)
  have v: "SOH \<notin> set v" using Cons.prems f by simp
  have "scan_tag (format_uint (unat t)) (body (f # fs)) \<longleftrightarrow>
      format_uint (unat u) = format_uint (unat t) \<or> scan_tag (format_uint (unat t)) (body fs)"
    by (subst scan_tag.simps) (simp add: f v Let_def)
  moreover have "format_uint (unat u) = format_uint (unat t) \<longleftrightarrow> t = u" using format_uint_inj unsigned_word_eqI by metis
  ultimately show ?case using Cons f by auto
qed (simp add: scan_tag.simps)

lemma has_tag_holds:
  assumes "holds fs b" "\<forall>f \<in> set fs. SOH \<notin> set (snd f)"
  shows "has_tag t b \<longleftrightarrow> t \<in> fst ` set fs"
proof (cases fs)
  case Nil
  then show ?thesis using assms(1) by (auto simp: holds_def has_tag_def bl_inv_def)
next
  case (Cons f gs)
  then have "0 < length (body fs)" by (cases f) simp
  then show ?thesis using assms(1) scan_tag_body [OF assms(2), of t] by (auto simp: holds_def has_tag_def bl_inv_def)
qed

section \<open>Whole messages\<close>

text \<open>The public setters as data, the value each writes, and a message as a sequence of calls.\<close>

datatype setter =
    Set u32 bytes | Set_int u32 int | Set_raw u32 "bytes option" | Set_bool u32 bool | Set_char u32 u8
  | Set_timestamp u32 u64 TimestampPrecision | Set_decimal u32 bytes | Set_price u32 int nat | Begin_group u32 u64

datatype setter_call = Plain setter | Unique setter

fun run_setter :: "setter \<Rightarrow> MessageBuilder \<Rightarrow> MessageBuilder option" where
  "run_setter (Set t v) = set_field t v"
| "run_setter (Set_int t v) = set_int t v"
| "run_setter (Set_raw t v) = set_raw t v"
| "run_setter (Set_bool t v) = set_bool t v"
| "run_setter (Set_char t v) = set_char t v"
| "run_setter (Set_timestamp t v p) = set_timestamp t v p"
| "run_setter (Set_decimal t v) = set_decimal t v"
| "run_setter (Set_price t v d) = set_price t v d"
| "run_setter (Begin_group t v) = begin_group t v"

fun setter_tag :: "setter \<Rightarrow> u32" where
  "setter_tag (Set t v) = t"
| "setter_tag (Set_int t v) = t"
| "setter_tag (Set_raw t v) = t"
| "setter_tag (Set_bool t v) = t"
| "setter_tag (Set_char t v) = t"
| "setter_tag (Set_timestamp t v p) = t"
| "setter_tag (Set_decimal t v) = t"
| "setter_tag (Set_price t v d) = t"
| "setter_tag (Begin_group t v) = t"

text \<open>The value a setter is for, \<open>None\<close> when it must be refused.\<close>

fun setter_value :: "setter \<Rightarrow> bytes option" where
  "setter_value (Set t v) = (if SOH \<in> set v then None else Some v)"
| "setter_value (Set_int t v) = Some (format_int v)"
| "setter_value (Set_raw t v) = (case v of None \<Rightarrow> Some [] | Some d \<Rightarrow> if SOH \<in> set d then None else Some d)"
| "setter_value (Set_bool t v) = Some (ascii (if v then ''Y'' else ''N''))"
| "setter_value (Set_char t v) = (if v = SOH then None else Some [v])"
| "setter_value (Set_timestamp t v p) = Some (format_timestamp v p)"
| "setter_value (Set_decimal t v) =
     (let digits = (if v \<noteq> [] \<and> hd v = 45 then tl v else v) in if digits \<noteq> [] \<and> decimal_ok False False digits then Some v else None)"
| "setter_value (Set_price t v d) = Some (if d = 0 then format_int v else format_price v (min d 18))"
| "setter_value (Begin_group t v) = Some (format_int (sint v))"

fun run_call :: "setter_call \<Rightarrow> MessageBuilder \<Rightarrow> MessageBuilder option" where
  "run_call (Plain s) b = run_setter s b"
| "run_call (Unique s) b = set_unique (\<lambda>_ _. run_setter s) (setter_tag s) () b"

fun run_calls :: "setter_call list \<Rightarrow> MessageBuilder \<Rightarrow> MessageBuilder option" where
  "run_calls [] b = Some b"
| "run_calls (c # cs) b = Option.bind (run_call c b) (run_calls cs)"

definition fix_build :: "bytes option \<Rightarrow> nat \<Rightarrow> setter_call list \<Rightarrow> bytes \<Rightarrow> (nat \<times> MessageBuilder) option" where
  "fix_build buf capacity calls bs = Option.bind (run_calls calls (mk_MessageBuilder buf capacity)) (bl_finish bs)"

text \<open>The specification: the fields a sequence of calls is for, \<open>None\<close> when one of them must be refused.\<close>

fun call_field :: "(u32 \<times> bytes) list \<Rightarrow> setter_call \<Rightarrow> (u32 \<times> bytes) option" where
  "call_field fs (Plain s) = map_option (Pair (setter_tag s)) (setter_value s)"
| "call_field fs (Unique s) =
     (if setter_tag s \<in> fst ` set fs then None else map_option (Pair (setter_tag s)) (setter_value s))"

fun build_fields :: "setter_call list \<Rightarrow> (u32 \<times> bytes) list \<Rightarrow> (u32 \<times> bytes) list option" where
  "build_fields [] fs = Some fs"
| "build_fields (c # cs) fs = Option.bind (call_field fs c) (\<lambda>f. build_fields cs (fs @ [f]))"

lemma run_setter_value:
  assumes "\<not> bl_overflow b"
  shows "run_setter s b = (case setter_value s of None \<Rightarrow> Some (b\<lparr>bl_overflow := True\<rparr>) | Some v \<Rightarrow> set_trusted (setter_tag s) v b)"
  using assms
  by (cases s) (auto simp: set_field_def set_int_def set_raw_def set_bool_def set_char_def set_timestamp_def set_decimal_def
      set_price_def begin_group_def Let_def split: option.splits)

lemma run_setter_overflow:
  assumes "bl_overflow b"
  shows "run_setter s b = Some b"
  using assms
  by (cases s) (auto simp: set_field_def set_int_def set_raw_def set_bool_def set_char_def set_timestamp_def set_decimal_def
      set_price_def begin_group_def set_trusted_def Let_def split: option.splits)

lemma run_calls_overflow: "bl_overflow b \<Longrightarrow> run_calls cs b = Some b"
proof (induction cs)
  case (Cons c cs)
  have "run_call c b = Some b" using Cons.prems by (cases c) (simp_all add: run_setter_overflow set_unique_def has_tag_def)
  with Cons show ?case by simp
qed simp

text \<open>No setter lets a delimiter into a value.\<close>

lemma setter_value_no_SOH: "setter_value s = Some v \<Longrightarrow> SOH \<notin> set v"
proof (cases s)
  case (Set_decimal t d)
  moreover have "SOH \<notin> set d" if "decimal_ok False False (if d \<noteq> [] \<and> hd d = 45 then tl d else d)"
    using decimal_ok_no_SOH [OF that] by (cases d) (auto split: if_splits)
  moreover assume "setter_value s = Some v"
  ultimately show ?thesis by (auto simp: Let_def split: if_splits)
qed (auto simp: format_timestamp_no_SOH format_price_def ascii_def Let_def split: if_splits option.splits)

definition clean :: "(u32 \<times> bytes) list \<Rightarrow> bool" where
  "clean fs \<longleftrightarrow> (\<forall>f \<in> set fs. SOH \<notin> set (snd f))"

lemma call_field_no_SOH: "call_field fs c = Some f \<Longrightarrow> SOH \<notin> set (snd f)"
  using setter_value_no_SOH by (cases c) (auto split: if_splits)

lemma run_call_holds:
  assumes h: "holds fs b" "clean fs"
  shows "\<exists>b'. run_call c b = Some b' \<and> bl_capacity b' = bl_capacity b \<and>
    (case call_field fs c of
       None \<Rightarrow> bl_overflow b'
     | Some f \<Rightarrow> if kHeaderReserve + length (body (fs @ [f])) \<le> bl_capacity b then holds (fs @ [f]) b' else bl_overflow b')"
proof -
  obtain s where s: "c = Plain s \<or> c = Unique s" by (cases c) auto
  have ov: "\<not> bl_overflow b" and inv: "bl_inv b" and pos: "bl_pos b = kHeaderReserve + length (body fs)"
    using h(1) by (simp_all add: holds_def)
  have tag: "has_tag (setter_tag s) b \<longleftrightarrow> setter_tag s \<in> fst ` set fs" using has_tag_holds [OF h(1)] h(2) by (simp add: clean_def)
  show ?thesis
  proof (cases "call_field fs c")
    case None
    then have "run_call c b = Some (b\<lparr>bl_overflow := True\<rparr>)"
      using s tag by (auto simp: set_unique_def run_setter_value [OF ov] split: if_splits)
    then show ?thesis using None by simp
  next
    case (Some f)
    then obtain v where v: "f = (setter_tag s, v)" "setter_value s = Some v" using s by (auto split: if_splits)
    have "run_call c b = set_trusted (setter_tag s) v b"
    proof -
      have "\<not> has_tag (setter_tag s) b" if "c = Unique s" using Some that unfolding tag by (auto split: if_splits)
      with s show ?thesis by (auto simp: set_unique_def run_setter_value [OF ov] v(2))
    qed
    moreover obtain b' where b': "set_trusted (setter_tag s) v b = Some b'" using set_trusted_safe [OF inv] by blast
    ultimately show ?thesis using Some set_trusted_extends [OF h(1) b'] by (simp add: v(1) pos add.assoc)
  qed
qed

lemma build_fields_length: "build_fields cs fs = Some fs' \<Longrightarrow> length (body fs) \<le> length (body fs') \<and> length fs' = length fs + length cs"
proof (induction cs arbitrary: fs)
  case (Cons c cs)
  then obtain f where "build_fields cs (fs @ [f]) = Some fs'" by (auto simp: bind_eq_Some_conv)
  from Cons.IH [OF this] show ?case by simp
qed simp

lemma build_fields_clean: "build_fields cs fs = Some fs' \<Longrightarrow> clean fs \<Longrightarrow> clean fs'"
proof (induction cs arbitrary: fs)
  case (Cons c cs)
  then obtain f where f: "build_fields cs (fs @ [f]) = Some fs'" "call_field fs c = Some f" by (auto simp: bind_eq_Some_conv)
  have "clean (fs @ [f])" using Cons.prems(2) call_field_no_SOH [OF f(2)] by (auto simp: clean_def)
  with f(1) show ?case by (rule Cons.IH)
qed simp

lemma run_calls_holds:
  assumes "holds fs b" "clean fs"
  shows "\<exists>b'. run_calls cs b = Some b' \<and> bl_capacity b' = bl_capacity b \<and>
    (case build_fields cs fs of
       Some fs' \<Rightarrow> if kHeaderReserve + length (body fs') \<le> bl_capacity b then holds fs' b' else bl_overflow b'
     | None \<Rightarrow> bl_overflow b')"
  using assms
proof (induction cs arbitrary: fs b)
  case Nil
  then have "kHeaderReserve + length (body fs) \<le> bl_capacity b" by (auto simp: holds_def bl_inv_def)
  then show ?case using Nil by simp
next
  case (Cons c cs)
  obtain b' where b': "run_call c b = Some b'" "bl_capacity b' = bl_capacity b"
    "case call_field fs c of None \<Rightarrow> bl_overflow b'
     | Some f \<Rightarrow> if kHeaderReserve + length (body (fs @ [f])) \<le> bl_capacity b then holds (fs @ [f]) b' else bl_overflow b'"
    using run_call_holds [OF Cons.prems] by blast
  show ?case
  proof (cases "\<exists>f. call_field fs c = Some f \<and> holds (fs @ [f]) b'")
    case True
    then obtain f where f: "call_field fs c = Some f" "holds (fs @ [f]) b'" by blast
    have "clean (fs @ [f])" using Cons.prems(2) call_field_no_SOH [OF f(1)] by (auto simp: clean_def)
    from Cons.IH [OF f(2) this, unfolded b'(2)] show ?thesis unfolding run_calls.simps build_fields.simps b'(1) f(1) Option.bind.bind_lunit .
  next
    case False
    then have ov: "bl_overflow b'" "call_field fs c = Some f \<Longrightarrow> bl_capacity b < kHeaderReserve + length (body (fs @ [f]))" for f
      using b'(3) by (auto split: option.splits if_splits)
    have "bl_capacity b < kHeaderReserve + length (body fs')" if built: "build_fields (c # cs) fs = Some fs'" for fs'
    proof -
      obtain f where "call_field fs c = Some f" "build_fields cs (fs @ [f]) = Some fs'" using built by (auto simp: bind_eq_Some_conv)
      with ov(2) build_fields_length [of cs "fs @ [f]" fs'] show ?thesis by fastforce
    qed
    then show ?thesis using b'(1,2) run_calls_overflow [OF ov(1)] ov(1) by (auto split: option.splits)
  qed
qed

lemma fix_build_exact:
  "\<exists>n b. fix_build (Some buf) (length buf) calls bs = Some (n, b) \<and>
     (case build_fields calls [] of
        Some fs \<Rightarrow>
          if begin_ok bs \<and> length (fix_header bs (length (body fs))) \<le> kHeaderReserve \<and>
             kHeaderReserve + length (body fs) + kTrailerLen \<le> length buf
          then n = length (fix_message bs fs) \<and> as_span b = fix_message bs fs
          else n = 0
      | None \<Rightarrow> n = 0)"
proof (cases "kHeaderReserve \<le> length buf")
  case False
  then have "bl_overflow (mk_MessageBuilder (Some buf) (length buf))" by (simp add: mk_MessageBuilder_def)
  then have "fix_build (Some buf) (length buf) calls bs = Some (0, mk_MessageBuilder (Some buf) (length buf))"
    by (simp add: fix_build_def run_calls_overflow bl_finish_def)
  then show ?thesis using False by (auto split: option.splits)
next
  case True
  let ?b = "mk_MessageBuilder (Some buf) (length buf)"
  have cap: "bl_capacity ?b = length buf" by (simp add: mk_MessageBuilder_def Let_def)
  obtain b where b: "run_calls calls ?b = Some b" "bl_capacity b = length buf"
    "case build_fields calls [] of
       Some fs' \<Rightarrow> if kHeaderReserve + length (body fs') \<le> length buf then holds fs' b else bl_overflow b
     | None \<Rightarrow> bl_overflow b"
    using run_calls_holds [OF holds_start [OF True], of calls] unfolding cap by (auto simp: clean_def)
  have ov: ?thesis if "bl_overflow b" "\<And>fs. build_fields calls [] = Some fs \<Longrightarrow> length buf < kHeaderReserve + length (body fs)"
    using b(1) that by (force simp: fix_build_def bl_finish_def split: option.splits)
  show ?thesis
  proof (cases "build_fields calls []")
    case None
    then show ?thesis using ov b(3) by simp
  next
    case (Some fs)
    show ?thesis
    proof (cases "kHeaderReserve + length (body fs) \<le> length buf")
      case True
      then have h: "holds fs b" using b(3) Some by simp
      then have "bl_pos b = kHeaderReserve + length (body fs)" by (simp add: holds_def)
      with bl_finish_holds [OF h, of bs] b(2) obtain n b' where "bl_finish bs b = Some (n, b')"
        "if begin_ok bs \<and> length (fix_header bs (length (body fs))) \<le> kHeaderReserve \<and> kHeaderReserve + length (body fs) + kTrailerLen \<le> length buf
         then n = length (fix_message bs fs) \<and> as_span b' = fix_message bs fs \<and> \<not> bl_overflow b' else n = 0 \<and> bl_overflow b'"
        by auto
      then show ?thesis using b(1) Some
        by (intro exI [of _ n] exI [of _ b']) (simp add: fix_build_def split: if_splits)
    qed (use ov b(3) Some in simp)
  qed
qed

text \<open>
  C28. For every buffer and every sequence of calls of the public setters followed by \<open>finish\<close>, no store
  leaves the buffer, and the outcome is all or nothing. When every call is acceptable (no delimiter in a
  value, a well-formed decimal, no tag twice behind a \<open>_unique\<close> setter), the version string is legal, the
  header fits its reservation and the message with its trailer fits the buffer, the span returned is
  exactly the wire image of the fields in the order of the calls; otherwise \<open>finish\<close> returns zero.
\<close>

theorem fix_builder_exact:
  "\<exists>n b. fix_build (Some buf) (length buf) calls bs = Some (n, b) \<and>
     (case build_fields calls [] of
        Some fs \<Rightarrow>
          if begin_ok bs \<and> length (fix_header bs (length (body fs))) \<le> kHeaderReserve \<and>
             kHeaderReserve + length (body fs) + kTrailerLen \<le> length buf
          then n = length (fix_message bs fs) \<and> as_span b = fix_message bs fs
          else n = 0
      | None \<Rightarrow> n = 0)"
  by (rule fix_build_exact)

section \<open>Memory safety of a builder in use\<close>

datatype builder_op = Call setter_call | Finish bytes | Reset

fun builder_step :: "builder_op \<Rightarrow> MessageBuilder \<Rightarrow> MessageBuilder option" where
  "builder_step (Call c) b = run_call c b"
| "builder_step (Finish bs) b = map_option snd (bl_finish bs b)"
| "builder_step Reset b = Some (bl_reset b)"

fun builder_run :: "builder_op list \<Rightarrow> MessageBuilder \<Rightarrow> MessageBuilder option" where
  "builder_run [] b = Some b"
| "builder_run (x # xs) b = Option.bind (builder_step x b) (builder_run xs)"

lemma bl_finish_safe:
  assumes "bl_inv b"
  shows "\<exists>n b'. bl_finish bs b = Some (n, b') \<and> bl_inv b'"
proof (cases "bl_overflow b")
  case True
  then show ?thesis using assms by (simp add: bl_finish_def)
next
  case False
  have c: "bl_capacity b = length (bl_buf b)" "bl_body_start b = kHeaderReserve" "kHeaderReserve \<le> bl_pos b" "bl_pos b \<le> length (bl_buf b)"
    using assms False by (auto simp: bl_inv_def)
  let ?h = "fix_header bs (bl_pos b - kHeaderReserve)"
  let ?o = "kHeaderReserve - length ?h"
  show ?thesis
  proof (cases "length bs > kMaxBeginString \<or> bs = [] \<or> (\<exists>c \<in> set bs. c = SOH \<or> c = 0) \<or> length ?h > kHeaderReserve")
    case True
    then have "bl_finish bs b = Some (0, b\<lparr>bl_overflow := True\<rparr>)" using False c by (auto simp: bl_finish_def Let_def)
    then show ?thesis using bl_inv_overflow [OF assms] by blast
  next
    case ok: False
    obtain m where m: "store ?o ?h (bl_buf b) = Some m" "length m = length (bl_buf b)"
    proof
      show st: "store ?o ?h (bl_buf b) = Some (take ?o (bl_buf b) @ ?h @ drop (?o + length ?h) (bl_buf b))"
        using ok c by (intro store_fits) linarith
      show "length (take ?o (bl_buf b) @ ?h @ drop (?o + length ?h) (bl_buf b)) = length (bl_buf b)" by (rule store_length [OF st])
    qed
    define cs :: u8 where "cs = ucast (checksum_sum (slice m ?o (bl_pos b - ?o)) AND 0xFF)"
    have fin: "bl_finish bs b =
        (if bl_pos b + kTrailerLen > bl_capacity b then Some (0, b\<lparr>bl_buf := m, bl_overflow := True\<rparr>)
         else case store (bl_pos b) (fix_trailer cs) m of
           None \<Rightarrow> None
         | Some m \<Rightarrow>
             let pos = bl_pos b + kTrailerLen; total = pos - ?o; m = (if ?o > 0 then slice m ?o total @ drop total m else m) in
             Some (total, b\<lparr>bl_buf := m, bl_pos := pos, bl_total_len := total, bl_finished := True\<rparr>))"
      using False ok c m(1) by (simp add: bl_finish_def cs_def Let_def)
    show ?thesis
    proof (cases "bl_pos b + kTrailerLen > bl_capacity b")
      case True
      then show ?thesis unfolding fin using c m(2) by (simp add: bl_inv_def)
    next
      case room: False
      obtain m' where m': "store (bl_pos b) (fix_trailer cs) m = Some m'" "length m' = length (bl_buf b)"
      proof
        show st: "store (bl_pos b) (fix_trailer cs) m = Some (take (bl_pos b) m @ fix_trailer cs @ drop (bl_pos b + length (fix_trailer cs)) m)"
          using room c(1) m(2) by (intro store_fits) (simp add: kTrailerLen_def)
        show "length (take (bl_pos b) m @ fix_trailer cs @ drop (bl_pos b + length (fix_trailer cs)) m) = length (bl_buf b)"
          unfolding store_length [OF st] by (rule m(2))
      qed
      have "bl_pos b + kTrailerLen - ?o \<le> length m'" using room c m'(2) by simp
      then have "length (slice m' ?o (bl_pos b + kTrailerLen - ?o) @ drop (bl_pos b + kTrailerLen - ?o) m') = length (bl_buf b)"
        using m'(2) room c by simp
      then show ?thesis unfolding fin using room c m' by (simp add: bl_inv_def Let_def)
    qed
  qed
qed

lemma run_call_safe:
  assumes "bl_inv b"
  shows "\<exists>b'. run_call c b = Some b' \<and> bl_inv b'"
proof -
  have s: "\<exists>b'. run_setter s b = Some b' \<and> bl_inv b'" for s
    using assms set_trusted_safe [OF assms] bl_inv_overflow [OF assms]
    by (cases "bl_overflow b") (auto simp: run_setter_overflow run_setter_value split: option.splits)
  show ?thesis using s bl_inv_overflow [OF assms] by (cases c) (auto simp: set_unique_def)
qed

lemma mk_MessageBuilder_inv: "bl_inv (mk_MessageBuilder (Some buf) (length buf))"
  by (simp add: mk_MessageBuilder_def bl_inv_def Let_def)

lemma run_call_capacity: "run_call c b = Some b' \<Longrightarrow> bl_capacity b' = bl_capacity b"
proof -
  have t: "set_trusted t v b = Some b' \<Longrightarrow> bl_capacity b' = bl_capacity b" for t v b'
    by (auto simp: set_trusted_def write_uint_def Let_def split: if_splits option.splits)
  have "run_setter s b = Some b' \<Longrightarrow> bl_capacity b' = bl_capacity b" for s b'
    using t by (cases "bl_overflow b") (auto simp: run_setter_overflow run_setter_value split: option.splits)
  then show "run_call c b = Some b' \<Longrightarrow> bl_capacity b' = bl_capacity b" by (cases c) (auto simp: set_unique_def split: if_splits)
qed

lemma bl_finish_capacity: "bl_finish bs b = Some (n, b') \<Longrightarrow> bl_capacity b' = bl_capacity b"
  unfolding bl_finish_def Let_def by (auto split: if_splits option.splits)

lemma builder_step_safe:
  assumes "bl_inv b" "x = Reset \<Longrightarrow> kHeaderReserve \<le> bl_capacity b"
  shows "\<exists>b'. builder_step x b = Some b' \<and> bl_inv b' \<and> bl_capacity b' = bl_capacity b"
proof (cases x)
  case (Call c)
  then show ?thesis using run_call_safe [OF assms(1), of c] run_call_capacity by auto
next
  case (Finish bs)
  then show ?thesis using bl_finish_safe [OF assms(1), of bs] bl_finish_capacity by fastforce
next
  case Reset
  then show ?thesis using assms by (auto simp: bl_reset_def bl_inv_def)
qed

lemma builder_run_safe:
  "bl_inv b \<Longrightarrow> Reset \<in> set xs \<Longrightarrow> kHeaderReserve \<le> bl_capacity b \<Longrightarrow> \<exists>b'. builder_run xs b = Some b'"
  "bl_inv b \<Longrightarrow> Reset \<notin> set xs \<Longrightarrow> \<exists>b'. builder_run xs b = Some b'"
proof -
  have "\<exists>b'. builder_run xs b = Some b'" if "bl_inv b" "Reset \<in> set xs \<longrightarrow> kHeaderReserve \<le> bl_capacity b" for b
    using that
  proof (induction xs arbitrary: b)
    case (Cons x xs)
    then have "x = Reset \<Longrightarrow> kHeaderReserve \<le> bl_capacity b" by simp
    from builder_step_safe [OF Cons.prems(1) this] obtain b' where
      b': "builder_step x b = Some b'" "bl_inv b'" "bl_capacity b' = bl_capacity b" by blast
    have "Reset \<in> set xs \<longrightarrow> kHeaderReserve \<le> bl_capacity b'" using Cons.prems(2) b'(3) by simp
    from Cons.IH [OF b'(2) this] show ?case using b'(1) by simp
  qed simp
  then show "bl_inv b \<Longrightarrow> Reset \<in> set xs \<Longrightarrow> kHeaderReserve \<le> bl_capacity b \<Longrightarrow> \<exists>b'. builder_run xs b = Some b'"
    "bl_inv b \<Longrightarrow> Reset \<notin> set xs \<Longrightarrow> \<exists>b'. builder_run xs b = Some b'" by blast+
qed

text \<open>
  C29. A builder never writes outside its buffer, whatever is called on it and in whatever order: setters
  after \<open>finish\<close>, \<open>finish\<close> twice, reuse after \<open>reset\<close>. This needs the buffer to hold the header reservation
  only where \<open>reset\<close> is called: the constructor refuses a smaller buffer by setting the overflow flag, and
  \<open>reset\<close> clears that flag. For a smaller buffer the sequence reset and \<open>finish\<close> does write outside it,
  with every legal version string of up to 25 characters.
\<close>

theorem fix_builder_memory_safe:
  "(kHeaderReserve \<le> length buf \<or> Reset \<notin> set ops \<longrightarrow>
     builder_run ops (mk_MessageBuilder (Some buf) (length buf)) \<noteq> None) \<and>
   (length buf < kHeaderReserve \<and> begin_ok bs \<and> length bs \<le> 25 \<longrightarrow>
     builder_run [Reset, Finish bs] (mk_MessageBuilder (Some buf) (length buf)) = None)"
proof (intro conjI impI; (elim conjE)?)
  let ?b = "mk_MessageBuilder (Some buf) (length buf)"
  have cap: "bl_capacity ?b = length buf" by (simp add: mk_MessageBuilder_def Let_def)
  show "builder_run ops ?b \<noteq> None" if "kHeaderReserve \<le> length buf \<or> Reset \<notin> set ops"
    using builder_run_safe [OF mk_MessageBuilder_inv, of ops buf] that unfolding cap by auto
  show "builder_run [Reset, Finish bs] ?b = None" if s: "length buf < kHeaderReserve" "begin_ok bs" "length bs \<le> 25"
  proof -
    have buf: "bl_buf (bl_reset ?b) = buf" by (simp add: bl_reset_def mk_MessageBuilder_def Let_def)
    have "length (fix_header bs 0) = length bs + 7" by (simp add: fix_header_def ascii_def format_uint_def)
    then have h: "length (fix_header bs 0) \<le> kHeaderReserve" using s(3) by (simp add: kHeaderReserve_def)
    then have "store (kHeaderReserve - length (fix_header bs 0)) (fix_header bs 0) buf = None" using s(1) by (simp add: store_def)
    then have "bl_finish bs (bl_reset ?b) = None" using s(2) h buf
      by (auto simp: bl_finish_def begin_ok_def bl_reset_def Let_def)
    then show ?thesis by simp
  qed
qed

theorem fix_builder_memory_safe_witness:
  "builder_run [Call (Plain (Set_bool 43 True)), Finish [70], Reset] (mk_MessageBuilder (Some (replicate 64 0)) 64) \<noteq> None \<and>
   builder_run [Reset, Finish [70]] (mk_MessageBuilder (Some (replicate 8 0)) 8) = None"
  using fix_builder_memory_safe [of "replicate 64 0" "[Call (Plain (Set_bool 43 True)), Finish [70], Reset]" "[70]"]
    fix_builder_memory_safe [of "replicate 8 0" "[]" "[70]"]
  by (simp add: kHeaderReserve_def begin_ok_def kMaxBeginString_def)

end
