(* ===== verification/Fix_Stream.thy ===== *)
theory Fix_Stream
  imports Fix_Wire
begin

text \<open>
  The reading side of FIX against the wire image of \<open>Fix_Wire\<close>: \<open>parse\<close>, \<open>verify_checksum\<close> and the framer on
  a whole message, the framer as an instance of \<open>message_framer\<close>, streams cut anywhere, bursts through
  \<open>parse_all\<close>, and every proper prefix of a message.
\<close>

section \<open>The parser reads the wire image\<close>

lemma take_value_clean: "SOH \<notin> set v \<Longrightarrow> take_value (v @ SOH # rest) = Some (v, rest)"
  by (simp add: take_value_def)

lemma parse_tag_number_uint: "n < 2 ^ 32 \<Longrightarrow> parse_tag_number (format_uint n @ EQ_SIGN # rest) = (of_nat n, rest)"
proof -
  assume n: "n < 2 ^ 32"
  have "is_digit (hd (format_uint n))" using format_uint_digits [OF hd_in_set [OF format_uint_nonempty]] .
  then show ?thesis using parse_tag_loop_uint [OF n, of "EQ_SIGN # rest"] by (simp add: parse_tag_number_def)
qed

lemma parse_tag_number_field: "parse_tag_number (format_uint (unat (t :: u32)) @ EQ_SIGN # rest) = (t, rest)"
  using parse_tag_number_uint [of "unat t" rest] unsigned_less [of t, where 'a = nat] by simp

definition fields_ok :: "(u32 \<times> bytes) list \<Rightarrow> bool" where
  "fields_ok fs \<longleftrightarrow> clean fs \<and> 0 \<notin> fst ` set fs"

lemma parse_fields_body:
  "fields_ok fs \<Longrightarrow> length acc + length fs \<le> max_fields \<Longrightarrow> parse_fields max_fields acc (body fs) = Inr (acc @ fs)"
proof (induction fs arbitrary: acc)
  case (Cons f fs)
  obtain t v where f: "f = (t, v)" by (metis surj_pair)
  have ok: "SOH \<notin> set v" "t \<noteq> 0" "fields_ok fs" using Cons.prems(1) f by (auto simp: fields_ok_def clean_def)
  have "parse_fields max_fields acc (body (f # fs)) = parse_fields max_fields (acc @ [f]) (body fs)"
    using ok Cons.prems(2) by (subst parse_fields.simps) (simp add: f parse_tag_number_field take_value_clean)
  also have "\<dots> = Inr ((acc @ [f]) @ fs)" using ok(3) Cons.prems(2) by (intro Cons.IH) simp_all
  finally show ?case by simp
qed (simp add: parse_fields.simps)

lemma ascii_tags: "ascii ''8='' = format_uint 8 @ [EQ_SIGN]" "ascii ''9='' = format_uint 9 @ [EQ_SIGN]"
  by (simp_all add: ascii_def format_uint_def uint_digits.simps digit_byte_def)

lemma trailer_digits:
  "take 3 (fix_trailer cs @ rest) = ascii ''10=''" "byte_at (fix_trailer cs @ rest) 6 = SOH"
  "\<exists>d. checksum_digits (fix_trailer cs @ rest) = Some d \<and> ucast d = cs"
proof -
  define n where "n = unat cs"
  have n: "n < 256" "cs = of_nat n" using unsigned_less [of cs, where 'a = nat] unfolding n_def by simp_all
  define a b c where "a = n div 100 mod 10" "b = n div 10 mod 10" "c = n mod 10"
  have abc: "a < 10" "b < 10" "c < 10" by (simp_all add: a_b_c_def)
  have "(a * 10 + b) * 10 + c = n"
  proof -
    have "n div 100 = n div 10 div 10" by (simp add: div_mult2_eq [symmetric])
    moreover have "n div 10 div 10 < 10" using n(1) by (simp add: less_mult_imp_div_less)
    ultimately have "a = n div 10 div 10" unfolding a_b_c_def by (metis mod_less)
    then show ?thesis unfolding a_b_c_def(2,3) by (simp only: div_mult_mod_eq)
  qed
  then have "((of_nat a * 10 + of_nat b) * 10 + of_nat c :: u32) = of_nat n"
    by (metis of_nat_add of_nat_mult of_nat_numeral)
  moreover have "ucast (of_nat n :: u32) = cs"
    unfolding n(2) using n(1) by (simp add: unsigned_of_nat take_bit_nat_eq_self)
  ultimately have v: "ucast ((of_nat a * 10 + of_nat b) * 10 + of_nat c :: u32) = cs" by (rule ssubst)
  have tr: "fix_trailer cs = [49, 48, EQ_SIGN, digit_byte a, digit_byte b, digit_byte c, SOH]"
    by (simp add: fix_trailer_def ascii_def a_b_c_def n_def)
  show "take 3 (fix_trailer cs @ rest) = ascii ''10=''" "byte_at (fix_trailer cs @ rest) 6 = SOH"
    by (simp_all add: tr ascii_def byte_at_def)
  show "\<exists>d. checksum_digits (fix_trailer cs @ rest) = Some d \<and> ucast d = cs"
    using abc v by (simp add: tr checksum_digits_def byte_at_def)
qed

text \<open>The two header fields in front of the body, as both readers see them.\<close>

lemma header_split:
  "fix_header bs n @ rest = format_uint 8 @ EQ_SIGN # bs @ SOH # format_uint 9 @ EQ_SIGN # format_uint n @ SOH # rest"
  by (simp add: fix_header_def ascii_tags)

definition message_ok :: "nat \<Rightarrow> nat \<Rightarrow> bytes \<Rightarrow> (u32 \<times> bytes) list \<Rightarrow> bool" where
  "message_ok max_fields max_body bs fs \<longleftrightarrow>
     SOH \<notin> set bs \<and> fields_ok fs \<and> length fs \<le> max_fields \<and> length (body fs) \<le> max_body"

lemma fix_parse_message:
  assumes "message_ok max_fields max_body bs fs"
  shows "fix_parse max_fields max_body (fix_message bs fs @ rest) =
    Inr \<lparr>mv_fields = fs, mv_total_len = length (fix_message bs fs), mv_begin_string = bs\<rparr>"
proof -
  let ?n = "length (body fs)" and ?h = "fix_header bs (length (body fs))"
  let ?tr = "fix_trailer (compute_checksum (?h @ body fs))"
  have ok: "SOH \<notin> set bs" "fields_ok fs" "length fs \<le> max_fields" "?n \<le> max_body" using assms by (simp_all add: message_ok_def)
  have msg: "fix_message bs fs @ rest = ?h @ body fs @ ?tr @ rest" by (simp add: fix_message_def Let_def)
  define data where "data = fix_message bs fs @ rest"
  have t1: "parse_tag_number data = (tag_BeginString, bs @ SOH # format_uint 9 @ EQ_SIGN # format_uint ?n @ SOH # body fs @ ?tr @ rest)"
    unfolding data_def msg header_split by (simp add: parse_tag_number_uint tag_BeginString_def)
  have t2: "parse_tag_number (format_uint 9 @ EQ_SIGN # format_uint ?n @ SOH # body fs @ ?tr @ rest) =
      (tag_BodyLength, format_uint ?n @ SOH # body fs @ ?tr @ rest)"
    by (simp add: parse_tag_number_uint tag_BodyLength_def)
  have bl: "body_length_loop max_body 0 (format_uint ?n) = Some ?n" using body_length_loop_uint [OF ok(4), of "[]"] by simp
  have len: "length data = length ?h + ?n + 7 + length rest" "length data - length (body fs @ ?tr @ rest) = length ?h"
    by (simp_all add: data_def msg)
  have cs: "drop ?n (body fs @ ?tr @ rest) = ?tr @ rest" "take ?n (body fs @ ?tr @ rest) = body fs"
    "take (length ?h + ?n) data = ?h @ body fs" by (simp_all add: data_def msg)
  obtain d where d: "checksum_digits (?tr @ rest) = Some d" "ucast d = compute_checksum (?h @ body fs)"
    using trailer_digits(3) by blast
  have "data \<noteq> []" using len(1) by auto
  moreover have "format_uint 9 @ EQ_SIGN # format_uint ?n @ SOH # body fs @ ?tr @ rest \<noteq> []" by simp
  moreover have "\<not> (length data < length ?h + 7 \<or> ?n > length data - length ?h - 7)" using len(1) by simp
  moreover have "parse_fields max_fields [] (body fs) = Inr fs" using parse_fields_body [OF ok(2), of "[]"] ok(3) by simp
  ultimately have "fix_parse max_fields max_body data =
      Inr \<lparr>mv_fields = fs, mv_total_len = length ?h + ?n + 7, mv_begin_string = bs\<rparr>"
    unfolding fix_parse_def Let_def t1 prod.case take_value_clean [OF ok(1)] option.case t2
      take_value_clean [OF format_uint_no(1)] bl len(2) cs trailer_digits(1,2) d(1)
    using d(2) by simp
  then show ?thesis unfolding data_def by (simp add: fix_message_length)
qed

section \<open>The framer as a message framer\<close>

lemma take_value_append: "take_value p = Some (v, r) \<Longrightarrow> take_value (p @ ys) = Some (v, r @ ys)"
proof -
  assume a: "take_value p = Some (v, r)"
  then have s: "SOH \<in> set p" by (auto simp: take_value_def split: if_splits)
  then have "dropWhile (\<lambda>c. c \<noteq> SOH) p \<noteq> []" by auto
  then obtain x xs where "dropWhile (\<lambda>c. c \<noteq> SOH) p = x # xs" by (cases "dropWhile (\<lambda>c. c \<noteq> SOH) p") auto
  then show ?thesis using a s by (auto simp: take_value_def)
qed

lemma not_digit_SOH: "\<not> is_digit SOH"
  by (simp add: is_digit_def word_le_nat_alt)

lemma framer_body_length_append:
  "framer_body_length m n p = Inr (k, r) \<Longrightarrow> framer_body_length m n (p @ ys) = Inr (k, r @ ys)"
  "framer_body_length m n p = Inl e \<Longrightarrow> e \<noteq> kIncomplete \<Longrightarrow> framer_body_length m n (p @ ys) = Inl e"
  by (induction m n p rule: framer_body_length.induct) (auto simp: Let_def not_digit_SOH split: if_splits)

lemma framer_body_length_rest: "framer_body_length m n p = Inr (k, r) \<Longrightarrow> length r < length p"
  by (induction m n p rule: framer_body_length.induct) (auto simp: Let_def split: if_splits)

lemma fix_framer_stable:
  assumes "fix_framer_decode m data = r" "r \<noteq> Inl kIncomplete"
  shows "fix_framer_decode m (data @ ys) = r"
proof -
  have len: "2 \<le> length data" using assms by (rule_tac ccontr) (simp add: fix_framer_decode_def not_le)
  then have t8: "take 2 (data @ ys) = take 2 data" "drop 2 (data @ ys) = drop 2 data @ ys" by simp_all
  show ?thesis
  proof (cases "take 2 data = ascii ''8=''")
    case False
    then show ?thesis using assms(1) len t8 by (simp add: fix_framer_decode_def)
  next
    case eight: True
    obtain bs p where p: "take_value (drop 2 data) = Some (bs, p)"
      using assms len eight by (cases "take_value (drop 2 data)") (auto simp: fix_framer_decode_def)
    have lp: "2 \<le> length p" using assms len eight p by (rule_tac ccontr) (simp add: fix_framer_decode_def not_le)
    note p' = take_value_append [OF p, of ys]
    have t9: "take 2 (p @ ys) = take 2 p" "drop 2 (p @ ys) = drop 2 p @ ys" using lp by simp_all
    show ?thesis
    proof (cases "take 2 p = ascii ''9='' \<and> (\<exists>n b. framer_body_length m 0 (drop 2 p) = Inr (n, b))")
      case False
      then show ?thesis
        using assms len eight t8 p p' t9 lp framer_body_length_append(2) [of m 0 "drop 2 p" _ ys]
        by (auto simp: fix_framer_decode_def split: sum.splits)
    next
      case True
      then obtain n b where b: "take 2 p = ascii ''9=''" "framer_body_length m 0 (drop 2 p) = Inr (n, b)" by blast
      note b' = framer_body_length_append(1) [OF b(2), of ys]
      have le: "length b \<le> length data"
        using framer_body_length_rest [OF b(2)] take_value_length [OF p] by simp
      let ?h = "length data - length b"
      have body: "\<not> (length data < ?h + 7 \<or> n > length data - ?h - 7)"
        using assms len eight p lp b by (rule_tac ccontr) (simp add: fix_framer_decode_def Let_def)
      then have nb: "n + 7 \<le> length b" using le by linarith
      have h: "length (data @ ys) - length (b @ ys) = ?h" by simp
      have body': "\<not> (length (data @ ys) < ?h + 7 \<or> n > length (data @ ys) - ?h - 7)" using body by auto
      define cs where "cs = drop n b"
      have cs: "drop n (b @ ys) = cs @ ys" "take n (b @ ys) = take n b" "7 \<le> length cs" using nb by (simp_all add: cs_def)
      have tk: "take (?h + n) (data @ ys) = take (?h + n) data" "take (?h + n + 7) (data @ ys) = take (?h + n + 7) data"
        using nb le by simp_all
      have eq: "take 3 (cs @ ys) = take 3 cs" "byte_at (cs @ ys) 6 = byte_at cs 6" "checksum_digits (cs @ ys) = checksum_digits cs"
        using cs(3) by (simp_all add: byte_at_def checksum_digits_def nth_append)
      have "fix_framer_decode m (data @ ys) = fix_framer_decode m data"
        unfolding fix_framer_decode_def Let_def t8 p p' option.case prod.case t9 b(2) b' sum.case h cs(1,2) tk cs_def [symmetric] eq
        using len eight lp b(1) body body' by simp
      then show ?thesis using assms(1) by simp
    qed
  qed
qed

lemma fix_framer_total_len:
  "fix_framer_decode m data = Inr f \<Longrightarrow> 0 < fm_total_len f \<and> fm_total_len f \<le> length data"
  unfolding fix_framer_decode_def Let_def by (auto split: if_splits option.splits sum.splits) linarith

definition framable :: "nat \<Rightarrow> bytes \<Rightarrow> bool" where
  "framable max_body p \<longleftrightarrow> (\<exists>bs fs. p = fix_message bs fs \<and> SOH \<notin> set bs \<and> length (body fs) \<le> max_body)"

lemma fix_framer_message:
  assumes "SOH \<notin> set bs" "length (body fs) \<le> max_body"
  shows "fix_framer_decode max_body (fix_message bs fs) =
    Inr \<lparr>fm_payload = fix_message bs fs, fm_payload_len = length (fix_message bs fs), fm_msg_type = scan_msg_type (body fs),
         fm_is_control = False, fm_total_len = length (fix_message bs fs)\<rparr>"
proof -
  let ?n = "length (body fs)" and ?h = "fix_header bs (length (body fs))"
  let ?tr = "fix_trailer (compute_checksum (?h @ body fs))"
  define data where "data = fix_message bs fs"
  have data: "data = ascii ''8='' @ bs @ SOH # ascii ''9='' @ format_uint ?n @ SOH # body fs @ ?tr" "data = ?h @ body fs @ ?tr"
    by (simp_all add: data_def fix_message_def fix_header_def Let_def)
  have two: "length (ascii ''8='') = 2" "length (ascii ''9='') = 2" by (simp_all add: ascii_def)
  have t1: "2 \<le> length data" "take 2 data = ascii ''8=''" "drop 2 data = bs @ SOH # ascii ''9='' @ format_uint ?n @ SOH # body fs @ ?tr"
    using two(1) by (simp_all add: data(1))
  define p where "p = ascii ''9='' @ format_uint ?n @ SOH # body fs @ ?tr"
  have t2: "2 \<le> length p" "take 2 p = ascii ''9=''" "drop 2 p = format_uint ?n @ SOH # body fs @ ?tr"
    using two(2) by (simp_all add: p_def)
  have bl: "framer_body_length max_body 0 (format_uint ?n @ SOH # body fs @ ?tr) = Inr (?n, body fs @ ?tr)"
    using framer_body_length_uint [OF assms(2)] by simp
  have len: "length data = length ?h + ?n + 7" "length data - length (body fs @ ?tr) = length ?h" by (simp_all add: data(2))
  have cs: "drop ?n (body fs @ ?tr) = ?tr @ []" "take ?n (body fs @ ?tr) = body fs" "take (length ?h + ?n) data = ?h @ body fs"
    by (simp_all add: data(2))
  obtain d where d: "checksum_digits (?tr @ []) = Some d" "ucast d = compute_checksum (?h @ body fs)" using trailer_digits(3) by blast
  have g: "\<not> length data < 2" "\<not> length p < 2" "\<not> (length data < length ?h + 7 \<or> ?n > length data - length ?h - 7)"
    "take (length ?h + ?n + 7) data = data" using t1 t2 len(1) by simp_all
  have "fix_framer_decode max_body data =
      Inr \<lparr>fm_payload = data, fm_payload_len = length ?h + ?n + 7, fm_msg_type = scan_msg_type (body fs),
           fm_is_control = False, fm_total_len = length ?h + ?n + 7\<rparr>"
    unfolding fix_framer_decode_def Let_def t1(2,3) p_def [symmetric] take_value_clean [OF assms(1)] option.case prod.case
      t2(2,3) bl sum.case len(2) cs trailer_digits(1,2) d(1)
    using g d(2) by simp
  then show ?thesis unfolding data_def by (simp add: fix_message_length)
qed

interpretation ff: message_framer "fix_framer_decode max_body" fix_framer_encode "framable max_body" for max_body
proof unfold_locales
  fix bs ys :: bytes and f e p
  show "fix_framer_decode max_body bs = Inr f \<Longrightarrow> 0 < fm_total_len f \<and> fm_total_len f \<le> length bs" by (rule fix_framer_total_len)
  show "fix_framer_decode max_body bs = Inr f \<Longrightarrow> fix_framer_decode max_body (bs @ ys) = Inr f" by (simp add: fix_framer_stable)
  show "fix_framer_decode max_body bs = Inl e \<Longrightarrow> e \<noteq> kIncomplete \<Longrightarrow> fix_framer_decode max_body (bs @ ys) = Inl e"
    by (simp add: fix_framer_stable)
  show "framable max_body p \<Longrightarrow> \<exists>f. fix_framer_decode max_body (fix_framer_encode p) = Inr f \<and> fm_payload f = p \<and>
      fm_total_len f = length (fix_framer_encode p)"
    using fix_framer_message by (auto simp: framable_def fix_framer_encode_def)
  show "fix_framer_decode max_body [] = Inl kIncomplete" by (simp add: fix_framer_decode_def)
qed

text \<open>The stand-alone checksum test accepts every message.\<close>

lemma verify_checksum_message: "verify_checksum (fix_message bs fs)"
proof -
  define hb where "hb = fix_header bs (length (body fs)) @ body fs"
  define tr where "tr = fix_trailer (compute_checksum hb)"
  have msg: "fix_message bs fs = hb @ tr" by (simp add: fix_message_def hb_def tr_def Let_def)
  have tl: "length tr = 7" by (simp add: tr_def)
  have tr: "last tr = SOH" "SOH \<notin> set (butlast tr)" "tr \<noteq> []"
    by (auto simp: tr_def fix_trailer_def ascii_def)
  have "\<exists>x. hb = x @ [SOH]"
  proof (cases fs rule: rev_cases)
    case Nil
    then show ?thesis by (simp add: hb_def fix_header_def)
  next
    case (snoc gs g)
    then show ?thesis by (cases g) (simp add: hb_def)
  qed
  then obtain x where hb: "hb = x @ [SOH]" by blast
  have x: "x \<noteq> []" using arg_cong [OF hb, of length] by (auto simp: hb_def fix_header_def ascii_def)
  have "dropWhile (\<lambda>c. c \<noteq> SOH) (rev (butlast (hb @ tr))) = rev hb"
    using tr(2,3) hb by (simp add: butlast_append dropWhile_append2)
  then have before: "length (dropWhile (\<lambda>c. c \<noteq> SOH) (rev (butlast (hb @ tr)))) = length hb" by simp
  obtain d where "checksum_digits (tr @ []) = Some d" "ucast d = compute_checksum hb" using trailer_digits(3) tr_def by blast
  moreover have "take 3 (tr @ []) = ascii ''10=''" unfolding tr_def by (rule trailer_digits)
  moreover have "\<not> length hb \<le> 1" using x by (cases x) (auto simp: hb)
  ultimately show ?thesis unfolding msg verify_checksum_def Let_def before using tl tr(1,3) by simp
qed

section \<open>Messages on the wire\<close>

text \<open>
  C11. Whatever the builder finishes, the parser reads back. For every sequence of setter calls on which
  \<open>finish\<close> returns a length, with no tag zero, at most \<open>max_fields\<close> calls and a body within the parser's
  limit, \<open>parse\<close> on the span, whatever bytes follow it, returns exactly the tags and values of the calls in
  their order, the version string, and the length \<open>finish\<close> returned; the stand-alone \<open>verify_checksum\<close>
  accepts the span too.
\<close>

theorem fix_message_round_trip:
  assumes "fix_build (Some buf) (length buf) calls bs = Some (n, b)" "0 < n"
    and "build_fields calls [] = Some fs" "0 \<notin> fst ` set fs" "length calls \<le> max_fields" "length (body fs) \<le> max_body"
  shows "fix_parse max_fields max_body (as_span b @ rest) =
      Inr \<lparr>mv_fields = fs, mv_total_len = n, mv_begin_string = bs\<rparr> \<and>
    verify_checksum (as_span b)"
proof -
  have b: "begin_ok bs" "n = length (fix_message bs fs)" "as_span b = fix_message bs fs"
    using fix_build_exact [of buf calls bs] assms(1-3) by (auto split: if_splits)
  have "clean fs" using build_fields_clean [OF assms(3)] by (simp add: clean_def)
  then have "message_ok max_fields max_body bs fs"
    using assms(4-6) b(1) build_fields_length [OF assms(3)] by (simp add: message_ok_def fields_ok_def begin_ok_def)
  from fix_parse_message [OF this, of rest] show ?thesis unfolding b using verify_checksum_message by blast
qed

theorem fix_message_round_trip_witness:
  "\<exists>n b. fix_build (Some (replicate 64 0)) 64 [Plain (Set 35 [68]), Unique (Set_int 34 (- 7)), Plain (Set_bool 43 True)] [70, 73, 88] = Some (n, b) \<and>
     0 < n \<and>
     fix_parse 128 1048576 (as_span b @ [56, 61]) =
       Inr \<lparr>mv_fields = [(35, [68]), (34, [45, 55]), (43, [89])], mv_total_len = n, mv_begin_string = [70, 73, 88]\<rparr>"
proof -
  let ?calls = "[Plain (Set 35 [68]), Unique (Set_int 34 (- 7)), Plain (Set_bool 43 True)]"
  let ?fs = "[(35, [68]), (34, [45, 55]), (43, [89])] :: (u32 \<times> bytes) list"
  have fs: "build_fields ?calls [] = Some ?fs"
    by (simp add: format_int_def format_uint_def uint_digits.simps digit_byte_def ascii_def)
  have bl: "length (body ?fs) = 16" by (simp add: format_uint_def uint_digits.simps)
  have hl: "length (fix_header [70, 73, 88] 16) = 11" by (simp add: fix_header_def ascii_def format_uint_def uint_digits.simps)
  have fit: "begin_ok [70, 73, 88] \<and> length (fix_header [70, 73, 88] (length (body ?fs))) \<le> kHeaderReserve \<and>
      kHeaderReserve + length (body ?fs) + kTrailerLen \<le> length (replicate 64 (0 :: u8))"
    unfolding bl hl by (simp add: begin_ok_def kMaxBeginString_def kHeaderReserve_def kTrailerLen_def)
  obtain n b where nb: "fix_build (Some (replicate 64 0)) (length (replicate 64 (0 :: u8))) ?calls [70, 73, 88] = Some (n, b)"
      "n = length (fix_message [70, 73, 88] ?fs)"
    using fix_build_exact [of "replicate 64 0" ?calls "[70, 73, 88]"] unfolding fs option.case if_P [OF fit] by blast
  have "0 < n" unfolding nb(2) fix_message_length by simp
  with fix_message_round_trip [OF nb(1) this fs, of 128 1048576 "[56, 61]"] nb(1) bl show ?thesis by auto
qed

text \<open>
  C12. A stream of messages cut anywhere by the network comes apart into the messages that were sent: the
  framer's frames of the two pieces, the second behind what was left of the first, are the messages in
  order with nothing left over, and \<open>parse\<close> on each frame gives its version string and its fields.
\<close>

theorem fix_pipeline:
  assumes "\<forall>(bs, fs) \<in> set ms. message_ok max_fields max_body bs fs"
    and "xs @ ys = concat (map (\<lambda>(bs, fs). fix_framer_encode (fix_message bs fs)) ms)"
    and "parse_frames (fix_framer_decode max_body) xs = (frs, rest)"
    and "parse_frames (fix_framer_decode max_body) (rest @ ys) = (grs, rest')"
  shows "map (\<lambda>f. fix_parse max_fields max_body (fm_payload f)) (frs @ grs) =
      map (\<lambda>(bs, fs). Inr \<lparr>mv_fields = fs, mv_total_len = length (fix_message bs fs), mv_begin_string = bs\<rparr>) ms \<and> rest' = []"
proof -
  let ?ps = "map (\<lambda>(bs, fs). fix_message bs fs) ms"
  have cat: "concat (map (\<lambda>(bs, fs). fix_framer_encode (fix_message bs fs)) ms) = concat (map fix_framer_encode ?ps)"
    by (simp add: comp_def case_prod_unfold)
  have "list_all (framable max_body) ?ps" using assms(1) by (fastforce simp: list_all_iff framable_def message_ok_def)
  note all = ff.parse_encoded [OF this]
  have "parse_frames (fix_framer_decode max_body) (xs @ ys) = (frs @ grs, rest')"
    using ff.parse_chunks [OF assms(3), of ys] assms(4) by simp
  then have "map fm_payload (frs @ grs) = ?ps" "rest' = []" using all by (simp_all add: assms(2) cat)
  moreover have "map (fix_parse max_fields max_body) ?ps =
      map (\<lambda>(bs, fs). Inr \<lparr>mv_fields = fs, mv_total_len = length (fix_message bs fs), mv_begin_string = bs\<rparr>) ms"
    using assms(1) fix_parse_message [of max_fields max_body _ _ "[]"] by (auto simp del: MessageView.simps)
  ultimately show ?thesis by (metis (no_types, lifting) map_map comp_def map_eq_conv)
qed

theorem fix_pipeline_witness:
  "let msg = fix_message [70, 73, 88] [(35, [68])]; xs = take 9 (msg @ msg); ys = drop 9 (msg @ msg);
       (frs, rest) = parse_frames (fix_framer_decode 1048576) xs;
       (grs, rest') = parse_frames (fix_framer_decode 1048576) (rest @ ys) in
   map (\<lambda>f. fix_parse 128 1048576 (fm_payload f)) (frs @ grs) =
     replicate 2 (Inr \<lparr>mv_fields = [(35, [68])], mv_total_len = length msg, mv_begin_string = [70, 73, 88]\<rparr>) \<and> rest' = []"
proof -
  let ?msg = "fix_message [70, 73, 88] [(35, [68])]"
  obtain frs rest where f: "parse_frames (fix_framer_decode 1048576) (take 9 (?msg @ ?msg)) = (frs, rest)" by (metis surj_pair)
  obtain grs rest' where g: "parse_frames (fix_framer_decode 1048576) (rest @ drop 9 (?msg @ ?msg)) = (grs, rest')" by (metis surj_pair)
  have ok: "\<forall>(bs, fs) \<in> set [([70, 73, 88], [(35, [68])]), ([70, 73, 88], [(35, [68])])]. message_ok 128 1048576 bs fs"
    by (simp add: message_ok_def fields_ok_def clean_def format_uint_def uint_digits.simps)
  have cat: "take 9 (?msg @ ?msg) @ drop 9 (?msg @ ?msg) =
      concat (map (\<lambda>(bs, fs). fix_framer_encode (fix_message bs fs)) [([70, 73, 88], [(35, [68])]), ([70, 73, 88], [(35, [68])])])"
    unfolding append_take_drop_id by (simp add: fix_framer_encode_def)
  show ?thesis using fix_pipeline [OF ok cat f g]
    unfolding Let_def f g prod.case by (simp add: numeral_2_eq_2 del: MessageView.simps)
qed

section \<open>Partial messages\<close>

lemma prefix_cases:
  "q @ z = A @ R \<Longrightarrow> (\<exists>u. q = A @ u \<and> u @ z = R) \<or> (\<exists>u. A = q @ u \<and> u \<noteq> [])"
  by (auto simp: append_eq_append_conv2)

lemma take_value_none: "SOH \<notin> set p \<Longrightarrow> take_value p = None"
  by (simp add: take_value_def)

lemma tag8: "parse_tag_number (56 # EQ_SIGN # p) = (tag_BeginString, p)"
  using parse_tag_number_uint [of 8 p] by (simp add: tag_BeginString_def format_uint_def uint_digits.simps digit_byte_def)

lemma tag9: "parse_tag_number (57 # EQ_SIGN # p) = (tag_BodyLength, p)"
  using parse_tag_number_uint [of 9 p] by (simp add: tag_BodyLength_def format_uint_def uint_digits.simps digit_byte_def)

lemma fix_parse_in_begin:
  assumes "SOH \<notin> set p"
  shows "fix_parse mf mb (56 # EQ_SIGN # p) = Inl kMsgIncomplete"
  unfolding fix_parse_def by (simp add: tag8 take_value_none [OF assms] tag_BeginString_def)

lemma fix_parse_after_begin:
  assumes "SOH \<notin> set bs"
  shows "fix_parse mf mb (56 # EQ_SIGN # bs @ [SOH]) = Inl kMsgIncomplete"
    "fix_parse mf mb (56 # EQ_SIGN # bs @ [SOH, 57]) = Inl kMsgInvalidFormat"
  unfolding fix_parse_def
  by (simp_all add: tag8 take_value_clean [OF assms] parse_tag_number_def tag_BeginString_def tag_BodyLength_def is_digit_def word_le_nat_alt Let_def)

lemma fix_parse_in_length:
  assumes "SOH \<notin> set bs" "SOH \<notin> set p"
  shows "fix_parse mf mb (56 # EQ_SIGN # bs @ SOH # 57 # EQ_SIGN # p) = Inl kMsgIncomplete"
  unfolding fix_parse_def by (simp add: tag8 take_value_clean [OF assms(1)] tag9 take_value_none [OF assms(2)] tag_BeginString_def tag_BodyLength_def)

lemma prefix_of_terminated:
  assumes "v @ [SOH] = q @ u" "u \<noteq> []" "SOH \<notin> set v"
  shows "SOH \<notin> set q"
proof -
  obtain u' x where "u = u' @ [x]" using assms(2) by (metis rev_exhaust)
  then show ?thesis using assms(1,3) by auto
qed

lemma fix_parse_short_body:
  assumes "SOH \<notin> set bs" "n \<le> mb" "length u < n + 7"
  shows "fix_parse mf mb (fix_header bs n @ u) = Inl kMsgIncomplete"
proof -
  define data where "data = fix_header bs n @ u"
  have t1: "parse_tag_number data = (tag_BeginString, bs @ SOH # format_uint 9 @ EQ_SIGN # format_uint n @ SOH # u)"
    unfolding data_def header_split by (simp add: parse_tag_number_uint tag_BeginString_def)
  have t2: "parse_tag_number (format_uint 9 @ EQ_SIGN # format_uint n @ SOH # u) = (tag_BodyLength, format_uint n @ SOH # u)"
    by (simp add: parse_tag_number_uint tag_BodyLength_def)
  have bl: "body_length_loop mb 0 (format_uint n) = Some n" using body_length_loop_uint [OF assms(2), of "[]"] by simp
  have len: "length data - length u = length (fix_header bs n)" "data \<noteq> []"
    "length data < length (fix_header bs n) + 7 \<or> n > length data - length (fix_header bs n) - 7"
    using assms(3) by (auto simp: data_def fix_header_def ascii_def)
  show ?thesis unfolding data_def [symmetric]
    unfolding fix_parse_def Let_def t1 prod.case take_value_clean [OF assms(1)] option.case t2 take_value_clean [OF format_uint_no(1)] bl len(1)
    using len(2,3) by simp
qed

text \<open>What is left of the message behind the version string may be cut in the tag, in the number, or in the body.\<close>

lemma parse_after_begin:
  assumes "SOH \<notin> set bs" "n \<le> mb"
    and "q @ z = [57, EQ_SIGN] @ (format_uint n @ [SOH]) @ R" "z \<noteq> []" "length R = n + 7"
  shows "fix_parse mf mb (56 # EQ_SIGN # bs @ SOH # q) = Inl (if q = [57] then kMsgInvalidFormat else kMsgIncomplete)"
  using prefix_cases [OF assms(3)]
proof (elim disjE exE conjE)
  fix u assume "[57, EQ_SIGN] = q @ u" "u \<noteq> []"
  then have "q = [] \<or> q = [57]" by (auto simp: Cons_eq_append_conv)
  then show ?thesis using fix_parse_after_begin [OF assms(1)] by auto
next
  fix q' assume q': "q = [57, EQ_SIGN] @ q'" "q' @ z = (format_uint n @ [SOH]) @ R"
  from prefix_cases [OF q'(2)] show ?thesis
  proof (elim disjE exE conjE)
    fix u assume "format_uint n @ [SOH] = q' @ u" "u \<noteq> []"
    then have "SOH \<notin> set q'" using format_uint_no(1) by (rule prefix_of_terminated)
    from fix_parse_in_length [OF assms(1) this] show ?thesis unfolding q'(1) by simp
  next
    fix q'' assume q'': "q' = (format_uint n @ [SOH]) @ q''" "q'' @ z = R"
    have "length q'' < n + 7" using q''(2) assms(4,5) by (cases z) auto
    from fix_parse_short_body [OF assms(1,2) this, of mf] show ?thesis
      unfolding q'(1) q''(1) by (simp add: fix_header_def ascii_def)
  qed
qed

lemma parse_prefix:
  assumes "message_ok max_fields max_body bs fs" "fix_message bs fs = q @ z" "z \<noteq> []"
  shows "fix_parse max_fields max_body q =
    Inl (if q = ascii ''8'' \<or> q = ascii ''8='' @ bs @ [SOH] @ ascii ''9'' then kMsgInvalidFormat else kMsgIncomplete)"
proof -
  let ?n = "length (body fs)"
  let ?R = "body fs @ fix_trailer (compute_checksum (fix_header bs ?n @ body fs))"
  have ok: "SOH \<notin> set bs" "?n \<le> max_body" using assms(1) by (simp_all add: message_ok_def)
  have msg: "q @ z = [56, EQ_SIGN] @ (bs @ [SOH]) @ [57, EQ_SIGN] @ (format_uint ?n @ [SOH]) @ ?R"
    unfolding assms(2) [symmetric] by (simp add: fix_message_def fix_header_def ascii_def Let_def)
  have e: "ascii ''8'' = [56]" "ascii ''8='' = [56, EQ_SIGN]" "ascii ''9'' = [57]" by (simp_all add: ascii_def)
  show "fix_parse max_fields max_body q = Inl (if q = ascii ''8'' \<or> q = ascii ''8='' @ bs @ [SOH] @ ascii ''9'' then kMsgInvalidFormat else kMsgIncomplete)"
    unfolding e using prefix_cases [OF msg]
  proof (elim disjE exE conjE)
    fix u assume "[56, EQ_SIGN] = q @ u" "u \<noteq> []"
    then have "q = [] \<or> q = [56]" by (auto simp: Cons_eq_append_conv)
    then show "fix_parse max_fields max_body q = Inl (if q = [56] \<or> q = [56, EQ_SIGN] @ bs @ [SOH] @ [57] then kMsgInvalidFormat else kMsgIncomplete)"
      by (auto simp: fix_parse_def parse_tag_number_def is_digit_def word_le_nat_alt tag_BeginString_def Let_def)
  next
    fix q1 assume q1: "q = [56, EQ_SIGN] @ q1" "q1 @ z = (bs @ [SOH]) @ [57, EQ_SIGN] @ (format_uint ?n @ [SOH]) @ ?R"
    show "fix_parse max_fields max_body q = Inl (if q = [56] \<or> q = [56, EQ_SIGN] @ bs @ [SOH] @ [57] then kMsgInvalidFormat else kMsgIncomplete)"
      unfolding q1(1) using prefix_cases [OF q1(2)]
    proof (elim disjE exE conjE)
      fix u assume "bs @ [SOH] = q1 @ u" "u \<noteq> []"
      then have "SOH \<notin> set q1" using ok(1) by (rule prefix_of_terminated)
      then show "fix_parse max_fields max_body ([56, EQ_SIGN] @ q1) =
          Inl (if [56, EQ_SIGN] @ q1 = [56] \<or> [56, EQ_SIGN] @ q1 = [56, EQ_SIGN] @ bs @ [SOH] @ [57] then kMsgInvalidFormat else kMsgIncomplete)"
        using fix_parse_in_begin by auto
    next
      fix q2 assume q2: "q1 = (bs @ [SOH]) @ q2" "q2 @ z = [57, EQ_SIGN] @ (format_uint ?n @ [SOH]) @ ?R"
      show "fix_parse max_fields max_body ([56, EQ_SIGN] @ q1) =
          Inl (if [56, EQ_SIGN] @ q1 = [56] \<or> [56, EQ_SIGN] @ q1 = [56, EQ_SIGN] @ bs @ [SOH] @ [57] then kMsgInvalidFormat else kMsgIncomplete)"
        unfolding q2(1) using parse_after_begin [OF ok q2(2) assms(3), of max_fields] by simp
    qed
  qed
qed

text \<open>
  C32. On every proper prefix of a message the framer answers that more bytes are needed. \<open>parse\<close> answers
  the same except on two prefixes of every message, cut behind the first digit of a header tag
  (\<open>8\<close> alone, and the header up to the \<open>9\<close>): there it reports an invalid format, although the enumeration
  documents the incomplete code for exactly this case.
\<close>

theorem fix_prefix_incomplete:
  assumes "message_ok max_fields max_body bs fs" "fix_message bs fs = q @ z" "z \<noteq> []"
  shows "fix_framer_decode max_body q = Inl kIncomplete \<and>
    fix_parse max_fields max_body q =
      Inl (if q = ascii ''8'' \<or> q = ascii ''8='' @ bs @ [SOH] @ ascii ''9'' then kMsgInvalidFormat else kMsgIncomplete)"
proof
  have "framable max_body (fix_message bs fs)" using assms(1) by (auto simp: framable_def message_ok_def)
  from ff.prefix_incomplete [OF this _ assms(3)] assms(2) show "fix_framer_decode max_body q = Inl kIncomplete"
    by (simp add: fix_framer_encode_def)
qed (rule parse_prefix [OF assms])

theorem fix_prefix_incomplete_witness:
  "fix_framer_decode 1048576 [56] = Inl kIncomplete \<and> fix_parse 128 1048576 [56] = Inl kMsgInvalidFormat"
proof -
  let ?msg = "fix_message [70, 73, 88] [(35, [68])]"
  have ok: "message_ok 128 1048576 [70, 73, 88] [(35, [68])]"
    by (simp add: message_ok_def fields_ok_def clean_def format_uint_def uint_digits.simps)
  have "?msg = [56] @ tl ?msg" "tl ?msg \<noteq> []" by (simp_all add: fix_message_def fix_header_def ascii_def Let_def)
  from fix_prefix_incomplete [OF ok this] show ?thesis by (simp add: ascii_def)
qed

section \<open>Bursts\<close>

definition view_of :: "bytes \<times> (u32 \<times> bytes) list \<Rightarrow> MessageView" where
  "view_of m = \<lparr>mv_fields = snd m, mv_total_len = length (fix_message (fst m) (snd m)), mv_begin_string = fst m\<rparr>"

definition burst :: "(bytes \<times> (u32 \<times> bytes) list) list \<Rightarrow> bytes" where
  "burst ms = concat (map (\<lambda>m. fix_message (fst m) (snd m)) ms)"

definition count_messages :: "(bytes \<times> (u32 \<times> bytes) list) list \<Rightarrow> ParserStats \<Rightarrow> ParserStats" where
  "count_messages ms st = fold (\<lambda>m. on_message (length (fix_message (fst m) (snd m)))) ms st"

lemma count_messages_counters:
  "messages_parsed (count_messages ms st) = messages_parsed st + of_nat (length ms)"
  "bytes_consumed (count_messages ms st) = bytes_consumed st + of_nat (length (burst ms))"
  "parse_errors (count_messages ms st) = parse_errors st"
  unfolding count_messages_def burst_def by (induction ms arbitrary: st) (simp_all add: on_message_def)

lemma parse_all_stats_burst:
  assumes "\<forall>m \<in> set ms. message_ok max_fields kDefaultMaxBodyLength (fst m) (snd m)"
  shows "parse_all_stats max_fields (\<lambda>_. True) off (burst ms @ q) st =
    (let (off', vs, st') = parse_all_stats max_fields (\<lambda>_. True) (off + length (burst ms)) q (count_messages ms st) in
     (off', map view_of ms @ vs, st'))"
  using assms
proof (induction ms arbitrary: off st)
  case Nil
  then show ?case by (simp add: burst_def count_messages_def case_prod_unfold)
next
  case (Cons m ms)
  let ?msg = "fix_message (fst m) (snd m)"
  have b: "burst (m # ms) @ q = ?msg @ burst ms @ q" by (simp add: burst_def)
  have p: "fix_parse max_fields kDefaultMaxBodyLength (?msg @ burst ms @ q) = Inr (view_of m)"
    unfolding view_of_def using Cons.prems by (intro fix_parse_message) simp
  have ne: "?msg \<noteq> []" using fix_message_length [of "fst m" "snd m"] by auto
  have tl: "mv_total_len (view_of m) = length ?msg" by (simp add: view_of_def)
  have "parse_all_stats max_fields (\<lambda>_. True) off (burst (m # ms) @ q) st =
      (let (off', vs, st') = parse_all_stats max_fields (\<lambda>_. True) (off + length ?msg) (burst ms @ q) (on_message (length ?msg) st) in
       (off', view_of m # vs, st'))"
    unfolding b by (subst parse_all_stats.simps) (simp add: p ne tl)
  then show ?case using Cons by (simp add: case_prod_unfold Let_def burst_def count_messages_def add.assoc)
qed

text \<open>
  C31. \<open>parse_all\<close> with statistics on a burst of messages followed by the first bytes of one more: every
  message is delivered once, in order, the offset returned is where the unfinished message starts, and the
  counters grow by the number and by the bytes of the messages. The unfinished message is not counted as an
  error, except where it is cut behind the first digit of a header tag.
\<close>

theorem fix_parse_all_burst:
  assumes "\<forall>m \<in> set ms. message_ok max_fields kDefaultMaxBodyLength (fst m) (snd m)"
    and "message_ok max_fields kDefaultMaxBodyLength bs fs" "fix_message bs fs = q @ z" "z \<noteq> []"
    and "parse_all_stats max_fields (\<lambda>_. True) 0 (burst ms @ q) st = (off, vs, st')"
  shows "off = length (burst ms) \<and> vs = map view_of ms \<and>
    messages_parsed st' = messages_parsed st + of_nat (length ms) \<and>
    bytes_consumed st' = bytes_consumed st + of_nat (length (burst ms)) \<and>
    parse_errors st' = parse_errors st + (if q = ascii ''8'' \<or> q = ascii ''8='' @ bs @ [SOH] @ ascii ''9'' then 1 else 0)"
proof -
  let ?cut = "q = ascii ''8'' \<or> q = ascii ''8='' @ bs @ [SOH] @ ascii ''9''"
  let ?st = "count_messages ms st"
  have "parse_all_stats max_fields (\<lambda>_. True) (length (burst ms)) q ?st =
      (length (burst ms), [], if ?cut then on_error (length (burst ms)) kMsgInvalidFormat (hd q) ?st else ?st)"
  proof (cases "q = []")
    case True
    then show ?thesis by (subst parse_all_stats.simps) (simp add: ascii_def)
  next
    case False
    then show ?thesis by (subst parse_all_stats.simps) (simp add: parse_prefix [OF assms(2-4)])
  qed
  then show ?thesis using assms(5) unfolding parse_all_stats_burst [OF assms(1)]
    by (auto simp: count_messages_counters on_error_def Let_def split: if_splits)
qed

theorem fix_parse_all_burst_witness:
  "let msg = fix_message [70, 73, 88] [(35, [68])];
       st = \<lparr>messages_parsed = 0, parse_errors = 0, bytes_consumed = 0, first_error_offset = 0,
             first_error_type = kMsgIncomplete, first_error_tag_byte = 0\<rparr>;
       (off, vs, st') = parse_all_stats 128 (\<lambda>_. True) 0 (msg @ [56]) st in
   off = length msg \<and> length vs = 1 \<and> messages_parsed st' = 1 \<and> parse_errors st' = 1"
proof -
  let ?msg = "fix_message [70, 73, 88] [(35, [68])]" and ?ms = "[([70, 73, 88], [(35, [68])])] :: (bytes \<times> (u32 \<times> bytes) list) list"
  let ?st = "\<lparr>messages_parsed = 0, parse_errors = 0, bytes_consumed = 0, first_error_offset = 0,
             first_error_type = kMsgIncomplete, first_error_tag_byte = 0\<rparr>"
  have ok: "message_ok 128 kDefaultMaxBodyLength [70, 73, 88] [(35, [68])]"
    by (simp add: message_ok_def fields_ok_def clean_def format_uint_def uint_digits.simps kDefaultMaxBodyLength_def)
  then have all: "\<forall>m \<in> set ?ms. message_ok 128 kDefaultMaxBodyLength (fst m) (snd m)" by simp
  have cut: "?msg = [56] @ tl ?msg" "tl ?msg \<noteq> []" by (simp_all add: fix_message_def fix_header_def ascii_def Let_def)
  obtain off vs st' where r: "parse_all_stats 128 (\<lambda>_. True) 0 (burst ?ms @ [56]) ?st = (off, vs, st')" by (metis surj_pair)
  have b: "burst ?ms = ?msg" by (simp add: burst_def)
  from fix_parse_all_burst [OF all ok cut r] show ?thesis
    using r unfolding b Let_def by (simp add: ascii_def)
qed

end
