(* ===== verification/Spec2Isabelle.thy ===== *)
theory Spec2Isabelle
  imports Framing Ws_Wire Ws_Utf8 Ws_Inflate Ws_Codec Kernel_Io Kernel_Stream
    Ring_Buffer Bounded_Queue Queue_Bytes Evicting_Queue Packet Tcp_Session Tcp_Receive Tcp_Reorder Tcp_Faults Tcp_Transmit Tcp_States
    Fix_Builder Fix_Parser Fix_Civil Fix_Time Fix_Wire Fix_Stream
begin

text \<open>
  \<^bold>\<open>A verification of the ephemeral trading-network library.\<close>

  The library (C++ headers under \<^verbatim>\<open>src/\<close>) moves market data and orders between exchanges and a
  trading process. Bytes come from the kernel (\<^verbatim>\<open>eph-net-kernel\<close>) or from a user-space TCP/IP stack
  (\<^verbatim>\<open>eph-net-dpdk\<close>), are cut into messages by a codec (\<^verbatim>\<open>eph-codec\<close>, \<^verbatim>\<open>eph-net\<close>), and go through lock-free
  queues (\<^verbatim>\<open>eph-containers\<close>) to the strategy.

  \<^bold>\<open>Theories, bottom up.\<close>
  \<^item> \<open>Eph_Prelude\<close>: machine words, byte composition, \<open>std::expected\<close> as a sum type, shared list and
    word lemmas.
  \<^item> \<open>Core_Codec\<close> (\<^verbatim>\<open>eph-core/error.hpp, codec.hpp\<close>, \<^verbatim>\<open>span_packet_view.hpp\<close>): errors, output buffers,
    packet views, and the contract every codec keeps as the locales \<open>stream_codec\<close> and
    \<open>framing_codec\<close>.
  \<^item> \<open>Framing\<close> (\<^verbatim>\<open>length_prefix_framer.hpp\<close>, the length-prefix and raw codecs): round trips, pipelining,
    interpretations of the codec contracts.
  \<^item> \<open>Ws_Wire\<close>, \<open>Ws_Utf8\<close> (\<^verbatim>\<open>eph-net/detail/websocket.hpp\<close>): frame encoder and decoder, masking loops,
    control frames, the mask-key cache, the UTF-8 validator against RFC 3629.
  \<^item> \<open>Ws_Inflate\<close> (\<^verbatim>\<open>detail/ws_inflate.hpp\<close>), \<open>Ws_Codec\<close> (\<^verbatim>\<open>ws_codec.hpp\<close>): the stateful WebSocket codec
    with fragmentation and permessage-deflate, refined against a message-assembly specification.
  \<^item> \<open>Kernel_Io\<close> (\<^verbatim>\<open>reassembly_buffer.hpp\<close>, \<^verbatim>\<open>reasm_buffer.hpp\<close>, \<^verbatim>\<open>byte_socket.hpp\<close>,
    \<^verbatim>\<open>in_flight_status.hpp\<close>), \<open>Kernel_Stream\<close> (\<^verbatim>\<open>kernel/tcp_stream.hpp\<close>): the receive buffers as byte
    queues, the socket loops, and the plaintext stream that polls, drains the codec and answers.
  \<^item> \<open>Ring_Buffer\<close>, \<open>Bounded_Queue\<close>, \<open>Queue_Bytes\<close>, \<open>Evicting_Queue\<close> (\<^verbatim>\<open>eph-containers\<close>): rings with
    free-running 64-bit indices, the single-producer single-consumer queue with its blocking and timed
    operations refined against an abstract bounded queue, the byte-message queue, the overwriting seqlock
    queue.
  \<^item> \<open>Packet\<close> (\<^verbatim>\<open>dpdk/packet_core.hpp, packet_parse.hpp, packet_template.hpp\<close>): Ethernet, IPv4, TCP and UDP
    headers, checksums, packet templates and parsers, with the round trips between them.
  \<^item> \<open>Tcp_Session\<close> (\<^verbatim>\<open>dpdk/tcp.hpp\<close>): the user-space TCP session, its whole send and receive path.
    \<open>Tcp_Receive\<close> shows that it delivers a prefix of the peer's bytes and gives every packet buffer back
    once, \<open>Tcp_Reorder\<close> that reordered segments are delivered completely, \<open>Tcp_Transmit\<close> joins two sessions
    over a lossy network, \<open>Tcp_States\<close> compares the connection states with RFC 793, and \<open>Tcp_Faults\<close>
    establishes two limits of the reorder buffer.
  \<^item> \<open>Fix_Builder\<close>, \<open>Fix_Parser\<close>, \<open>Fix_Civil\<close>, \<open>Fix_Time\<close> (\<^verbatim>\<open>eph-fix/builder.hpp, parser.hpp, framer.hpp\<close>): the
    FIX message builder, parser, framer and UTC time stamps. \<open>Fix_Wire\<close> shows what the builder leaves in its
    buffer and that it stays inside, \<open>Fix_Stream\<close> the round trips and the treatment of unfinished messages.

  \<^bold>\<open>Correspondence.\<close> A class is a record with the fields of the source, a method a function that returns
  its result together with the new record, in the order of the source; \<open>std::expected\<close> is a sum with the
  error on the left. Sizes that the code compares but never lets wrap are \<open>nat\<close>; counters and ring
  indices are 64-bit words and wrap. Packet views carry an offset and a length into unchanged memory, as
  the source's spans do.

  \<^bold>\<open>Outside code.\<close> Each system call is a list of the answers the kernel will give; zlib, the random
  source and the handshake driver are arguments. The environment of a spin loop is a sequence of changes
  other threads make, and the clock of a timed wait a sequence of readings.

  \<^bold>\<open>Concurrency.\<close> The two queues have, next to the sequential operations, a step relation in which each
  shared access of the source is one step and either thread may move next; the properties hold on every
  reachable state, and link lemmas show that the steps of one thread run alone compute the sequential
  operation. Steps are sequentially consistent: the acquire and release orderings of the source are
  taken as doing their work.

  \<^bold>\<open>What is shown.\<close> The properties are labelled C1, C2 and so on, in the order of importance, where they are stated.
  This theory joins the components: a plaintext WebSocket stream delivers the messages of its peer
  whatever the segmentation, as long as no single frame exceeds its receive buffer. Each group proves the
  behaviour of its operations on every branch, the invariants they keep, and the round trips between
  encoders and decoders; \<open>Tcp_Faults\<close>, \<open>Fix_Wire\<close>, \<open>Fix_Stream\<close>, \<open>Kernel_Stream\<close> and \<open>Evicting_Queue\<close> also
  state behaviour of the code that its comments do not promise.

  \<^bold>\<open>Bounds and loops.\<close> Loops over a buffer terminate by a measure and need no fuel. A system-call loop stops
  when the list of answers is used up, which is the result \<open>None\<close>; the properties that claim delivery
  state that the result is \<open>Some\<close>. Spin loops are \<open>partial_function (option)\<close> and their properties prove
  that they return.

  \<^bold>\<open>Not modelled.\<close> TLS record cryptography, signing and JSON parsing call third-party libraries; connection
  set-up of the kernel stream, DPDK port set-up, CPU pinning, the recorder and the system statistics drive
  the operating system or the network card; order books, FIX orders, positions and risk limits compute with
  floating-point numbers; C++ concepts, formatters and logging have no behaviour of their own. The FIX
  session layer, the ITCH, OUCH, SoupBinTCP and MoldUDP64 formats, the SBE accessors and the utilities (rate
  limiter, retry, kill switch) are outside the scope of this development.
\<close>

section \<open>The WebSocket stream, end to end\<close>

lemma ws_idle_empty:
  "ks_ready s \<Longrightarrow> ks_phase s = HsEstablished \<Longrightarrow> ks_has_sink s \<Longrightarrow> rb_window (ks_rx s) = [] \<Longrightarrow>
   ks_idle decode keys s"
  by (simp add: ks_idle_def codec_run_Nil)

text \<open>
  C2. However the network cuts the bytes into reads, and however many there are, the plaintext WebSocket
  stream calls \<open>on_message\<close> and writes auto-responses exactly as one pass of the codec over the bytes does,
  ends established or closed as that pass does, and every poll returns. The one exception is a frame that
  does not fit into the receive buffer: when the unfinished frame fills it the stream is closed and the
  overflow counted, and then what was delivered and answered is the codec's pass over the bytes read until
  then. The operating system is assumed to keep the contract of \<open>recv\<close> and the socket to accept the
  responses.
\<close>

theorem ws_stream_chunking:
  assumes "ks_ready s" "ks_phase s = HsEstablished" "ks_has_sink s" "rb_window (ks_rx s) = []"
    and "ks_recv_os s = map Received chunks"
    and "reads_ok (ws_decode zl) keys (ks_nkeys s) (ks_codec s) [] (length (rb_buf (ks_rx s))) chunks"
    and "length (run_resps (codec_run (ws_decode zl) keys (ks_nkeys s) (ks_codec s) (concat chunks))) \<le> budget s"
  shows "\<exists>k q s'. k \<le> length chunks \<and> q = codec_run (ws_decode zl) keys (ks_nkeys s) (ks_codec s) (concat (take k chunks)) \<and>
    polls drive (ws_decode zl) keys now (length chunks) s = Some (length (run_msgs q), s') \<and>
    ks_messages s' = ks_messages s @ run_msgs q \<and> ks_wire s' = ks_wire s @ run_resps q \<and>
    (if k = length chunks
     then ks_state s' = (case run_end q of Waiting \<Rightarrow> Established | Failed e \<Rightarrow> Closed) \<and> kReasmOverflows s' = kReasmOverflows s
     else run_end q = Waiting \<and> length (run_rest q) = length (rb_buf (ks_rx s)) \<and>
       ks_state s' = Closed \<and> kReasmOverflows s' = kReasmOverflows s + 1)"
proof -
  from wsc.polls_chunks [OF ws_idle_empty [OF assms(1-4)] assms(5), of zl keys drive now] assms(4,6,7)
  obtain k q s' where "k \<le> length chunks" "q = codec_run (ws_decode zl) keys (ks_nkeys s) (ks_codec s) (concat (take k chunks))"
    "polls drive (ws_decode zl) keys now (length chunks) s = Some (length (run_msgs q), s')" "polled s q (k < length chunks) s'"
    "k < length chunks \<longrightarrow> run_end q = Waiting \<and> length (run_rest q) = length (rb_buf (ks_rx s))" by auto
  then show ?thesis by (intro exI [of _ k] exI [of _ q] exI [of _ s']) (auto simp: polled_def)
qed

text \<open>Three frames of seven bytes, cut off their boundaries, for a receive buffer of fourteen.\<close>

definition demo_messages :: "ws_message list" where
  "demo_messages = [([9, 8, 7, 6], kText, [65]), ([1, 2, 3, 4], kBinary, [66]), ([5, 5, 5, 5], kText, [67])]"

definition demo_chunks :: "bytes list" where
  "demo_chunks = (let w = ws_wire_of demo_messages in [take 3 w, take 7 (drop 3 w), take 7 (drop 10 w), drop 17 w])"

abbreviation demo_stream :: "bytes WsCodec KStream" where
  "demo_stream \<equiv> ks_fresh (mk_WsCodec default_WsCodecConfig) 14 [] (map Received demo_chunks)"

lemma demo_facts:
  "concat demo_chunks = ws_wire_of demo_messages" "map length demo_chunks = [3, 7, 7, 4]"
  "ws_payloads demo_messages = [[65], [66], [67]]" "map (\<lambda>m. length (ws_wire_of [m])) demo_messages = [7, 7, 7]"
  by code_simp+

lemma demo_ready:
  "ks_ready demo_stream" "ks_phase demo_stream = HsEstablished" "ks_has_sink demo_stream" "rb_window (ks_rx demo_stream) = []"
  "ks_recv_os demo_stream = map Received demo_chunks" "length (rb_buf (ks_rx demo_stream)) = 14"
  "list_all (ws_message_ok (max_message_size (ws_cfg (ks_codec demo_stream)))) demo_messages"
  by (simp_all add: ks_fresh_ready)
    (simp_all add: ks_fresh_def rb_make_wf rb_make_def rb_window_def rb_readable_def slice_def mk_WsCodec_def default_WsCodecConfig_def demo_messages_def ws_message_ok_def)

lemma demo_frames: "\<forall>m\<in>set demo_messages. length (ws_wire_of [m]) \<le> 7"
  using demo_facts(4) by (auto simp: demo_messages_def)

lemma demo_reads: "reads_ok (ws_decode zl) keys (ks_nkeys demo_stream) (ks_codec demo_stream) [] (length (rb_buf (ks_rx demo_stream))) demo_chunks"
proof (rule ws_reads_ok [OF demo_ready(7)])
  have "set (map length demo_chunks) = {3, 7, 4}" using demo_facts(2) by auto
  then have l: "length bs \<in> {3, 7, 4}" if "bs \<in> set demo_chunks" for bs using that by (metis image_eqI set_map)
  then show "\<forall>bs\<in>set demo_chunks. bs \<noteq> []" by fastforce
  show "\<forall>m\<in>set demo_messages. \<forall>bs\<in>set demo_chunks. length (ws_wire_of [m]) + length bs \<le> length (rb_buf (ks_rx demo_stream))"
    using l demo_frames unfolding demo_ready(6) by fastforce
qed (simp_all add: demo_facts(1))

theorem ws_stream_chunking_witness:
  "\<exists>k q s'. k \<le> 4 \<and> q = codec_run (ws_decode stored_zlib) (\<lambda>_. [1, 2, 3, 4]) 0 (mk_WsCodec default_WsCodecConfig) (concat (take k demo_chunks)) \<and>
    polls id (ws_decode stored_zlib) (\<lambda>_. [1, 2, 3, 4]) 7 4 demo_stream = Some (length (run_msgs q), s') \<and> ks_messages s' = run_msgs q"
proof -
  have z: "ks_nkeys demo_stream = 0" "ks_codec demo_stream = mk_WsCodec default_WsCodecConfig" "ks_messages demo_stream = []"
    by (simp_all add: ks_fresh_def)
  have l: "length demo_chunks = 4" using arg_cong [OF demo_facts(2), of length] by simp
  have "length (run_resps (codec_run (ws_decode stored_zlib) (\<lambda>_. [1, 2, 3, 4]) (ks_nkeys demo_stream) (ks_codec demo_stream) (concat demo_chunks)))
      \<le> budget demo_stream"
    using ws_run_frames [OF demo_ready(7), of stored_zlib "\<lambda>_. [1, 2, 3, 4]" "ks_nkeys demo_stream"] unfolding demo_facts(1) by auto
  from ws_stream_chunking [OF demo_ready(1-5) demo_reads this, of id 7] show ?thesis unfolding l z by auto
qed

text \<open>
  C1. Messages that the peer encoded as masked text or binary frames, within the codec's size limit and no
  frame larger than the receive buffer, are delivered to \<open>on_message\<close> in order and unchanged, for any
  number of messages and any cut into reads; only empty ones are not passed on. Every poll returns, nothing
  is written back and the stream stays established.
\<close>

theorem ws_stream_delivers:
  assumes "ks_ready s" "ks_phase s = HsEstablished" "ks_has_sink s" "rb_window (ks_rx s) = []"
    and "ks_recv_os s = map Received chunks" "0 < length (rb_buf (ks_rx s))"
    and "reads_ok (ws_decode zl) keys (ks_nkeys s) (ks_codec s) [] (length (rb_buf (ks_rx s))) chunks"
    and "list_all (ws_message_ok (max_message_size (ws_cfg (ks_codec s)))) ms" "concat chunks = ws_wire_of ms"
    and "\<forall>m\<in>set ms. length (ws_wire_of [m]) \<le> length (rb_buf (ks_rx s))"
  shows "\<exists>s'. polls drive (ws_decode zl) keys now (length chunks) s = Some (length (ws_payloads ms), s') \<and>
    ks_messages s' = ks_messages s @ ws_payloads ms \<and> ks_wire s' = ks_wire s \<and> ks_state s' = Established"
proof -
  obtain c' where r: "codec_run (ws_decode zl) keys (ks_nkeys s) (ks_codec s) (concat chunks) =
      \<lparr>run_msgs = ws_payloads ms, run_resps = [], run_keys = ks_nkeys s, run_codec = c', run_rest = [], run_end = Waiting\<rparr>"
    using ws_run_frames [OF assms(8), of zl keys "ks_nkeys s"] assms(9) by auto
  from wsc.polls_chunks [OF ws_idle_empty [OF assms(1-4)] assms(5), of zl keys drive now] assms(4,7) r
  obtain k q s' where k: "k \<le> length chunks" "q = codec_run (ws_decode zl) keys (ks_nkeys s) (ks_codec s) (concat (take k chunks))"
    and p: "polls drive (ws_decode zl) keys now (length chunks) s = Some (length (run_msgs q), s')" "polled s q (k < length chunks) s'"
      "k < length chunks \<longrightarrow> run_end q = Waiting \<and> length (run_rest q) = length (rb_buf (ks_rx s))" by auto
  have "concat (take k chunks) @ concat (drop k chunks) = ws_wire_of ms" using assms(9) by (simp flip: concat_append)
  from ws_never_full [OF assms(8,10,6) this, of zl keys "ks_nkeys s"] k p(3) have "k = length chunks" by (cases "k < length chunks") auto
  then show ?thesis using k(2) p(1,2) r by (auto simp: polled_def)
qed

theorem ws_stream_delivers_witness:
  "\<exists>s'. polls id (ws_decode stored_zlib) (\<lambda>_. [1, 2, 3, 4]) 7 4 demo_stream = Some (3, s') \<and> ks_messages s' = [[65], [66], [67]]"
proof -
  have l: "length demo_chunks = 4" using arg_cong [OF demo_facts(2), of length] by simp
  have n: "ks_messages demo_stream = []" by (simp add: ks_fresh_def)
  have f: "0 < length (rb_buf (ks_rx demo_stream))" "\<forall>m\<in>set demo_messages. length (ws_wire_of [m]) \<le> length (rb_buf (ks_rx demo_stream))"
    using demo_frames demo_ready(6) by fastforce+
  from ws_stream_delivers [OF demo_ready(1-5) f(1) demo_reads demo_ready(7) demo_facts(1) f(2), of id stored_zlib "\<lambda>_. [1, 2, 3, 4]" 7]
  show ?thesis unfolding l n demo_facts(3) by (auto simp: numeral_3_eq_3)
qed

end
